(* ===== verification/Prelude.thy ===== *)
theory Prelude
  imports Main "HOL-Library.Word" "HOL-Library.Multiset" "HOL-Library.Monad_Syntax"
    "HOL-Library.Sublist"
begin

text \<open>
  Shared vocabulary of the development: the C types the sources use, arrays with
  uninitialised slots, null-able references, signed 32-bit arithmetic, and the list lemmas
  the component theories rest on.

  Undefined behaviour of C (a read or write outside an allocation, a read of a slot that was
  never written, a dereference of a dangling pointer, signed overflow) is the value
  \<^term>\<open>None\<close> of an \<^typ>\<open>'a option\<close> result, and the \<^term>\<open>Option.bind\<close> of the
  do-notation propagates it. A null pointer is \<open>Null\<close> of \<open>ref\<close>, never \<^term>\<open>None\<close>.
\<close>

section \<open>C types\<close>

type_synonym byte = "8 word"
type_synonym ushort = "16 word"
type_synonym ulonglong = "64 word"

text \<open>A pointer to an object: null, or the object.\<close>

datatype 'a ref = Null | Ref (the_ref: 'a)

text \<open>
  \<open>size_t\<close> values are natural numbers; \<open>sz\<close> is the reduction to 64 bits, written where the
  source computes a byte count or an element count that may not fit.
\<close>

definition sz :: "nat \<Rightarrow> nat" where
  "sz n = n mod 2 ^ 64"

text \<open>Signed 32-bit arithmetic: a result outside the range of \<open>int\<close> is undefined behaviour.\<close>

definition int_range :: "int \<Rightarrow> bool" where
  "int_range x \<longleftrightarrow> - (2 ^ 31) \<le> x \<and> x < 2 ^ 31"

definition cint :: "int \<Rightarrow> int option" where
  "cint x = (if int_range x then Some x else None)"

text \<open>The conversion \<open>(int)\<close> of a priority, as in \<open>(int) ns->pri\<close>, keeps its low 32 bits.\<close>

definition pri_int :: "ulonglong \<Rightarrow> int" where
  "pri_int w = sint (ucast w :: 32 word)"

section \<open>Arrays\<close>

text \<open>
  An allocation of n elements is a list of n slots; \<^term>\<open>None\<close> is a slot whose content is
  indeterminate.
\<close>

type_synonym 'a arr = "'a option list"

definition arr_new :: "nat \<Rightarrow> 'a arr" where
  "arr_new n = replicate n None"

definition arr_get :: "'a arr \<Rightarrow> nat \<Rightarrow> 'a option" where
  "arr_get a i = (if i < length a then a ! i else None)"

definition arr_set :: "'a arr \<Rightarrow> nat \<Rightarrow> 'a \<Rightarrow> 'a arr option" where
  "arr_set a i x = (if i < length a then Some (a[i := Some x]) else None)"

text \<open>\<open>realloc\<close> to n elements keeps the common prefix.\<close>

definition arr_realloc :: "'a arr \<Rightarrow> nat \<Rightarrow> 'a arr" where
  "arr_realloc a n = take n a @ replicate (n - length a) None"

text \<open>A loop that writes the same value into the k slots from i on.\<close>

fun arr_fill :: "'a arr \<Rightarrow> nat \<Rightarrow> nat \<Rightarrow> 'a \<Rightarrow> 'a arr option" where
  "arr_fill a i 0 x = Some a"
| "arr_fill a i (Suc k) x = do {
     a' \<leftarrow> arr_set a i x;
     arr_fill a' (Suc i) k x
   }"

text \<open>An \<open>int\<close> used as an index: a negative one is outside every allocation.\<close>

definition cidx :: "int \<Rightarrow> nat option" where
  "cidx i = (if i < 0 then None else Some (nat i))"

named_theorems arr_simps \<open>reads, writes and resizing of arrays\<close>

section \<open>Lemmas\<close>

lemma sz_small [simp]: "n < 2 ^ 64 \<Longrightarrow> sz n = n"
  by (simp add: sz_def)

lemma cint_in_range [simp]: "int_range x \<Longrightarrow> cint x = Some x"
  by (simp add: cint_def)

lemma cint_eq_Some_iff: "cint x = Some y \<longleftrightarrow> int_range x \<and> y = x"
  by (auto simp: cint_def)

lemma pri_int_small:
  assumes "unat w < 2 ^ 31"
  shows "pri_int w = int (unat w)"
proof -
  have "int (unat w) < int (2 ^ 31)" using assms by (simp only: of_nat_less_iff)
  moreover have "- (2 ^ 31) \<le> uint w" by (rule order_trans [of _ 0]) simp_all
  ultimately have "signed_take_bit 31 (uint w) = uint w" by (intro signed_take_bit_int_eq_self) simp_all
  then show ?thesis by (simp add: pri_int_def signed_ucast_eq)
qed

lemma length_arr_new [arr_simps, simp]: "length (arr_new n) = n"
  by (simp add: arr_new_def)

lemma length_arr_realloc [arr_simps, simp]: "length (arr_realloc a n) = n"
  by (simp add: arr_realloc_def min_def)

lemma arr_get_in [arr_simps]: "i < length a \<Longrightarrow> arr_get a i = a ! i"
  by (simp add: arr_get_def)

lemma arr_set_in [arr_simps]: "i < length a \<Longrightarrow> arr_set a i x = Some (a[i := Some x])"
  by (simp add: arr_set_def)

lemma arr_set_out: "length a \<le> i \<Longrightarrow> arr_set a i x = None"
  by (simp add: arr_set_def)

lemma nth_arr_realloc [arr_simps]:
  "i < length a \<Longrightarrow> i < n \<Longrightarrow> arr_realloc a n ! i = a ! i"
  by (simp add: arr_realloc_def nth_append)

lemma arr_set_eq_Some_iff: "arr_set a i x = Some b \<longleftrightarrow> i < length a \<and> b = a[i := Some x]"
  by (auto simp: arr_set_def)

lemma cidx_nat [simp]: "cidx (int n) = Some n"
  by (simp add: cidx_def)

lemma cidx_nonneg: "0 \<le> i \<Longrightarrow> cidx i = Some (nat i)"
  by (simp add: cidx_def)

lemma arr_fill_end:
  "length a = i + k \<Longrightarrow> arr_fill a i k x = Some (take i a @ replicate k (Some x))"
proof (induction k arbitrary: a i)
  case (Suc k)
  then have "arr_fill (a[i := Some x]) (Suc i) k x = Some (take (Suc i) (a[i := Some x]) @ replicate k (Some x))" by simp
  moreover have "take (Suc i) (a[i := Some x]) = take i a @ [Some x]" using Suc.prems by (simp add: take_Suc_conv_app_nth)
  ultimately show ?case using Suc.prems by (simp add: arr_set_in)
qed simp

end
