(* ===== verification/PQueue.thy ===== *)
theory PQueue
  imports Prelude
begin

text \<open>
  The priority queue of the receiver proxy, \<open>rx_proxy/libpqueue/pqueue.c\<close> and \<open>pqueue.h\<close>: a
  binary heap in an array of node pointers (slot 0 unused), which writes the slot of every
  node into the node itself. Nodes live in a store from pointers to nodes, since the
  queue, its callers and a copy of the queue share them; what a node is (\<open>void *\<close> in the
  source) is a type parameter, and only the callbacks look into it. This theory holds the data and the
  operations; \<open>Heap_Order\<close> holds the order lemmas and \<open>PQueue_Correct\<close> the correctness.

  An operation returns \<^term>\<open>None\<close> where the C code would read or write outside the array,
  read a slot never written, or dereference a pointer with no node.
\<close>

section \<open>Data\<close>

record node_t =
  n_pri :: ulonglong
  n_raw_packet :: "byte arr"
  n_pos :: nat

type_synonym nptr = nat
type_synonym 'n nheap = "nptr \<rightharpoonup> 'n"

text \<open>
  \<open>pqueue_t\<close>. The callbacks are fields, as in the struct; they act on the node a \<open>void *\<close>
  argument points to. The fields \<open>sent_min_seq\<close> and \<open>avail_min_seq\<close> of the struct are never
  read or written by any file and are left out.
\<close>

record 'n pqueue_t =
  q_size :: nat
  q_avail :: nat
  q_step :: nat
  q_cmppri :: "ulonglong \<Rightarrow> ulonglong \<Rightarrow> bool"
  q_getpri :: "'n \<Rightarrow> ulonglong"
  q_setpri :: "'n \<Rightarrow> ulonglong \<Rightarrow> 'n"
  q_getpos :: "'n \<Rightarrow> nat"
  q_setpos :: "'n \<Rightarrow> nat \<Rightarrow> 'n"
  q_d :: "nptr arr"

section \<open>Macros and callbacks\<close>

text \<open>
  The index macros shift; an index is below the size of an array of pointers that fits in
  memory, hence below \<open>2 ^ 61\<close>, and the shift does not lose bits.
\<close>

definition left :: "nat \<Rightarrow> nat" where
  "left i = 2 * i"

definition right :: "nat \<Rightarrow> nat" where
  "right i = 2 * i + 1"

definition parent :: "nat \<Rightarrow> nat" where
  "parent i = i div 2"

definition cmp_pri :: "ulonglong \<Rightarrow> ulonglong \<Rightarrow> bool" where
  "cmp_pri nxt cur \<longleftrightarrow> nxt > cur"

definition get_pri :: "node_t \<Rightarrow> ulonglong" where
  "get_pri a = n_pri a"

definition get_pos :: "node_t \<Rightarrow> nat" where
  "get_pos a = n_pos a"

definition set_pos :: "node_t \<Rightarrow> nat \<Rightarrow> node_t" where
  "set_pos a p = a\<lparr>n_pos := p\<rparr>"

definition set_pri :: "node_t \<Rightarrow> ulonglong \<Rightarrow> node_t" where
  "set_pri a p = a\<lparr>n_pri := p\<rparr>"

text \<open>Calls of the callbacks through the queue, on a pointer.\<close>

definition call_getpri :: "'n pqueue_t \<Rightarrow> 'n nheap \<Rightarrow> nptr \<Rightarrow> ulonglong option" where
  "call_getpri q h p = map_option (q_getpri q) (h p)"

definition call_getpos :: "'n pqueue_t \<Rightarrow> 'n nheap \<Rightarrow> nptr \<Rightarrow> nat option" where
  "call_getpos q h p = map_option (q_getpos q) (h p)"

definition call_setpri :: "'n pqueue_t \<Rightarrow> 'n nheap \<Rightarrow> nptr \<Rightarrow> ulonglong \<Rightarrow> 'n nheap option" where
  "call_setpri q h p v = (case h p of None \<Rightarrow> None | Some n \<Rightarrow> Some (h(p \<mapsto> q_setpri q n v)))"

definition call_setpos :: "'n pqueue_t \<Rightarrow> 'n nheap \<Rightarrow> nptr \<Rightarrow> nat \<Rightarrow> 'n nheap option" where
  "call_setpos q h p i = (case h p of None \<Rightarrow> None | Some n \<Rightarrow> Some (h(p \<mapsto> q_setpos q n i)))"

section \<open>Operations\<close>

text \<open>
  \<open>malloc_q\<close> and \<open>malloc_d\<close> say whether the two allocations succeed. The array has as many
  slots as the byte count, reduced to 64 bits, has room for.
\<close>

definition pqueue_init ::
  "bool \<Rightarrow> bool \<Rightarrow> nat \<Rightarrow> (ulonglong \<Rightarrow> ulonglong \<Rightarrow> bool) \<Rightarrow> ('n \<Rightarrow> ulonglong) \<Rightarrow>
   ('n \<Rightarrow> ulonglong \<Rightarrow> 'n) \<Rightarrow> ('n \<Rightarrow> nat) \<Rightarrow> ('n \<Rightarrow> nat \<Rightarrow> 'n) \<Rightarrow> 'n pqueue_t ref" where
  "pqueue_init malloc_q malloc_d n cmppri getpri setpri getpos setpos =
     (if \<not> malloc_q then Null
      else if \<not> malloc_d then Null
      else Ref \<lparr>q_size = 1, q_avail = sz (n + 1), q_step = sz (n + 1), q_cmppri = cmppri,
        q_getpri = getpri, q_setpri = setpri, q_getpos = getpos, q_setpos = setpos,
        q_d = arr_new (sz (sz (n + 1) * 8) div 8)\<rparr>)"

text \<open>\<open>pqueue_free\<close>: the array of the handle is released, then the handle; a null handle is dereferenced.\<close>

definition pqueue_free :: "'n pqueue_t ref \<Rightarrow> unit option" where
  "pqueue_free qp = (case qp of Null \<Rightarrow> None | Ref q \<Rightarrow> Some ())"

definition pqueue_size :: "'n pqueue_t \<Rightarrow> nat" where
  "pqueue_size q = sz (q_size q + (2 ^ 64 - 1))"

text \<open>The loop of \<open>bubble_up\<close>; its result carries the slot where the loop stopped.\<close>

function bubble_up_loop :: "'n pqueue_t \<Rightarrow> 'n nheap \<Rightarrow> ulonglong \<Rightarrow> nat \<Rightarrow> ('n pqueue_t \<times> 'n nheap \<times> nat) option" where
  "bubble_up_loop q h moving_pri i =
     (if i > 1
      then do {
        pnode \<leftarrow> arr_get (q_d q) (parent i);
        ppri \<leftarrow> call_getpri q h pnode;
        (if q_cmppri q ppri moving_pri
         then do {
           d' \<leftarrow> arr_set (q_d q) i pnode;
           h' \<leftarrow> call_setpos q h pnode i;
           bubble_up_loop (q\<lparr>q_d := d'\<rparr>) h' moving_pri (parent i)
         }
         else Some (q, h, i))
      }
      else Some (q, h, i))"
  by pat_completeness auto
termination
  by (relation "measure (\<lambda>(q, h, m, i). i)") (auto simp: parent_def)

definition bubble_up :: "'n pqueue_t \<Rightarrow> 'n nheap \<Rightarrow> nat \<Rightarrow> ('n pqueue_t \<times> 'n nheap) option" where
  "bubble_up q h i = do {
     moving_node \<leftarrow> arr_get (q_d q) i;
     moving_pri \<leftarrow> call_getpri q h moving_node;
     (q1, h1, k) \<leftarrow> bubble_up_loop q h moving_pri i;
     d' \<leftarrow> arr_set (q_d q1) k moving_node;
     h' \<leftarrow> call_setpos q1 h1 moving_node k;
     Some (q1\<lparr>q_d := d'\<rparr>, h')
   }"

definition maxchild :: "'n pqueue_t \<Rightarrow> 'n nheap \<Rightarrow> nat \<Rightarrow> nat option" where
  "maxchild q h i =
     (let child_node = left i in
      if child_node \<ge> q_size q then Some 0
      else if child_node + 1 < q_size q
      then do {
        a \<leftarrow> arr_get (q_d q) child_node;
        apri \<leftarrow> call_getpri q h a;
        b \<leftarrow> arr_get (q_d q) (child_node + 1);
        bpri \<leftarrow> call_getpri q h b;
        Some (if q_cmppri q apri bpri then child_node + 1 else child_node)
      }
      else Some child_node)"

lemma maxchild_bounds: "maxchild q h i = Some c \<Longrightarrow> c \<noteq> 0 \<Longrightarrow> i < c \<and> c < q_size q"
  by (auto simp: maxchild_def left_def Let_def split: if_splits Option.bind_splits)

function percolate_down_loop :: "'n pqueue_t \<Rightarrow> 'n nheap \<Rightarrow> ulonglong \<Rightarrow> nat \<Rightarrow> ('n pqueue_t \<times> 'n nheap \<times> nat) option" where
  "percolate_down_loop q h moving_pri i = do {
     child_node \<leftarrow> maxchild q h i;
     (if child_node = 0 then Some (q, h, i)
      else do {
        cnode \<leftarrow> arr_get (q_d q) child_node;
        cpri \<leftarrow> call_getpri q h cnode;
        (if q_cmppri q moving_pri cpri
         then do {
           d' \<leftarrow> arr_set (q_d q) i cnode;
           h' \<leftarrow> call_setpos q h cnode i;
           percolate_down_loop (q\<lparr>q_d := d'\<rparr>) h' moving_pri child_node
         }
         else Some (q, h, i))
      })
   }"
  by pat_completeness auto
termination
  by (relation "measure (\<lambda>(q, h, m, i). q_size q - i)") (auto dest!: maxchild_bounds)

definition percolate_down :: "'n pqueue_t \<Rightarrow> 'n nheap \<Rightarrow> nat \<Rightarrow> ('n pqueue_t \<times> 'n nheap) option" where
  "percolate_down q h i = do {
     moving_node \<leftarrow> arr_get (q_d q) i;
     moving_pri \<leftarrow> call_getpri q h moving_node;
     (q1, h1, k) \<leftarrow> percolate_down_loop q h moving_pri i;
     d' \<leftarrow> arr_set (q_d q1) k moving_node;
     h' \<leftarrow> call_setpos q1 h1 moving_node k;
     Some (q1\<lparr>q_d := d'\<rparr>, h')
   }"

text \<open>\<open>realloc_ok\<close> says whether \<open>realloc\<close> returns memory when it is called.\<close>

definition pqueue_insert ::
  "bool \<Rightarrow> 'n pqueue_t ref \<Rightarrow> 'n nheap \<Rightarrow> nptr \<Rightarrow> (int \<times> 'n pqueue_t ref \<times> 'n nheap) option" where
  "pqueue_insert realloc_ok qp h p =
     (case qp of
        Null \<Rightarrow> Some (1, Null, h)
      | Ref q \<Rightarrow>
          if q_size q \<ge> q_avail q \<and> \<not> realloc_ok then Some (1, Ref q, h)
          else
            let newsize = sz (q_size q + q_step q);
                q1 = (if q_size q \<ge> q_avail q
                      then q\<lparr>q_d := arr_realloc (q_d q) (sz (8 * newsize) div 8), q_avail := newsize\<rparr>
                      else q);
                i = q_size q1
            in do {
              d' \<leftarrow> arr_set (q_d q1) i p;
              (q2, h') \<leftarrow> bubble_up (q1\<lparr>q_size := sz (i + 1), q_d := d'\<rparr>) h i;
              Some (0, Ref q2, h')
            })"

definition pqueue_change_priority ::
  "'n pqueue_t \<Rightarrow> 'n nheap \<Rightarrow> ulonglong \<Rightarrow> nptr \<Rightarrow> ('n pqueue_t \<times> 'n nheap) option" where
  "pqueue_change_priority q h new_pri p = do {
     old_pri \<leftarrow> call_getpri q h p;
     h' \<leftarrow> call_setpri q h p new_pri;
     posn \<leftarrow> call_getpos q h' p;
     (if q_cmppri q old_pri new_pri then bubble_up q h' posn else percolate_down q h' posn)
   }"

text \<open>\<open>--q->size\<close> of an empty field would wrap to the largest \<open>size_t\<close>.\<close>

definition size_dec :: "nat \<Rightarrow> nat" where
  "size_dec n = sz (n + (2 ^ 64 - 1))"

definition pqueue_remove :: "'n pqueue_t \<Rightarrow> 'n nheap \<Rightarrow> nptr \<Rightarrow> (int \<times> 'n pqueue_t \<times> 'n nheap) option" where
  "pqueue_remove q h p = do {
     posn \<leftarrow> call_getpos q h p;
     let n = size_dec (q_size q);
     l \<leftarrow> arr_get (q_d q) n;
     d' \<leftarrow> arr_set (q_d q) posn l;
     let q1 = q\<lparr>q_size := n, q_d := d'\<rparr>;
     dpri \<leftarrow> call_getpri q1 h p;
     m \<leftarrow> arr_get d' posn;
     mpri \<leftarrow> call_getpri q1 h m;
     (q2, h') \<leftarrow> (if q_cmppri q1 dpri mpri then bubble_up q1 h posn else percolate_down q1 h posn);
     Some (0, q2, h')
   }"

definition pqueue_pop :: "'n pqueue_t ref \<Rightarrow> 'n nheap \<Rightarrow> (nptr ref \<times> 'n pqueue_t ref \<times> 'n nheap) option" where
  "pqueue_pop qp h =
     (case qp of
        Null \<Rightarrow> Some (Null, Null, h)
      | Ref q \<Rightarrow>
          if q_size q = 1 then Some (Null, Ref q, h)
          else do {
            head \<leftarrow> arr_get (q_d q) 1;
            let n = size_dec (q_size q);
            l \<leftarrow> arr_get (q_d q) n;
            d' \<leftarrow> arr_set (q_d q) 1 l;
            (q1, h') \<leftarrow> percolate_down (q\<lparr>q_size := n, q_d := d'\<rparr>) h 1;
            Some (Ref head, Ref q1, h')
          })"

definition pqueue_peek :: "'n pqueue_t ref \<Rightarrow> nptr ref option" where
  "pqueue_peek qp =
     (case qp of
        Null \<Rightarrow> Some Null
      | Ref q \<Rightarrow> if q_size q = 1 then Some Null else map_option Ref (arr_get (q_d q) 1))"

declare bubble_up_loop.simps [simp del] percolate_down_loop.simps [simp del]

end
