(* ===== verification/Heap_Order.thy ===== *)
theory Heap_Order
  imports PQueue
begin

text \<open>
  Order lemmas for the binary heap, over any comparison a caller may pass to
  \<open>pqueue_init\<close>. The slots are a function from slot numbers (root 1) to priorities. A heap
  with one defect is described from above (\<open>swim_ok\<close>, what \<open>bubble_up\<close> repairs) and from
  below (\<open>sink_ok\<close>, what \<open>percolate_down\<close> repairs).
\<close>

section \<open>Slots in heap order, and with one defect\<close>

definition heap_ok :: "('a \<Rightarrow> 'a \<Rightarrow> bool) \<Rightarrow> (nat \<Rightarrow> 'a) \<Rightarrow> nat \<Rightarrow> bool" where
  "heap_ok cmp g s \<longleftrightarrow> (\<forall>j. 2 \<le> j \<and> j < s \<longrightarrow> \<not> cmp (g (j div 2)) (g j))"

definition swim_ok :: "('a \<Rightarrow> 'a \<Rightarrow> bool) \<Rightarrow> (nat \<Rightarrow> 'a) \<Rightarrow> nat \<Rightarrow> nat \<Rightarrow> bool" where
  "swim_ok cmp g s i \<longleftrightarrow>
     (\<forall>j. 2 \<le> j \<and> j < s \<and> j \<noteq> i \<longrightarrow> \<not> cmp (g (j div 2)) (g j)) \<and>
     (1 < i \<longrightarrow> (\<forall>j. j < s \<and> j div 2 = i \<longrightarrow> \<not> cmp (g (i div 2)) (g j)))"

definition sink_ok :: "('a \<Rightarrow> 'a \<Rightarrow> bool) \<Rightarrow> (nat \<Rightarrow> 'a) \<Rightarrow> nat \<Rightarrow> nat \<Rightarrow> bool" where
  "sink_ok cmp g s i \<longleftrightarrow>
     (\<forall>j. 2 \<le> j \<and> j < s \<and> j div 2 \<noteq> i \<longrightarrow> \<not> cmp (g (j div 2)) (g j)) \<and>
     (1 < i \<longrightarrow> (\<forall>j. j < s \<and> j div 2 = i \<longrightarrow> \<not> cmp (g (i div 2)) (g j)))"

section \<open>The comparison\<close>

text \<open>
  What the queue relies on: \<open>cmp a b\<close> ("a must not stand above b") is asymmetric, and its
  negation is transitive.
\<close>

locale pri_order =
  fixes cmp :: "'a \<Rightarrow> 'a \<Rightarrow> bool"
  assumes asym: "cmp a b \<Longrightarrow> \<not> cmp b a"
    and neg_trans: "\<not> cmp a b \<Longrightarrow> \<not> cmp b c \<Longrightarrow> \<not> cmp a c"
begin

lemma irrefl: "\<not> cmp a a"
  using asym by blast

lemma heap_root:
  assumes "heap_ok cmp g s" and "1 \<le> j" and "j < s"
  shows "\<not> cmp (g 1) (g j)"
  using assms(2,3)
proof (induction j rule: less_induct)
  case (less j)
  show ?case
  proof (cases "j = 1")
    case True
    then show ?thesis by (simp add: irrefl)
  next
    case False
    with less.prems have j: "2 \<le> j" "j < s" by auto
    have "\<not> cmp (g 1) (g (j div 2))"
      by (rule less.IH) (use j in auto)
    moreover have "\<not> cmp (g (j div 2)) (g j)"
      using assms(1) j by (simp add: heap_ok_def)
    ultimately show ?thesis by (rule neg_trans)
  qed
qed

lemma swim_done_root: "swim_ok cmp g s i \<Longrightarrow> i \<le> 1 \<Longrightarrow> heap_ok cmp g s"
  by (auto simp: swim_ok_def heap_ok_def)

lemma swim_done: "swim_ok cmp g s i \<Longrightarrow> \<not> cmp (g (i div 2)) (g i) \<Longrightarrow> heap_ok cmp g s"
  unfolding swim_ok_def heap_ok_def by metis

text \<open>Exchanging the defect with its parent moves the defect one level up.\<close>

lemma swim_parents:
  assumes ok: "swim_ok cmp g s i" and i: "1 < i" "i < s" and above: "cmp (g (i div 2)) (g i)"
    and j: "2 \<le> j" "j < s" "j \<noteq> i div 2"
  shows "\<not> cmp ((g(i := g (i div 2), i div 2 := g i)) (j div 2)) ((g(i := g (i div 2), i div 2 := g i)) j)"
proof -
  have p: "1 \<le> i div 2" "i div 2 < i" "i \<noteq> i div 2" using i by auto
  have new: "\<not> cmp (g i) (g (i div 2))" by (rule asym [OF above])
  have up: "\<not> cmp (g (j div 2)) (g j)" if "j \<noteq> i" using ok that j by (simp add: swim_ok_def)
  consider (self) "j = i" | (child) "j \<noteq> i" "j div 2 = i" | (sibling) "j \<noteq> i" "j div 2 = i div 2"
    | (other) "j \<noteq> i" "j div 2 \<noteq> i" "j div 2 \<noteq> i div 2" by blast
  then show ?thesis
  proof cases
    case self
    with p new show ?thesis by auto
  next
    case child
    then have "\<not> cmp (g (i div 2)) (g j)" using ok i j by (simp add: swim_ok_def)
    with child j p show ?thesis by simp
  next
    case sibling
    have "\<not> cmp (g i) (g j)" by (rule neg_trans [OF new]) (use up sibling in simp)
    with sibling j show ?thesis by simp
  next
    case other
    with up j show ?thesis by simp
  qed
qed

lemma swim_step:
  assumes ok: "swim_ok cmp g s i" and i: "1 < i" "i < s" and above: "cmp (g (i div 2)) (g i)"
  shows "swim_ok cmp (g(i := g (i div 2), i div 2 := g i)) s (i div 2)"
proof -
  let ?p = "i div 2"
  let ?g = "g(i := g ?p, ?p := g i)"
  have p: "1 \<le> ?p" "?p < i" "i \<noteq> ?p" using i by auto
  have "\<not> cmp (?g (?p div 2)) (?g j)" if "1 < ?p" "j < s" "j div 2 = ?p" for j
  proof -
    have pp: "?p div 2 \<noteq> ?p" "?p div 2 \<noteq> i" "j \<noteq> ?p" using that p by auto
    have top: "\<not> cmp (g (?p div 2)) (g ?p)" using ok that(1) p i by (simp add: swim_ok_def)
    show ?thesis
    proof (cases "j = i")
      case True
      with pp top p show ?thesis by simp
    next
      case False
      have "2 \<le> j" using that by auto
      then have "\<not> cmp (g (j div 2)) (g j)" using ok that(2) False unfolding swim_ok_def by blast
      then have "\<not> cmp (g ?p) (g j)" unfolding that(3) .
      with top have "\<not> cmp (g (?p div 2)) (g j)" by (rule neg_trans)
      with False pp show ?thesis by simp
    qed
  qed
  then show ?thesis using swim_parents [OF ok i above] by (simp add: swim_ok_def)
qed

lemma sink_done:
  assumes "sink_ok cmp g s i" and "\<And>j. 2 \<le> j \<Longrightarrow> j < s \<Longrightarrow> j div 2 = i \<Longrightarrow> \<not> cmp (g i) (g j)"
  shows "heap_ok cmp g s"
  using assms unfolding sink_ok_def heap_ok_def by metis

text \<open>Exchanging the defect with the child no sibling may precede moves it one level down.\<close>

lemma sink_step:
  assumes ok: "sink_ok cmp g s i" and i: "1 \<le> i" and c: "c < s" "c div 2 = i" "2 \<le> c"
    and below: "cmp (g i) (g c)"
    and best: "\<And>j. 2 \<le> j \<Longrightarrow> j < s \<Longrightarrow> j div 2 = i \<Longrightarrow> \<not> cmp (g c) (g j)"
  shows "sink_ok cmp (g(i := g c, c := g i)) s c"
proof -
  let ?g = "g(i := g c, c := g i)"
  have ci: "i < c" using c i by auto
  have up: "\<not> cmp (g (j div 2)) (g j)" if "2 \<le> j" "j < s" "j div 2 \<noteq> i" for j
    using ok that by (simp add: sink_ok_def)
  have "\<not> cmp (?g (j div 2)) (?g j)" if j: "2 \<le> j" "j < s" "j div 2 \<noteq> c" for j
  proof -
    consider (self) "j = i" | (chosen) "j = c" | (sibling) "j \<noteq> c" "j div 2 = i"
      | (other) "j \<noteq> i" "j \<noteq> c" "j div 2 \<noteq> i" by blast
    then show ?thesis
    proof cases
      case self
      then have "\<not> cmp (g (i div 2)) (g c)" "i div 2 \<noteq> i" "i div 2 \<noteq> c"
        using ok j c i ci by (auto simp: sink_ok_def)
      with self ci show ?thesis by simp
    next
      case chosen
      with c ci asym [OF below] show ?thesis by simp
    next
      case sibling
      with j ci best [of j] show ?thesis by auto
    next
      case other
      with j up [of j] show ?thesis by simp
    qed
  qed
  moreover have "\<not> cmp (?g (c div 2)) (?g j)" if "j < s" "j div 2 = c" for j
  proof -
    have "j \<noteq> i" "j \<noteq> c" using that c ci i by auto
    moreover have "\<not> cmp (g c) (g j)" using up [of j] that c ci by auto
    ultimately show ?thesis using c by simp
  qed
  ultimately show ?thesis by (simp add: sink_ok_def)
qed

text \<open>Lowering or raising one slot of a heap leaves a heap with one defect.\<close>

lemma swim_ok_update:
  assumes "heap_ok cmp g s" and "1 \<le> i" and "\<not> cmp v (g i)"
  shows "swim_ok cmp (g(i := v)) s i"
proof -
  have h: "\<not> cmp (g (j div 2)) (g j)" if "2 \<le> j" "j < s" for j
    using assms(1) that by (simp add: heap_ok_def)
  have child: "\<not> cmp v (g j)" if "2 \<le> j" "j < s" "j div 2 = i" for j
    by (rule neg_trans [OF assms(3)]) (use h [of j] that in simp)
  have grand: "\<not> cmp (g (i div 2)) (g j)" if "1 < i" "j < s" "j div 2 = i" for j
    by (rule neg_trans [OF h [of i] h [of j, unfolded that(3)]]) (use that in auto)
  show ?thesis
    using h child grand assms(2) by (auto simp: swim_ok_def)
qed

lemma sink_ok_update:
  assumes "heap_ok cmp g s" and "1 \<le> i" and "i < s" and "\<not> cmp (g i) v"
  shows "sink_ok cmp (g(i := v)) s i"
proof -
  have h: "\<not> cmp (g (j div 2)) (g j)" if "2 \<le> j" "j < s" for j
    using assms(1) that by (simp add: heap_ok_def)
  have own: "\<not> cmp (g (i div 2)) v" if "2 \<le> i"
    by (rule neg_trans [OF h assms(4)]) (use that assms in auto)
  have grand: "\<not> cmp (g (i div 2)) (g j)" if "1 < i" "j < s" "j div 2 = i" for j
    by (rule neg_trans [OF h [of i] h [of j, unfolded that(3)]]) (use that in auto)
  show ?thesis
    using h own grand assms(2) by (auto simp: sink_ok_def)
qed

lemma heap_ok_append: "heap_ok cmp g s \<Longrightarrow> swim_ok cmp (g(s := v)) (Suc s) s"
  by (auto simp: heap_ok_def swim_ok_def)

lemma heap_ok_cong: "heap_ok cmp g s \<Longrightarrow> (\<And>j. 1 \<le> j \<Longrightarrow> j < s \<Longrightarrow> g' j = g j) \<Longrightarrow> heap_ok cmp g' s"
  by (auto simp: heap_ok_def)

lemma swim_ok_cong: "swim_ok cmp g s i \<Longrightarrow> 1 \<le> i \<Longrightarrow> i < s \<Longrightarrow>
    (\<And>j. 1 \<le> j \<Longrightarrow> j < s \<Longrightarrow> g' j = g j) \<Longrightarrow> swim_ok cmp g' s i"
  by (auto simp: swim_ok_def)

lemma sink_ok_cong: "sink_ok cmp g s i \<Longrightarrow> 1 \<le> i \<Longrightarrow> i < s \<Longrightarrow>
    (\<And>j. 1 \<le> j \<Longrightarrow> j < s \<Longrightarrow> g' j = g j) \<Longrightarrow> sink_ok cmp g' s i"
  by (auto simp: sink_ok_def)

lemma heap_ok_shrink: "heap_ok cmp g s \<Longrightarrow> s' \<le> s \<Longrightarrow> heap_ok cmp g s'"
  by (auto simp: heap_ok_def)

end

text \<open>The comparison the receiver proxy passes is such an order.\<close>

interpretation cmp_pri: pri_order cmp_pri
  by unfold_locales (auto simp: cmp_pri_def)

end
