(* ===== verification/PQueue_Correct.thy ===== *)
theory PQueue_Correct
  imports Heap_Order
begin

text \<open>
  Correctness of the priority queue. \<open>pq_inv\<close> is the representation invariant (the array
  holds \<open>size - 1\<close> pointers to nodes, each node carries its slot number), \<open>pq_order\<close> the heap
  order. While \<open>bubble_up\<close> and \<open>percolate_down\<close> run, one slot is a hole for the moving node:
  \<open>hole_inv\<close>. One lemma, \<open>hole_move\<close>, covers the body of both loops.
\<close>

section \<open>Representation invariant and abstraction\<close>

definition std_callbacks :: "node_t pqueue_t \<Rightarrow> bool" where
  "std_callbacks q \<longleftrightarrow> q_getpri q = get_pri \<and> q_setpri q = set_pri \<and>
     q_getpos q = get_pos \<and> q_setpos q = set_pos"

definition slot :: "node_t pqueue_t \<Rightarrow> nat \<Rightarrow> nptr" where
  "slot q j = the (q_d q ! j)"

definition prio :: "node_t nheap \<Rightarrow> nptr \<Rightarrow> ulonglong" where
  "prio h p = n_pri (the (h p))"

definition slot_ok :: "node_t pqueue_t \<Rightarrow> node_t nheap \<Rightarrow> nat \<Rightarrow> bool" where
  "slot_ok q h j \<longleftrightarrow> (\<exists>p n. q_d q ! j = Some p \<and> h p = Some n \<and> n_pos n = j)"

definition pq_shape :: "node_t pqueue_t \<Rightarrow> bool" where
  "pq_shape q \<longleftrightarrow> std_callbacks q \<and> pri_order (q_cmppri q) \<and> 1 \<le> q_size q \<and> q_size q \<le> q_avail q \<and>
     length (q_d q) = q_avail q \<and> q_avail q < 2 ^ 61 \<and> 1 \<le> q_step q"

definition pq_inv :: "node_t pqueue_t \<Rightarrow> node_t nheap \<Rightarrow> bool" where
  "pq_inv q h \<longleftrightarrow> pq_shape q \<and> (\<forall>j. 1 \<le> j \<and> j < q_size q \<longrightarrow> slot_ok q h j)"

definition pq_order :: "node_t pqueue_t \<Rightarrow> node_t nheap \<Rightarrow> bool" where
  "pq_order q h \<longleftrightarrow> heap_ok (q_cmppri q) (\<lambda>j. prio h (slot q j)) (q_size q)"

definition pq_valid :: "node_t pqueue_t \<Rightarrow> node_t nheap \<Rightarrow> bool" where
  "pq_valid q h \<longleftrightarrow> pq_inv q h \<and> pq_order q h"

text \<open>The nodes in the queue.\<close>

definition pq_ptrs :: "node_t pqueue_t \<Rightarrow> nptr set" where
  "pq_ptrs q = slot q ` {1..<q_size q}"

text \<open>Two stores that differ in the positions at most.\<close>

definition same_nodes :: "node_t nheap \<Rightarrow> node_t nheap \<Rightarrow> bool" where
  "same_nodes h h' \<longleftrightarrow> (\<forall>p. map_option (n_pos_update (\<lambda>_. 0)) (h' p) = map_option (n_pos_update (\<lambda>_. 0)) (h p))"

text \<open>The moving node \<open>mv\<close> belongs to slot i, which no other slot's node is.\<close>

definition hole_inv :: "node_t pqueue_t \<Rightarrow> node_t nheap \<Rightarrow> nat \<Rightarrow> nptr \<Rightarrow> bool" where
  "hole_inv q h i mv \<longleftrightarrow> pq_shape q \<and> 1 \<le> i \<and> i < q_size q \<and> h mv \<noteq> None \<and>
     (\<forall>j. 1 \<le> j \<and> j < q_size q \<and> j \<noteq> i \<longrightarrow> slot_ok q h j \<and> slot q j \<noteq> mv)"

definition placed :: "node_t pqueue_t \<Rightarrow> nat \<Rightarrow> nptr \<Rightarrow> nat \<Rightarrow> nptr" where
  "placed q i mv = (slot q)(i := mv)"

definition pri_at :: "node_t pqueue_t \<Rightarrow> node_t nheap \<Rightarrow> nat \<Rightarrow> nptr \<Rightarrow> nat \<Rightarrow> ulonglong" where
  "pri_at q h i mv j = prio h (placed q i mv j)"

section \<open>Stores and slots\<close>

named_theorems pq_calls \<open>callbacks of a queue with the standard callbacks\<close>

lemma call_getpri_std [pq_calls]: "std_callbacks q \<Longrightarrow> h p = Some n \<Longrightarrow> call_getpri q h p = Some (n_pri n)"
  by (simp add: call_getpri_def std_callbacks_def get_pri_def)

lemma call_getpos_std [pq_calls]: "std_callbacks q \<Longrightarrow> h p = Some n \<Longrightarrow> call_getpos q h p = Some (n_pos n)"
  by (simp add: call_getpos_def std_callbacks_def get_pos_def)

lemma call_setpos_std [pq_calls]:
  "std_callbacks q \<Longrightarrow> h p = Some n \<Longrightarrow> call_setpos q h p i = Some (h(p \<mapsto> n\<lparr>n_pos := i\<rparr>))"
  by (simp add: call_setpos_def std_callbacks_def set_pos_def)

lemma call_setpri_std [pq_calls]:
  "std_callbacks q \<Longrightarrow> h p = Some n \<Longrightarrow> call_setpri q h p v = Some (h(p \<mapsto> n\<lparr>n_pri := v\<rparr>))"
  by (simp add: call_setpri_def std_callbacks_def set_pri_def)

lemma std_callbacks_upd [simp]:
  "std_callbacks (q\<lparr>q_d := d\<rparr>) = std_callbacks q" "std_callbacks (q\<lparr>q_size := s\<rparr>) = std_callbacks q"
  by (simp_all add: std_callbacks_def)

lemma same_nodes_refl [simp]: "same_nodes h h"
  by (simp add: same_nodes_def)

lemma same_nodes_trans: "same_nodes h h' \<Longrightarrow> same_nodes h' h'' \<Longrightarrow> same_nodes h h''"
  by (simp add: same_nodes_def)

lemma same_nodes_sym: "same_nodes h h' \<Longrightarrow> same_nodes h' h"
  by (simp add: same_nodes_def)

lemma same_nodes_upd: "h p = Some n \<Longrightarrow> same_nodes h (h(p \<mapsto> n\<lparr>n_pos := i\<rparr>))"
  by (simp add: same_nodes_def)

lemma same_nodes_lookup:
  assumes "same_nodes h h'" and "h p = Some n"
  obtains n' where "h' p = Some n'" and "n_pri n' = n_pri n" and "n_raw_packet n' = n_raw_packet n"
proof -
  from assms have "map_option (n_pos_update (\<lambda>_. 0)) (h' p) = Some (n\<lparr>n_pos := 0\<rparr>)"
    by (simp add: same_nodes_def)
  then obtain n' where n': "h' p = Some n'" and eq: "n'\<lparr>n_pos := 0\<rparr> = n\<lparr>n_pos := 0\<rparr>" by auto
  from eq have "n_pri (n'\<lparr>n_pos := 0\<rparr>) = n_pri (n\<lparr>n_pos := 0\<rparr>)"
    "n_raw_packet (n'\<lparr>n_pos := 0\<rparr>) = n_raw_packet (n\<lparr>n_pos := 0\<rparr>)" by (simp_all only:)
  then show thesis using that [OF n'] by simp
qed

lemma same_nodes_None: "same_nodes h h' \<Longrightarrow> h' p = None \<longleftrightarrow> h p = None"
  unfolding same_nodes_def by (metis option.map_disc_iff)

lemma same_nodes_prio: "same_nodes h h' \<Longrightarrow> prio h' p = prio h p"
  by (cases "h p") (auto simp: prio_def dest: same_nodes_None [THEN iffD2] elim: same_nodes_lookup)

lemma pri_at_same_nodes: "same_nodes h h' \<Longrightarrow> pri_at q h' i mv = pri_at q h i mv"
  by (rule ext) (simp add: pri_at_def same_nodes_prio)

lemma pri_at_moving: "pri_at q h i mv i = prio h mv"
  by (simp add: pri_at_def placed_def)

lemma image_exchange:
  assumes "i \<in> A" "k \<in> A"
  shows "(g(i := g k, k := g i)) ` A = g ` A"
  using assms by (auto simp: image_iff)

lemma slot_okD:
  assumes "slot_ok q h j"
  obtains n where "q_d q ! j = Some (slot q j)" "h (slot q j) = Some n" "n_pos n = j"
  using assms by (auto simp: slot_ok_def slot_def)

lemma shape_bounds:
  "pq_shape q \<Longrightarrow> std_callbacks q"
  "pq_shape q \<Longrightarrow> j < q_size q \<Longrightarrow> j < length (q_d q)"
  "pq_shape q \<Longrightarrow> q_size q \<le> length (q_d q)"
  "pq_shape q \<Longrightarrow> pri_order (q_cmppri q)"
  by (auto simp: pq_shape_def)

lemma pq_shape_upd [simp]:
  "length xs = length (q_d q) \<Longrightarrow> pq_shape (q\<lparr>q_d := xs\<rparr>) = pq_shape q"
  by (simp add: pq_shape_def)

text \<open>Distinct slots hold distinct nodes, since each node records its slot.\<close>

lemma slot_inj: "pq_inv q h \<Longrightarrow> inj_on (slot q) {1..<q_size q}"
  by (rule inj_onI) (metis atLeastLessThan_iff pq_inv_def slot_okD option.inject)

lemma card_pq_ptrs: "pq_inv q h \<Longrightarrow> card (pq_ptrs q) = q_size q - 1"
  unfolding pq_ptrs_def by (subst card_image [OF slot_inj]) auto

lemma finite_pq_ptrs [simp]: "finite (pq_ptrs q)"
  by (simp add: pq_ptrs_def)

lemma pq_ptrs_node:
  assumes "pq_inv q h" and "p \<in> pq_ptrs q"
  obtains n where "h p = Some n" "1 \<le> n_pos n" "n_pos n < q_size q" "slot q (n_pos n) = p"
  using assms unfolding pq_ptrs_def pq_inv_def by (auto elim!: slot_okD)

section \<open>Moving the hole\<close>

lemma hole_move:
  assumes inv: "hole_inv q h i mv" and k: "1 \<le> k" "k < q_size q" "k \<noteq> i"
  obtains n where "q_d q ! k = Some (slot q k)" and "h (slot q k) = Some n"
    and "prio h (slot q k) = pri_at q h i mv k"
    and "hole_inv (q\<lparr>q_d := (q_d q)[i := Some (slot q k)]\<rparr>) (h(slot q k \<mapsto> n\<lparr>n_pos := i\<rparr>)) k mv"
    and "placed (q\<lparr>q_d := (q_d q)[i := Some (slot q k)]\<rparr>) k mv =
           (placed q i mv)(i := placed q i mv k, k := placed q i mv i)"
    and "same_nodes h (h(slot q k \<mapsto> n\<lparr>n_pos := i\<rparr>))"
proof -
  let ?q = "q\<lparr>q_d := (q_d q)[i := Some (slot q k)]\<rparr>"
  have sh: "pq_shape q" and i: "1 \<le> i" "i < q_size q" and mv: "h mv \<noteq> None"
    and others: "\<And>j. 1 \<le> j \<Longrightarrow> j < q_size q \<Longrightarrow> j \<noteq> i \<Longrightarrow> slot_ok q h j \<and> slot q j \<noteq> mv"
    using inv by (auto simp: hole_inv_def)
  from others [OF k] obtain n where d: "q_d q ! k = Some (slot q k)" and n: "h (slot q k) = Some n"
      "n_pos n = k" and mvk: "slot q k \<noteq> mv"
    by (auto elim: slot_okD)
  let ?h = "h(slot q k \<mapsto> n\<lparr>n_pos := i\<rparr>)"
  have len: "i < length (q_d q)" using sh i by (simp add: shape_bounds)
  have slot': "slot ?q = (slot q)(i := slot q k)"
    by (rule ext) (use len in \<open>simp add: slot_def nth_list_update\<close>)
  have "slot_ok ?q ?h j \<and> slot ?q j \<noteq> mv" if j: "1 \<le> j" "j < q_size q" "j \<noteq> k" for j
  proof (cases "j = i")
    case True
    with len mvk show ?thesis by (simp add: slot_ok_def slot')
  next
    case False
    with others j have "slot_ok q h j" and ne: "slot q j \<noteq> mv" by auto
    then obtain m where m: "q_d q ! j = Some (slot q j)" "h (slot q j) = Some m" "n_pos m = j"
      by (elim slot_okD)
    with n j have "slot q j \<noteq> slot q k" by auto
    with m ne False show ?thesis by (simp add: slot_ok_def slot')
  qed
  with sh k mv have "hole_inv ?q ?h k mv" by (auto simp: hole_inv_def)
  moreover have "placed ?q k mv = (placed q i mv)(i := placed q i mv k, k := placed q i mv i)"
    using k by (auto simp: placed_def slot')
  moreover have "prio h (slot q k) = pri_at q h i mv k" using k by (simp add: pri_at_def placed_def)
  ultimately show thesis using d n by (intro that) (auto intro: same_nodes_upd)
qed

text \<open>What one of the two loops leaves unchanged when it moves the hole from i to k.\<close>

definition hole_frame :: "node_t pqueue_t \<Rightarrow> node_t nheap \<Rightarrow> nat \<Rightarrow> node_t pqueue_t \<Rightarrow> node_t nheap \<Rightarrow> nat \<Rightarrow> nptr \<Rightarrow> bool" where
  "hole_frame q h i q' h' k mv \<longleftrightarrow> hole_inv q' h' k mv \<and> q\<lparr>q_d := q_d q'\<rparr> = q' \<and> same_nodes h h' \<and>
     placed q' k mv ` {1..<q_size q} = placed q i mv ` {1..<q_size q}"

lemma hole_frame_refl: "hole_inv q h i mv \<Longrightarrow> hole_frame q h i q h i mv"
  by (simp add: hole_frame_def)

lemma hole_frame_step:
  assumes "hole_frame (q\<lparr>q_d := xs\<rparr>) h1 k q' h' k' mv" and "same_nodes h h1"
    and "placed (q\<lparr>q_d := xs\<rparr>) k mv = (placed q i mv)(i := placed q i mv k, k := placed q i mv i)"
    and "i \<in> {1..<q_size q}" and "k \<in> {1..<q_size q}"
  shows "hole_frame q h i q' h' k' mv"
  using assms image_exchange [of i "{1..<q_size q}" k "placed q i mv"]
  by (auto simp: hole_frame_def intro: same_nodes_trans)

lemma pri_at_exchange:
  assumes "placed q' k mv = (placed q i mv)(i := placed q i mv k, k := placed q i mv i)"
    and "same_nodes h h'"
  shows "pri_at q' h' k mv = (pri_at q h i mv)(i := pri_at q h i mv k, k := pri_at q h i mv i)"
  by (rule ext) (simp add: pri_at_def assms(1) same_nodes_prio [OF assms(2)])

text \<open>The body of both loops: reading slot k, and moving its node into the hole.\<close>

lemma hole_read:
  assumes inv: "hole_inv q h i mv" and k: "1 \<le> k" "k < q_size q" "k \<noteq> i"
  shows "arr_get (q_d q) k = Some (slot q k)" and "call_getpri q h (slot q k) = Some (pri_at q h i mv k)"
proof -
  have sh: "pq_shape q" using inv by (simp add: hole_inv_def)
  obtain n where n: "q_d q ! k = Some (slot q k)" "h (slot q k) = Some n"
    using inv k by (auto simp: hole_inv_def elim!: slot_okD)
  then show "arr_get (q_d q) k = Some (slot q k)" using k by (simp add: arr_simps shape_bounds [OF sh])
  show "call_getpri q h (slot q k) = Some (pri_at q h i mv k)"
    using n k by (simp add: call_getpri_std shape_bounds [OF sh] pri_at_def placed_def prio_def)
qed

lemma hole_shift:
  assumes inv: "hole_inv q h i mv" and k: "1 \<le> k" "k < q_size q" "k \<noteq> i"
  obtains d h1 where "arr_set (q_d q) i (slot q k) = Some d" and "call_setpos q h (slot q k) i = Some h1"
    and "hole_inv (q\<lparr>q_d := d\<rparr>) h1 k mv" and "prio h1 mv = prio h mv"
    and "pri_at (q\<lparr>q_d := d\<rparr>) h1 k mv = (pri_at q h i mv)(i := pri_at q h i mv k, k := pri_at q h i mv i)"
    and "\<And>q' h' k'. hole_frame (q\<lparr>q_d := d\<rparr>) h1 k q' h' k' mv \<Longrightarrow> hole_frame q h i q' h' k' mv"
proof -
  have sh: "pq_shape q" and i: "1 \<le> i" "i < q_size q" using inv by (auto simp: hole_inv_def)
  let ?d = "(q_d q)[i := Some (slot q k)]"
  obtain n where n: "h (slot q k) = Some n" and inv': "hole_inv (q\<lparr>q_d := ?d\<rparr>) (h(slot q k \<mapsto> n\<lparr>n_pos := i\<rparr>)) k mv"
    and pl: "placed (q\<lparr>q_d := ?d\<rparr>) k mv = (placed q i mv)(i := placed q i mv k, k := placed q i mv i)"
    and same: "same_nodes h (h(slot q k \<mapsto> n\<lparr>n_pos := i\<rparr>))"
    using hole_move [OF inv k] by blast
  show thesis
  proof (rule that [OF _ _ inv' same_nodes_prio [OF same] pri_at_exchange [OF pl same]])
    show "arr_set (q_d q) i (slot q k) = Some ?d" using i by (simp add: arr_simps shape_bounds [OF sh])
    show "call_setpos q h (slot q k) i = Some (h(slot q k \<mapsto> n\<lparr>n_pos := i\<rparr>))"
      using shape_bounds(1) [OF sh] n by (rule call_setpos_std)
  qed (rule hole_frame_step [OF _ same pl], use i k in auto)
qed

section \<open>bubble-up\<close>

lemma bubble_up_loop_correct:
  assumes "hole_inv q h i mv" and "swim_ok (q_cmppri q) (pri_at q h i mv) (q_size q) i"
    and "moving_pri = prio h mv"
  shows "\<exists>q' h' k. bubble_up_loop q h moving_pri i = Some (q', h', k) \<and> hole_frame q h i q' h' k mv \<and>
    heap_ok (q_cmppri q) (pri_at q' h' k mv) (q_size q)"
  using assms
proof (induction q h moving_pri i rule: bubble_up_loop.induct)
  case (1 q h moving_pri i)
  note inv = "1.prems"(1) and swim = "1.prems"(2) and mp = "1.prems"(3)
  have sh: "pq_shape q" and ib: "1 \<le> i" "i < q_size q" using inv by (auto simp: hole_inv_def)
  note ord = shape_bounds(4) [OF sh]
  show ?case
  proof (cases "1 < i")
    case False
    then have "bubble_up_loop q h moving_pri i = Some (q, h, i)" by (simp add: bubble_up_loop.simps)
    with False swim inv show ?thesis
      by (auto intro: hole_frame_refl pri_order.swim_done_root [OF ord])
  next
    case True
    let ?k = "parent i"
    have k: "1 \<le> ?k" "?k < q_size q" "?k \<noteq> i" using True ib by (auto simp: parent_def)
    note get = hole_read(1) [OF inv k] and gp = hole_read(2) [OF inv k]
    note step = bubble_up_loop.simps [of q h moving_pri i]
    show ?thesis
    proof (cases "q_cmppri q (pri_at q h i mv ?k) moving_pri")
      case False
      then have "bubble_up_loop q h moving_pri i = Some (q, h, i)" by (simp add: step True get gp)
      with False swim inv mp show ?thesis
        by (auto simp: parent_def pri_at_moving intro: hole_frame_refl pri_order.swim_done [OF ord])
    next
      case above: True
      obtain d h1 where set: "arr_set (q_d q) i (slot q ?k) = Some d" and sp: "call_setpos q h (slot q ?k) i = Some h1"
        and inv': "hole_inv (q\<lparr>q_d := d\<rparr>) h1 ?k mv" and mp': "prio h1 mv = prio h mv"
        and ex: "pri_at (q\<lparr>q_d := d\<rparr>) h1 ?k mv = (pri_at q h i mv)(i := pri_at q h i mv ?k, ?k := pri_at q h i mv i)"
        and fr: "\<And>q' h' k'. hole_frame (q\<lparr>q_d := d\<rparr>) h1 ?k q' h' k' mv \<Longrightarrow> hole_frame q h i q' h' k' mv"
        using hole_shift [OF inv k] by blast
      have eq: "bubble_up_loop q h moving_pri i = bubble_up_loop (q\<lparr>q_d := d\<rparr>) h1 moving_pri ?k"
        using True by (simp add: step get gp above set sp)
      have "swim_ok (q_cmppri q) (pri_at (q\<lparr>q_d := d\<rparr>) h1 ?k mv) (q_size q) ?k"
        unfolding ex unfolding parent_def
        by (rule pri_order.swim_step [OF ord swim True ib(2)])
          (use above mp in \<open>simp add: pri_at_moving parent_def\<close>)
      with "1.IH" [OF True get gp above set sp inv'] mp mp' eq fr show ?thesis by auto
    qed
  qed
qed

text \<open>Writing the moving node into the hole ends both operations.\<close>

lemma hole_fill:
  assumes inv: "hole_inv q h k mv" and n: "h mv = Some n"
  shows "pq_inv (q\<lparr>q_d := (q_d q)[k := Some mv]\<rparr>) (h(mv \<mapsto> n\<lparr>n_pos := k\<rparr>))"
    and "slot (q\<lparr>q_d := (q_d q)[k := Some mv]\<rparr>) = placed q k mv"
proof -
  have sh: "pq_shape q" and k: "1 \<le> k" "k < q_size q"
    and others: "\<And>j. 1 \<le> j \<Longrightarrow> j < q_size q \<Longrightarrow> j \<noteq> k \<Longrightarrow> slot_ok q h j \<and> slot q j \<noteq> mv"
    using inv by (auto simp: hole_inv_def)
  have len: "k < length (q_d q)" using sh k by (simp add: shape_bounds)
  then show "slot (q\<lparr>q_d := (q_d q)[k := Some mv]\<rparr>) = placed q k mv"
    by (intro ext) (simp add: slot_def placed_def nth_list_update)
  have "slot_ok (q\<lparr>q_d := (q_d q)[k := Some mv]\<rparr>) (h(mv \<mapsto> n\<lparr>n_pos := k\<rparr>)) j"
    if "1 \<le> j" "j < q_size q" for j
  proof (cases "j = k")
    case True
    with len show ?thesis by (simp add: slot_ok_def)
  next
    case False
    note oj = others [OF that False]
    then obtain m where "q_d q ! j = Some (slot q j)" "h (slot q j) = Some m" "n_pos m = j" "slot q j \<noteq> mv"
      by (auto elim: slot_okD)
    with False show ?thesis by (simp add: slot_ok_def)
  qed
  with sh show "pq_inv (q\<lparr>q_d := (q_d q)[k := Some mv]\<rparr>) (h(mv \<mapsto> n\<lparr>n_pos := k\<rparr>))"
    by (simp add: pq_inv_def)
qed

text \<open>
  The contract of both operations: the result is a valid queue, which holds the nodes the
  array held with the moving node in place; nothing else of the queue and of the nodes
  changes.
\<close>

definition sift_post :: "node_t pqueue_t \<Rightarrow> node_t nheap \<Rightarrow> nat \<Rightarrow> nptr \<Rightarrow> node_t pqueue_t \<Rightarrow> node_t nheap \<Rightarrow> bool" where
  "sift_post q h i mv q' h' \<longleftrightarrow> pq_valid q' h' \<and> q\<lparr>q_d := q_d q'\<rparr> = q' \<and> same_nodes h h' \<and>
     pq_ptrs q' = placed q i mv ` {1..<q_size q}"

lemma hole_finish:
  assumes fr: "hole_frame q h i q1 h1 k mv" and ok: "heap_ok (q_cmppri q) (pri_at q1 h1 k mv) (q_size q)"
  shows "\<exists>d' h'. arr_set (q_d q1) k mv = Some d' \<and> call_setpos q1 h1 mv k = Some h' \<and>
    sift_post q h i mv (q1\<lparr>q_d := d'\<rparr>) h'"
proof -
  have inv: "hole_inv q1 h1 k mv" and same: "same_nodes h h1" and q1: "q\<lparr>q_d := q_d q1\<rparr> = q1"
    and im: "placed q1 k mv ` {1..<q_size q} = placed q i mv ` {1..<q_size q}"
    using fr by (auto simp: hole_frame_def)
  have size: "q_size q1 = q_size q" "q_cmppri q1 = q_cmppri q"
    using arg_cong [OF q1, of q_size] arg_cong [OF q1, of q_cmppri] by simp_all
  obtain n where n: "h1 mv = Some n" using inv by (auto simp: hole_inv_def)
  have sh: "pq_shape q1" and k: "k < q_size q1" using inv by (auto simp: hole_inv_def)
  let ?q = "q1\<lparr>q_d := (q_d q1)[k := Some mv]\<rparr>" and ?h = "h1(mv \<mapsto> n\<lparr>n_pos := k\<rparr>)"
  note fill = hole_fill [OF inv n]
  have upd: "same_nodes h1 ?h" using n by (rule same_nodes_upd)
  have "pq_order ?q ?h"
    using ok size by (simp add: pq_order_def fill(2) pri_at_def [abs_def] same_nodes_prio [OF upd])
  moreover have "q\<lparr>q_d := q_d ?q\<rparr> = ?q" using arg_cong [OF q1, of "\<lambda>x. x\<lparr>q_d := q_d ?q\<rparr>"] by simp
  moreover have "same_nodes h ?h" using same upd by (rule same_nodes_trans)
  moreover have "pq_ptrs ?q = placed q i mv ` {1..<q_size q}"
    using im size by (simp add: pq_ptrs_def fill(2))
  ultimately have "sift_post q h i mv ?q ?h" using fill(1) by (simp add: sift_post_def pq_valid_def)
  moreover have "call_setpos q1 h1 mv k = Some ?h" using shape_bounds(1) [OF sh] n by (rule call_setpos_std)
  ultimately show ?thesis using arr_set_in [OF shape_bounds(2) [OF sh k]] by auto
qed

lemma bubble_up_correct:
  assumes inv: "hole_inv q h i mv" and at: "q_d q ! i = Some mv"
    and swim: "swim_ok (q_cmppri q) (pri_at q h i mv) (q_size q) i"
  shows "\<exists>q' h'. bubble_up q h i = Some (q', h') \<and> sift_post q h i mv q' h'"
proof -
  have sh: "pq_shape q" and i: "i < q_size q" using inv by (auto simp: hole_inv_def)
  obtain n where n: "h mv = Some n" using inv by (auto simp: hole_inv_def)
  have get: "arr_get (q_d q) i = Some mv" using at i by (simp add: arr_simps shape_bounds [OF sh])
  have gp: "call_getpri q h mv = Some (prio h mv)"
    using n by (simp add: call_getpri_std shape_bounds(1) [OF sh] prio_def)
  obtain q1 h1 k where loop: "bubble_up_loop q h (prio h mv) i = Some (q1, h1, k)"
    and fr: "hole_frame q h i q1 h1 k mv" and ok: "heap_ok (q_cmppri q) (pri_at q1 h1 k mv) (q_size q)"
    using bubble_up_loop_correct [OF inv swim refl] by blast
  show ?thesis
    using hole_finish [OF fr ok] by (auto simp: bubble_up_def get gp loop)
qed

section \<open>percolate-down\<close>

text \<open>\<open>maxchild\<close> returns a child that no other child may precede, or 0 at a leaf.\<close>

lemma maxchild_correct:
  assumes inv: "hole_inv q h i mv"
  shows "\<exists>c. maxchild q h i = Some c \<and>
    (if c = 0 then \<forall>j. 2 \<le> j \<and> j < q_size q \<longrightarrow> j div 2 \<noteq> i
     else c < q_size q \<and> c div 2 = i \<and> 2 \<le> c \<and>
       (\<forall>j. 2 \<le> j \<and> j < q_size q \<and> j div 2 = i \<longrightarrow> \<not> q_cmppri q (pri_at q h i mv c) (pri_at q h i mv j)))"
proof -
  have sh: "pq_shape q" and i: "1 \<le> i" "i < q_size q" using inv by (auto simp: hole_inv_def)
  note ord = shape_bounds(4) [OF sh]
  have kids: "j = 2 * i \<or> j = 2 * i + 1" if "j div 2 = i" for j using that by auto
  consider (leaf) "q_size q \<le> 2 * i" | (one) "2 * i < q_size q" "q_size q \<le> 2 * i + 1"
    | (two) "2 * i + 1 < q_size q" by linarith
  then show ?thesis
  proof cases
    case leaf
    then show ?thesis by (auto simp: maxchild_def left_def)
  next
    case one
    then have "maxchild q h i = Some (2 * i)" by (simp add: maxchild_def left_def)
    moreover have "\<not> q_cmppri q (pri_at q h i mv (2 * i)) (pri_at q h i mv j)"
      if "j < q_size q" "j div 2 = i" for j
    proof -
      have "j = 2 * i" using kids [OF that(2)] one that(1) by linarith
      then show ?thesis by (simp only: pri_order.irrefl [OF ord]) simp
    qed
    ultimately show ?thesis using one i by (intro exI [of _ "2 * i"]) simp
  next
    case two
    then have c: "1 \<le> 2 * i" "2 * i < q_size q" "2 * i \<noteq> i" "1 \<le> Suc (2 * i)" "Suc (2 * i) < q_size q" "Suc (2 * i) \<noteq> i"
      using i by auto
    note read = hole_read [OF inv c(1-3)] hole_read [OF inv c(4-6)]
    let ?c = "if q_cmppri q (pri_at q h i mv (2 * i)) (pri_at q h i mv (Suc (2 * i))) then Suc (2 * i) else 2 * i"
    have "maxchild q h i = Some ?c" using two by (simp add: maxchild_def left_def read)
    moreover have "\<not> q_cmppri q (pri_at q h i mv ?c) (pri_at q h i mv j)" if "j div 2 = i" for j
      using kids [OF that] by (auto simp: pri_order.irrefl [OF ord] pri_order.asym [OF ord])
    ultimately show ?thesis using two i by (auto simp del: if_split)
  qed
qed

lemma percolate_down_loop_correct:
  assumes "hole_inv q h i mv" and "sink_ok (q_cmppri q) (pri_at q h i mv) (q_size q) i"
    and "moving_pri = prio h mv"
  shows "\<exists>q' h' k. percolate_down_loop q h moving_pri i = Some (q', h', k) \<and> hole_frame q h i q' h' k mv \<and>
    heap_ok (q_cmppri q) (pri_at q' h' k mv) (q_size q)"
  using assms
proof (induction q h moving_pri i rule: percolate_down_loop.induct)
  case (1 q h moving_pri i)
  note inv = "1.prems"(1) and sink = "1.prems"(2) and mp = "1.prems"(3)
  have sh: "pq_shape q" and ib: "1 \<le> i" "i < q_size q" using inv by (auto simp: hole_inv_def)
  note ord = shape_bounds(4) [OF sh]
  note step = percolate_down_loop.simps [of q h moving_pri i]
  obtain c where mc: "maxchild q h i = Some c"
    and cc: "if c = 0 then \<forall>j. 2 \<le> j \<and> j < q_size q \<longrightarrow> j div 2 \<noteq> i
     else c < q_size q \<and> c div 2 = i \<and> 2 \<le> c \<and>
       (\<forall>j. 2 \<le> j \<and> j < q_size q \<and> j div 2 = i \<longrightarrow> \<not> q_cmppri q (pri_at q h i mv c) (pri_at q h i mv j))"
    using maxchild_correct [OF inv] by blast
  show ?case
  proof (cases "c = 0")
    case True
    then have "percolate_down_loop q h moving_pri i = Some (q, h, i)" by (simp add: step mc)
    moreover have "heap_ok (q_cmppri q) (pri_at q h i mv) (q_size q)"
      by (rule pri_order.sink_done [OF ord sink]) (use cc True in simp)
    ultimately show ?thesis using inv by (auto intro: hole_frame_refl)
  next
    case False
    with cc have c: "c < q_size q" "c div 2 = i" "2 \<le> c" "1 \<le> c" "c \<noteq> i"
      and best: "\<And>j. 2 \<le> j \<Longrightarrow> j < q_size q \<Longrightarrow> j div 2 = i \<Longrightarrow>
        \<not> q_cmppri q (pri_at q h i mv c) (pri_at q h i mv j)"
      using ib by auto
    note get = hole_read(1) [OF inv c(4,1,5)] and gp = hole_read(2) [OF inv c(4,1,5)]
    show ?thesis
    proof (cases "q_cmppri q moving_pri (pri_at q h i mv c)")
      case stop: False
      then have "percolate_down_loop q h moving_pri i = Some (q, h, i)" by (simp add: step mc False get gp)
      moreover have "heap_ok (q_cmppri q) (pri_at q h i mv) (q_size q)"
        by (rule pri_order.sink_done [OF ord sink], rule pri_order.neg_trans [OF ord _ best])
          (use stop mp in \<open>simp_all add: pri_at_moving\<close>)
      ultimately show ?thesis using inv by (auto intro: hole_frame_refl)
    next
      case below: True
      obtain d h1 where set: "arr_set (q_d q) i (slot q c) = Some d" and sp: "call_setpos q h (slot q c) i = Some h1"
        and inv': "hole_inv (q\<lparr>q_d := d\<rparr>) h1 c mv" and mp': "prio h1 mv = prio h mv"
        and ex: "pri_at (q\<lparr>q_d := d\<rparr>) h1 c mv = (pri_at q h i mv)(i := pri_at q h i mv c, c := pri_at q h i mv i)"
        and fr: "\<And>q' h' k'. hole_frame (q\<lparr>q_d := d\<rparr>) h1 c q' h' k' mv \<Longrightarrow> hole_frame q h i q' h' k' mv"
        using hole_shift [OF inv c(4,1,5)] by blast
      have eq: "percolate_down_loop q h moving_pri i = percolate_down_loop (q\<lparr>q_d := d\<rparr>) h1 moving_pri c"
        by (simp add: step mc False get gp below set sp)
      have "sink_ok (q_cmppri q) (pri_at (q\<lparr>q_d := d\<rparr>) h1 c mv) (q_size q) c"
        unfolding ex by (rule pri_order.sink_step [OF ord sink ib(1) c(1-3) _ best])
          (use below mp in \<open>simp_all add: pri_at_moving\<close>)
      with "1.IH" [OF mc False get gp below set sp inv'] mp mp' eq fr show ?thesis by auto
    qed
  qed
qed

lemma percolate_down_correct:
  assumes inv: "hole_inv q h i mv" and at: "q_d q ! i = Some mv"
    and sink: "sink_ok (q_cmppri q) (pri_at q h i mv) (q_size q) i"
  shows "\<exists>q' h'. percolate_down q h i = Some (q', h') \<and> sift_post q h i mv q' h'"
proof -
  have sh: "pq_shape q" and i: "i < q_size q" using inv by (auto simp: hole_inv_def)
  obtain n where n: "h mv = Some n" using inv by (auto simp: hole_inv_def)
  have get: "arr_get (q_d q) i = Some mv" using at i by (simp add: arr_simps shape_bounds [OF sh])
  have gp: "call_getpri q h mv = Some (prio h mv)"
    using n by (simp add: call_getpri_std shape_bounds(1) [OF sh] prio_def)
  obtain q1 h1 k where loop: "percolate_down_loop q h (prio h mv) i = Some (q1, h1, k)"
    and fr: "hole_frame q h i q1 h1 k mv" and ok: "heap_ok (q_cmppri q) (pri_at q1 h1 k mv) (q_size q)"
    using percolate_down_loop_correct [OF inv sink refl] by blast
  show ?thesis
    using hole_finish [OF fr ok] by (auto simp: percolate_down_def get gp loop)
qed

text \<open>At a slot past the end, \<open>percolate_down\<close> rewrites that slot and its node's position only.\<close>

lemma percolate_down_past_end:
  assumes "std_callbacks q" "q_size q \<le> i" "i < length (q_d q)" "q_d q ! i = Some p" "h p = Some n"
  shows "percolate_down q h i = Some (q, h(p \<mapsto> n\<lparr>n_pos := i\<rparr>))"
proof -
  have "maxchild q h i = Some 0" using assms(2) by (simp add: maxchild_def left_def)
  moreover have "(q_d q)[i := Some p] = q_d q" using assms(4) list_update_id [of "q_d q" i] by simp
  ultimately show ?thesis
    using assms by (simp add: percolate_down_def percolate_down_loop.simps arr_simps pq_calls)
qed

section \<open>The queue operations\<close>

text \<open>What an operation keeps of the queue record: callbacks and growth step.\<close>

definition same_config :: "node_t pqueue_t \<Rightarrow> node_t pqueue_t \<Rightarrow> bool" where
  "same_config q q' \<longleftrightarrow> q_cmppri q' = q_cmppri q \<and> q_step q' = q_step q"

lemma sift_post_config:
  "sift_post q h i mv q' h' \<Longrightarrow> q_size q' = q_size q \<and> q_avail q' = q_avail q \<and> same_config q q'"
  unfolding sift_post_def same_config_def by (metis pqueue_t.select_convs pqueue_t.surjective pqueue_t.update_convs(9))

lemma size_dec_pos [simp]: "1 \<le> n \<Longrightarrow> n < 2 ^ 64 \<Longrightarrow> size_dec n = n - 1"
proof -
  assume "1 \<le> n" "n < 2 ^ 64"
  then have "n + (2 ^ 64 - 1) = (n - 1) + 2 ^ 64" by simp
  then have "size_dec n = (n - 1) mod 2 ^ 64" by (simp only: size_dec_def sz_def mod_add_self2)
  with \<open>n < 2 ^ 64\<close> show ?thesis by simp
qed

lemma pqueue_size_valid: "pq_inv q h \<Longrightarrow> pqueue_size q = card (pq_ptrs q)"
  using card_pq_ptrs [of q h] size_dec_pos [of "q_size q"]
  by (simp add: pqueue_size_def size_dec_def pq_inv_def pq_shape_def)

text \<open>Room for a further element, at the current capacity or by growing.\<close>

definition pq_room :: "bool \<Rightarrow> node_t pqueue_t \<Rightarrow> bool" where
  "pq_room realloc_ok q \<longleftrightarrow> q_size q < q_avail q \<or> realloc_ok \<and> q_size q + q_step q < 2 ^ 61"

definition pq_grown :: "node_t pqueue_t \<Rightarrow> node_t pqueue_t" where
  "pq_grown q = (if q_size q \<ge> q_avail q
     then q\<lparr>q_d := arr_realloc (q_d q) (sz (8 * sz (q_size q + q_step q)) div 8),
            q_avail := sz (q_size q + q_step q)\<rparr>
     else q)"

lemma pq_grown_props:
  assumes "pq_valid q h" and "pq_room r q"
  shows "pq_valid (pq_grown q) h" and "q_size (pq_grown q) = q_size q"
    and "q_size q < q_avail (pq_grown q)" and "pq_ptrs (pq_grown q) = pq_ptrs q"
    and "same_config q (pq_grown q)"
proof -
  have sh: "pq_shape q" using assms by (simp add: pq_valid_def pq_inv_def)
  show size: "q_size (pq_grown q) = q_size q" by (simp add: pq_grown_def)
  show cfg: "same_config q (pq_grown q)" by (simp add: pq_grown_def same_config_def)
  show room: "q_size q < q_avail (pq_grown q)"
    using assms(2) sh by (auto simp: pq_grown_def pq_room_def pq_shape_def)
  have slots: "q_d (pq_grown q) ! j = q_d q ! j" if "j < q_size q" for j
    using that sh assms(2) by (auto simp: pq_grown_def pq_shape_def pq_room_def nth_arr_realloc)
  have sh': "pq_shape (pq_grown q)"
    using sh assms(2) room by (auto simp: pq_grown_def pq_shape_def pq_room_def std_callbacks_def)
  have "slot (pq_grown q) j = slot q j" if "j < q_size q" for j
    using slots [OF that] by (simp add: slot_def)
  then show "pq_valid (pq_grown q) h" and "pq_ptrs (pq_grown q) = pq_ptrs q"
    using assms(1) sh' slots size cfg
    by (auto simp: pq_valid_def pq_inv_def pq_order_def pq_ptrs_def slot_ok_def heap_ok_def same_config_def)
qed

lemma insert_hole:
  assumes v: "pq_valid q h" and p: "h p = Some n" "p \<notin> pq_ptrs q" and room: "q_size q < q_avail q"
  defines "q1 \<equiv> q\<lparr>q_size := Suc (q_size q), q_d := (q_d q)[q_size q := Some p]\<rparr>"
  shows "hole_inv q1 h (q_size q) p" and "q_d q1 ! q_size q = Some p"
    and "swim_ok (q_cmppri q1) (pri_at q1 h (q_size q) p) (q_size q1) (q_size q)"
    and "placed q1 (q_size q) p ` {1..<q_size q1} = insert p (pq_ptrs q)"
proof -
  let ?s = "q_size q"
  have sh: "pq_shape q" and slots: "\<And>j. 1 \<le> j \<Longrightarrow> j < ?s \<Longrightarrow> slot_ok q h j"
    and ord: "heap_ok (q_cmppri q) (\<lambda>j. prio h (slot q j)) ?s"
    using v by (auto simp: pq_valid_def pq_inv_def pq_order_def)
  have len: "?s < length (q_d q)" "1 \<le> ?s" using sh room by (auto simp: pq_shape_def)
  show at: "q_d q1 ! ?s = Some p" using len by (simp add: q1_def)
  have slot1: "slot q1 = (slot q)(?s := p)"
    by (rule ext) (use len in \<open>simp add: slot_def q1_def nth_list_update\<close>)
  have "slot_ok q1 h j" if "1 \<le> j" "j < ?s" for j
    using slots [OF that] that by (auto simp: slot_ok_def q1_def)
  moreover have "slot q1 j \<noteq> p" if "1 \<le> j" "j < ?s" for j
    using p(2) that by (auto simp: slot1 pq_ptrs_def)
  moreover have "pq_shape q1"
    using sh room by (simp add: q1_def pq_shape_def std_callbacks_def)
  ultimately show "hole_inv q1 h ?s p" using p(1) len by (auto simp: hole_inv_def q1_def)
  have pl: "placed q1 ?s p = (slot q)(?s := p)" by (simp add: placed_def slot1)
  have "pri_at q1 h ?s p = (\<lambda>j. prio h (slot q j))(?s := prio h p)"
    by (rule ext) (simp add: pri_at_def pl)
  then show "swim_ok (q_cmppri q1) (pri_at q1 h ?s p) (q_size q1) ?s"
    using pri_order.heap_ok_append [OF shape_bounds(4) [OF sh] ord] by (simp add: q1_def)
  have "{1..<q_size q1} = insert ?s {1..<?s}" using len by (auto simp: q1_def)
  then show "placed q1 ?s p ` {1..<q_size q1} = insert p (pq_ptrs q)"
    using len by (auto simp: pl pq_ptrs_def image_iff)
qed

text \<open>Inserting: the queue stays valid and gains exactly the node.\<close>

lemma pqueue_insert_correct:
  assumes v: "pq_valid q h" and p: "h p = Some n" "p \<notin> pq_ptrs q" and room: "pq_room r q"
  shows "\<exists>q' h'. pqueue_insert r (Ref q) h p = Some (0, Ref q', h') \<and> pq_valid q' h' \<and>
    pq_ptrs q' = insert p (pq_ptrs q) \<and> q_size q' = Suc (q_size q) \<and> same_nodes h h' \<and> same_config q q'"
proof -
  note g = pq_grown_props [OF v room]
  let ?g = "pq_grown q"
  let ?q1 = "?g\<lparr>q_size := Suc (q_size ?g), q_d := (q_d ?g)[q_size ?g := Some p]\<rparr>"
  have p': "p \<notin> pq_ptrs ?g" and room': "q_size ?g < q_avail ?g" using p g by simp_all
  note hole = insert_hole [OF g(1) p(1) p' room']
  obtain q' h' where b: "bubble_up ?q1 h (q_size ?g) = Some (q', h')"
    and post: "sift_post ?q1 h (q_size ?g) p q' h'"
    using bubble_up_correct [OF hole(1,2,3)] by blast
  have sh: "pq_shape ?g" using g(1) by (simp add: pq_valid_def pq_inv_def)
  then have set: "arr_set (q_d ?g) (q_size ?g) p = Some ((q_d ?g)[q_size ?g := Some p])"
    and small: "sz (Suc (q_size ?g)) = Suc (q_size ?g)"
    using room' by (auto simp: arr_set_in pq_shape_def)
  have "\<not> (q_size q \<ge> q_avail q \<and> \<not> r)" using room by (auto simp: pq_room_def)
  then have "pqueue_insert r (Ref q) h p = Some (0, Ref q', h')"
    using set b small by (simp add: pqueue_insert_def Let_def pq_grown_def [symmetric] del: sz_small)
  with post hole(4) g sift_post_config [OF post] show ?thesis
    by (auto simp: sift_post_def same_config_def)
qed

text \<open>Taking a node out: the last node fills its slot, and the hole is that slot.\<close>

lemma remove_hole:
  assumes v: "pq_valid q h" and k: "1 \<le> k" "k < q_size q - 1"
  defines "l \<equiv> slot q (q_size q - 1)"
  defines "q1 \<equiv> q\<lparr>q_size := q_size q - 1, q_d := (q_d q)[k := Some l]\<rparr>"
  shows "hole_inv q1 h k l" and "q_d q1 ! k = Some l"
    and "pri_at q1 h k l = (\<lambda>j. prio h (slot q j))(k := prio h l)"
    and "placed q1 k l ` {1..<q_size q1} = pq_ptrs q - {slot q k}"
proof -
  let ?n = "q_size q - 1"
  have inv: "pq_inv q h" and sh: "pq_shape q" and slots: "\<And>j. 1 \<le> j \<Longrightarrow> j < q_size q \<Longrightarrow> slot_ok q h j"
    using v by (auto simp: pq_valid_def pq_inv_def)
  have len: "k < length (q_d q)" using k sh by (auto simp: pq_shape_def)
  note inj = slot_inj [OF inv]
  show at: "q_d q1 ! k = Some l" using len by (simp add: q1_def)
  have slot1: "slot q1 = (slot q)(k := l)"
    by (rule ext) (use len in \<open>simp add: slot_def q1_def nth_list_update\<close>)
  have "slot_ok q1 h j" if "1 \<le> j" "j < ?n" "j \<noteq> k" for j
    using slots [of j] that by (auto simp: slot_ok_def q1_def)
  moreover have "slot q1 j \<noteq> l" if "1 \<le> j" "j < ?n" "j \<noteq> k" for j
  proof -
    have "slot q j \<noteq> slot q ?n" using inj_onD [OF inj, of j ?n] that by fastforce
    with that show ?thesis by (simp add: slot1 l_def)
  qed
  moreover have "pq_shape q1" using sh k by (auto simp: q1_def pq_shape_def std_callbacks_def)
  moreover have "h l \<noteq> None" using slots [of ?n] k by (auto simp: l_def elim!: slot_okD)
  ultimately show "hole_inv q1 h k l" using k by (auto simp: hole_inv_def q1_def)
  have pl: "placed q1 k l = (slot q)(k := l)" by (simp add: placed_def slot1)
  then show "pri_at q1 h k l = (\<lambda>j. prio h (slot q j))(k := prio h l)"
    by (intro ext) (simp add: pri_at_def)
  have "placed q1 k l ` {1..<?n} = slot q ` ({1..<q_size q} - {k})"
  proof -
    have "{1..<?n} = insert k ({1..<?n} - {k})" "{1..<q_size q} - {k} = insert ?n ({1..<?n} - {k})"
      using k by auto
    moreover have "(slot q)(k := l) ` ({1..<?n} - {k}) = slot q ` ({1..<?n} - {k})"
      by (rule image_cong) auto
    ultimately show ?thesis by (metis fun_upd_same image_insert l_def pl)
  qed
  also have "\<dots> = pq_ptrs q - {slot q k}"
    unfolding pq_ptrs_def using k by (subst inj_on_image_set_diff [OF inj]) auto
  finally show "placed q1 k l ` {1..<q_size q1} = pq_ptrs q - {slot q k}" by (simp add: q1_def)
qed

lemma remove_last:
  assumes v: "pq_valid q h" and size: "1 < q_size q"
  defines "n \<equiv> q_size q - 1"
  shows "\<exists>h'. percolate_down (q\<lparr>q_size := n, q_d := (q_d q)[n := Some (slot q n)]\<rparr>) h n =
      Some (q\<lparr>q_size := n\<rparr>, h') \<and> pq_valid (q\<lparr>q_size := n\<rparr>) h' \<and> same_nodes h h' \<and>
    pq_ptrs (q\<lparr>q_size := n\<rparr>) = pq_ptrs q - {slot q n}"
proof -
  let ?q = "q\<lparr>q_size := n\<rparr>"
  have inv: "pq_inv q h" and sh: "pq_shape q" and slots: "\<And>j. 1 \<le> j \<Longrightarrow> j < q_size q \<Longrightarrow> slot_ok q h j"
    and ord: "heap_ok (q_cmppri q) (\<lambda>j. prio h (slot q j)) (q_size q)"
    using v by (auto simp: pq_valid_def pq_inv_def pq_order_def)
  have n: "1 \<le> n" "n < q_size q" "n < length (q_d q)" using size sh by (auto simp: n_def pq_shape_def)
  obtain m where d: "q_d q ! n = Some (slot q n)" and m: "h (slot q n) = Some m"
    using slots [OF n(1,2)] by (rule slot_okD)
  let ?h = "h(slot q n \<mapsto> m\<lparr>n_pos := n\<rparr>)"
  have same: "same_nodes h ?h" using m by (rule same_nodes_upd)
  have slot_size: "slot ?q = slot q" by (simp add: slot_def [abs_def])
  have id: "(q_d q)[n := Some (slot q n)] = q_d q" using d list_update_id [of "q_d q" n] by simp
  have "percolate_down ?q h n = Some (?q, ?h)"
    by (rule percolate_down_past_end) (use sh n d m in \<open>auto simp: pq_shape_def\<close>)
  moreover have "slot_ok ?q ?h j" if "1 \<le> j" "j < n" for j
  proof -
    have "slot q j \<noteq> slot q n" using inj_onD [OF slot_inj [OF inv], of j n] that n by auto
    moreover have "slot_ok q h j" using slots [of j] that n by simp
    then obtain mj where "q_d q ! j = Some (slot q j)" "h (slot q j) = Some mj" "n_pos mj = j"
      by (rule slot_okD)
    ultimately show ?thesis by (simp add: slot_ok_def)
  qed
  moreover have "pq_shape ?q" using sh n by (auto simp: pq_shape_def std_callbacks_def)
  moreover have "pq_order ?q ?h"
    using pri_order.heap_ok_shrink [OF shape_bounds(4) [OF sh] ord, of n] n
    by (simp add: pq_order_def same_nodes_prio [OF same] slot_size)
  moreover have "pq_ptrs ?q = pq_ptrs q - {slot q n}"
  proof -
    have "{1..<n} = {1..<q_size q} - {n}" using n by (auto simp: n_def)
    then have "pq_ptrs ?q = slot q ` ({1..<q_size q} - {n})" by (simp add: pq_ptrs_def slot_def)
    then show ?thesis
      unfolding pq_ptrs_def using n by (subst (asm) inj_on_image_set_diff [OF slot_inj [OF inv]]) auto
  qed
  ultimately show ?thesis using same id by (auto simp: pq_valid_def pq_inv_def simp del: fun_upd_apply)
qed

text \<open>Popping: null on the empty queue, otherwise a node no other node may precede.\<close>

lemma pqueue_pop_empty: "q_size q = 1 \<Longrightarrow> pqueue_pop (Ref q) h = Some (Null, Ref q, h)"
  by (simp add: pqueue_pop_def)

lemma pqueue_pop_correct:
  assumes v: "pq_valid q h" and size: "1 < q_size q"
  shows "\<exists>q' h'. pqueue_pop (Ref q) h = Some (Ref (slot q 1), Ref q', h') \<and> pq_valid q' h' \<and>
    pq_ptrs q' = pq_ptrs q - {slot q 1} \<and> q_size q' = q_size q - 1 \<and> q_avail q' = q_avail q \<and>
    same_nodes h h' \<and> same_config q q'"
proof -
  let ?n = "q_size q - 1"
  have inv: "pq_inv q h" and sh: "pq_shape q" and ord: "heap_ok (q_cmppri q) (\<lambda>j. prio h (slot q j)) (q_size q)"
    using v by (auto simp: pq_valid_def pq_inv_def pq_order_def)
  have dec: "size_dec (q_size q) = ?n" using sh size by (simp add: pq_shape_def)
  have get: "arr_get (q_d q) j = Some (slot q j)" if "1 \<le> j" "j < q_size q" for j
    using inv that sh by (auto simp: pq_inv_def arr_get_in shape_bounds elim!: slot_okD)
  have set: "arr_set (q_d q) 1 x = Some ((q_d q)[1 := Some x])" for x
    using sh size by (simp add: arr_set_in shape_bounds)
  let ?l = "slot q ?n"
  let ?q1 = "q\<lparr>q_size := ?n, q_d := (q_d q)[1 := Some ?l]\<rparr>"
  have run: "pqueue_pop (Ref q) h = Some (Ref (slot q 1), Ref q', h')"
    if "percolate_down ?q1 h 1 = Some (q', h')" for q' h'
    using size get [of 1] get [of ?n] that by (simp add: pqueue_pop_def dec set [unfolded One_nat_def])
  show ?thesis
  proof (cases "?n = 1")
    case True
    then show ?thesis
      using remove_last [OF v size] run by (auto simp: same_config_def)
  next
    case False
    then have k: "1 < ?n" using size by linarith
    note hole = remove_hole [OF v order.refl k]
    have root: "\<not> q_cmppri q (prio h (slot q 1)) (prio h ?l)"
      using pri_order.heap_root [OF shape_bounds(4) [OF sh] ord, of ?n] k by simp
    have "sink_ok (q_cmppri q) ((\<lambda>j. prio h (slot q j))(1 := prio h ?l)) ?n 1"
      by (rule pri_order.sink_ok_update [OF shape_bounds(4) [OF sh]
            pri_order.heap_ok_shrink [OF shape_bounds(4) [OF sh] ord]]) (use k root in auto)
    then have "sink_ok (q_cmppri ?q1) (pri_at ?q1 h 1 ?l) (q_size ?q1) 1" unfolding hole(3) by simp
    then obtain q' h' where r: "percolate_down ?q1 h 1 = Some (q', h')" and post: "sift_post ?q1 h 1 ?l q' h'"
      using percolate_down_correct [OF hole(1,2)] by blast
    show ?thesis
      using run [OF r] post hole(4) sift_post_config [OF post]
      by (auto simp: sift_post_def same_config_def)
  qed
qed

text \<open>The popped node may stand above every node of the queue.\<close>

lemma slot_1_min:
  assumes "pq_valid q h" and "p \<in> pq_ptrs q"
  shows "\<not> q_cmppri q (prio h (slot q 1)) (prio h p)" and "slot q 1 \<in> pq_ptrs q"
proof -
  have ord: "heap_ok (q_cmppri q) (\<lambda>j. prio h (slot q j)) (q_size q)" and sh: "pq_shape q"
    using assms by (auto simp: pq_valid_def pq_inv_def pq_order_def)
  from assms(2) obtain j where j: "1 \<le> j" "j < q_size q" "p = slot q j" by (auto simp: pq_ptrs_def)
  show "\<not> q_cmppri q (prio h (slot q 1)) (prio h p)"
    using pri_order.heap_root [OF shape_bounds(4) [OF sh] ord j(1,2)] j(3) by simp
  show "slot q 1 \<in> pq_ptrs q" using j by (auto simp: pq_ptrs_def)
qed

lemma pqueue_peek_correct:
  assumes "pq_valid q h"
  shows "pqueue_peek (Ref q) = Some (if pq_ptrs q = {} then Null else Ref (slot q 1))"
proof -
  have inv: "pq_inv q h" and sh: "pq_shape q" using assms by (auto simp: pq_valid_def pq_inv_def)
  have empty: "pq_ptrs q = {} \<longleftrightarrow> q_size q = 1"
    using card_pq_ptrs [OF inv] sh by (auto simp: pq_shape_def pq_ptrs_def)
  show ?thesis
  proof (cases "q_size q = 1")
    case True
    with empty show ?thesis by (simp add: pqueue_peek_def)
  next
    case False
    then have size: "1 < q_size q" using sh by (simp add: pq_shape_def)
    have "slot_ok q h 1" using inv size by (simp add: pq_inv_def)
    then have "q_d q ! 1 = Some (slot q 1)" by (rule slot_okD)
    moreover have "1 < length (q_d q)" using shape_bounds(2) [OF sh size] .
    ultimately show ?thesis using False empty by (simp add: pqueue_peek_def arr_get_def)
  qed
qed

text \<open>
  A heap g in which slot k gets a new priority v: comparing the old priority with the new one
  tells which of the two operations restores the order.
\<close>

lemma sift_correct:
  assumes inv: "hole_inv q h k mv" and at: "q_d q ! k = Some mv" and heap: "heap_ok (q_cmppri q) g (q_size q)"
    and g: "\<And>j. 1 \<le> j \<Longrightarrow> j < q_size q \<Longrightarrow> pri_at q h k mv j = (g(k := v)) j"
  shows "\<exists>q' h'. (if q_cmppri q (g k) v then bubble_up q h k else percolate_down q h k) = Some (q', h') \<and>
    sift_post q h k mv q' h'"
proof -
  have k: "1 \<le> k" "k < q_size q" and po: "pri_order (q_cmppri q)" using inv by (auto simp: hole_inv_def shape_bounds)
  show ?thesis
  proof (cases "q_cmppri q (g k) v")
    case True
    have "swim_ok (q_cmppri q) (pri_at q h k mv) (q_size q) k"
      by (rule pri_order.swim_ok_cong [OF po pri_order.swim_ok_update [OF po heap k(1)] k g])
        (use True pri_order.asym [OF po] in auto)
    with True bubble_up_correct [OF inv at] show ?thesis by simp
  next
    case False
    have "sink_ok (q_cmppri q) (pri_at q h k mv) (q_size q) k"
      by (rule pri_order.sink_ok_cong [OF po pri_order.sink_ok_update [OF po heap k] k g]) (use False in auto)
    with False percolate_down_correct [OF inv at] show ?thesis by simp
  qed
qed

lemma pqueue_remove_correct:
  assumes v: "pq_valid q h" and p: "p \<in> pq_ptrs q"
  shows "\<exists>q' h'. pqueue_remove q h p = Some (0, q', h') \<and> pq_valid q' h' \<and>
    pq_ptrs q' = pq_ptrs q - {p} \<and> q_size q' = q_size q - 1 \<and> same_nodes h h' \<and> same_config q q'"
proof -
  let ?n = "q_size q - 1"
  have inv: "pq_inv q h" and sh: "pq_shape q" and ord: "heap_ok (q_cmppri q) (\<lambda>j. prio h (slot q j)) (q_size q)"
    using v by (auto simp: pq_valid_def pq_inv_def pq_order_def)
  note po = shape_bounds(4) [OF sh]
  obtain m where m: "h p = Some m" and k: "1 \<le> n_pos m" "n_pos m < q_size q" and at: "slot q (n_pos m) = p"
    using pq_ptrs_node [OF inv p] by blast
  let ?k = "n_pos m" and ?l = "slot q ?n"
  let ?q1 = "q\<lparr>q_size := ?n, q_d := (q_d q)[?k := Some ?l]\<rparr>"
  have size: "1 < q_size q" using k by linarith
  have sl: "slot_ok q h ?n" using inv size by (auto simp: pq_inv_def)
  then obtain ml where dl: "q_d q ! ?n = Some ?l" and ml: "h ?l = Some ml" by (rule slot_okD)
  have cb: "std_callbacks q" and len: "?k < length (q_d q)" "?n < length (q_d q)"
    using sh k size by (auto simp: pq_shape_def)
  have calls: "call_getpri ?q1 h p = Some (prio h p)" "call_getpri ?q1 h ?l = Some (prio h ?l)"
    "call_getpos q h p = Some ?k" "size_dec (q_size q) = ?n"
    using cb m ml sh size by (simp_all add: pq_calls prio_def pq_shape_def)
  have run: "pqueue_remove q h p = Some (0, q', h')"
    if "(if q_cmppri q (prio h p) (prio h ?l) then bubble_up ?q1 h ?k else percolate_down ?q1 h ?k) = Some (q', h')"
    for q' h'
    using that len dl calls
    by (cases "q_cmppri q (prio h p) (prio h ?l)") (simp_all add: pqueue_remove_def arr_simps Let_def)
  show ?thesis
  proof (cases "?k = ?n")
    case True
    then have "\<not> q_cmppri q (prio h p) (prio h ?l)" using at by (simp add: pri_order.irrefl [OF po])
    then show ?thesis
      using remove_last [OF v size] run True at by (auto simp: same_config_def)
  next
    case False
    with k have k': "?k < ?n" by linarith
    note hole = remove_hole [OF v k(1) k']
    have heap: "heap_ok (q_cmppri ?q1) (\<lambda>j. prio h (slot q j)) (q_size ?q1)"
      using pri_order.heap_ok_shrink [OF po ord, of ?n] by simp
    have "\<exists>q' h'. (if q_cmppri q (prio h p) (prio h ?l) then bubble_up ?q1 h ?k
        else percolate_down ?q1 h ?k) = Some (q', h') \<and> sift_post ?q1 h ?k ?l q' h'"
      using sift_correct [OF hole(1,2) heap fun_cong [OF hole(3)]] by (simp add: at)
    then obtain q' h' where r: "(if q_cmppri q (prio h p) (prio h ?l) then bubble_up ?q1 h ?k
        else percolate_down ?q1 h ?k) = Some (q', h')" and post: "sift_post ?q1 h ?k ?l q' h'" by blast
    show ?thesis
      using run [OF r] post hole(4) sift_post_config [OF post] at
      by (auto simp: sift_post_def same_config_def)
  qed
qed

lemma pqueue_change_priority_correct:
  assumes v: "pq_valid q h" and p: "p \<in> pq_ptrs q" "h p = Some m"
  shows "\<exists>q' h'. pqueue_change_priority q h new_pri p = Some (q', h') \<and> pq_valid q' h' \<and>
    pq_ptrs q' = pq_ptrs q \<and> same_nodes (h(p \<mapsto> m\<lparr>n_pri := new_pri\<rparr>)) h' \<and> same_config q q'"
proof -
  have inv: "pq_inv q h" and sh: "pq_shape q" and ord: "heap_ok (q_cmppri q) (\<lambda>j. prio h (slot q j)) (q_size q)"
    using v by (auto simp: pq_valid_def pq_inv_def pq_order_def)
  note po = shape_bounds(4) [OF sh]
  have k: "1 \<le> n_pos m" "n_pos m < q_size q" and at: "slot q (n_pos m) = p"
    using pq_ptrs_node [OF inv p(1)] p(2) by force+
  let ?k = "n_pos m" and ?h = "h(p \<mapsto> m\<lparr>n_pri := new_pri\<rparr>)"
  have cb: "std_callbacks q" using sh by (rule shape_bounds)
  have inj: "slot q j \<noteq> p" if "1 \<le> j" "j < q_size q" "j \<noteq> ?k" for j
    using inj_onD [OF slot_inj [OF inv], of j ?k] that k at by auto
  have ok: "slot_ok q h j" if "1 \<le> j" "j < q_size q" for j using inv that by (simp add: pq_inv_def)
  have dk: "q_d q ! ?k = Some p" using ok [OF k] at by (auto elim: slot_okD)
  have "slot_ok q ?h j \<and> slot q j \<noteq> p" if j: "1 \<le> j" "j < q_size q" "j \<noteq> ?k" for j
  proof -
    obtain mj where "q_d q ! j = Some (slot q j)" "h (slot q j) = Some mj" "n_pos mj = j"
      using ok [OF j(1,2)] by (rule slot_okD)
    with inj [OF j] show ?thesis by (simp add: slot_ok_def)
  qed
  then have hole: "hole_inv q ?h ?k p" using sh k by (auto simp: hole_inv_def)
  have pl: "placed q ?k p = slot q" using at by (auto simp: placed_def)
  define g where "g = (\<lambda>j. prio h (slot q j))"
  have g: "pri_at q ?h ?k p j = (g(?k := new_pri)) j" if "1 \<le> j" "j < q_size q" for j
    using inj [OF that] at by (auto simp: pri_at_def pl prio_def g_def)
  have gk: "g ?k = n_pri m" using at p(2) by (simp add: g_def prio_def)
  have calls: "call_getpri q h p = Some (n_pri m)" "call_setpri q h p new_pri = Some ?h" "call_getpos q ?h p = Some ?k"
    using cb p(2) by (simp_all add: pq_calls call_getpos_def std_callbacks_def get_pos_def)
  have run: "pqueue_change_priority q h new_pri p =
      (if q_cmppri q (n_pri m) new_pri then bubble_up q ?h ?k else percolate_down q ?h ?k)"
    by (simp add: pqueue_change_priority_def calls del: fun_upd_apply)
  have heap: "heap_ok (q_cmppri q) g (q_size q)" using ord by (simp add: g_def)
  have "\<exists>q' h'. (if q_cmppri q (n_pri m) new_pri then bubble_up q ?h ?k else percolate_down q ?h ?k) = Some (q', h')
      \<and> sift_post q ?h ?k p q' h'"
    using sift_correct [OF hole dk heap g] by (simp only: gk)
  then obtain q' h' where "pqueue_change_priority q h new_pri p = Some (q', h')"
    and post: "sift_post q ?h ?k p q' h'"
    using run by auto
  moreover have "pq_valid q' h'" "pq_ptrs q' = pq_ptrs q" "same_nodes ?h h'"
    using post pl by (simp_all only: sift_post_def pq_ptrs_def)
  ultimately show ?thesis using sift_post_config [OF post] by blast
qed

section \<open>Initialisation\<close>

lemma pqueue_init_correct:
  assumes "pri_order cmp" and "n + 1 < 2 ^ 61" and "pqueue_init True True n cmp get_pri set_pri get_pos set_pos = Ref q"
  shows "pq_valid q h" and "pq_ptrs q = {}" and "q_size q = 1" and "q_avail q = n + 1" and "q_step q = n + 1" and "q_cmppri q = cmp"
proof -
  have "sz (n + 1) = n + 1" "sz ((n + 1) * 8) = (n + 1) * 8" using assms(2) by (intro sz_small; simp)+
  then have q: "q = \<lparr>q_size = 1, q_avail = n + 1, q_step = n + 1, q_cmppri = cmp, q_getpri = get_pri, q_setpri = set_pri,
      q_getpos = get_pos, q_setpos = set_pos, q_d = arr_new (n + 1)\<rparr>"
    using assms(3) by (simp add: pqueue_init_def)
  then have "pq_shape q" using assms by (simp add: pq_shape_def std_callbacks_def)
  then show "pq_valid q h" and "pq_ptrs q = {}" by (simp_all add: q pq_valid_def pq_inv_def pq_order_def heap_ok_def pq_ptrs_def)
  show "q_size q = 1" "q_avail q = n + 1" "q_step q = n + 1" "q_cmppri q = cmp" by (simp_all add: q)
qed

end
