(* ===== verification/PQueue_Debug.thy ===== *)
theory PQueue_Debug
  imports PQueue_Correct
begin

text \<open>
  The debugging entry points of \<open>pqueue.c\<close>: the validity check, the dump of the array and
  the print in priority order. Printing is modelled as the list of entries handed to the
  print callback. \<open>pqueue_print\<close> pops a copy of the array that shares the nodes, so its
  effect on the node store is part of the result.
\<close>

section \<open>Operations\<close>

text \<open>
  \<open>pos\<close> is an \<open>int\<close> in the source: the shifts are signed and undefined once they leave the
  32-bit range. A call at 0 would recurse on itself for ever.
\<close>

function subtree_is_valid :: "'n pqueue_t \<Rightarrow> 'n nheap \<Rightarrow> nat \<Rightarrow> bool option" where
  "subtree_is_valid q h pos =
     (if pos = 0 then None
      else do {
        _ \<leftarrow> cint (2 * int pos);
        lok \<leftarrow> (if left pos < q_size q
          then do {
            a \<leftarrow> arr_get (q_d q) pos;
            apri \<leftarrow> call_getpri q h a;
            b \<leftarrow> arr_get (q_d q) (left pos);
            bpri \<leftarrow> call_getpri q h b;
            (if q_cmppri q apri bpri then Some False else subtree_is_valid q h (left pos))
          }
          else Some True);
        (if \<not> lok then Some False
         else do {
           _ \<leftarrow> cint (2 * int pos + 1);
           (if right pos < q_size q
            then do {
              a \<leftarrow> arr_get (q_d q) pos;
              apri \<leftarrow> call_getpri q h a;
              b \<leftarrow> arr_get (q_d q) (right pos);
              bpri \<leftarrow> call_getpri q h b;
              (if q_cmppri q apri bpri then Some False else subtree_is_valid q h (right pos))
            }
            else Some True)
         })
      })"
  by pat_completeness auto
termination
  by (relation "measure (\<lambda>(q, h, pos). q_size q - pos)") (auto simp: left_def right_def)

declare subtree_is_valid.simps [simp del]

definition pqueue_is_valid :: "'n pqueue_t \<Rightarrow> 'n nheap \<Rightarrow> bool option" where
  "pqueue_is_valid q h = subtree_is_valid q h 1"

text \<open>One row of the dump: slot, left, right, parent, maxchild, entry.\<close>

fun dump_rows :: "'n pqueue_t \<Rightarrow> 'n nheap \<Rightarrow> nat list \<Rightarrow> (nat \<times> nat \<times> nat \<times> nat \<times> nat \<times> nptr) list option" where
  "dump_rows q h [] = Some []"
| "dump_rows q h (i # is) = do {
     m \<leftarrow> maxchild q h i;
     e \<leftarrow> arr_get (q_d q) i;
     rows \<leftarrow> dump_rows q h is;
     Some ((i, left i, right i, parent i, m, e) # rows)
   }"

definition pqueue_dump :: "'n pqueue_t \<Rightarrow> 'n nheap \<Rightarrow> (nat \<times> nat \<times> nat \<times> nat \<times> nat \<times> nptr) list option" where
  "pqueue_dump q h = dump_rows q h [1..<q_size q]"

lemma percolate_down_loop_leaf: "q_size q \<le> 2 * i \<Longrightarrow> percolate_down_loop q h m i = Some (q, h, i)"
  by (subst percolate_down_loop.simps) (simp add: maxchild_def left_def Let_def)

lemma percolate_down_leaf:
  "q_size q \<le> 2 * i \<Longrightarrow> percolate_down q h i = do {
     moving_node \<leftarrow> arr_get (q_d q) i;
     _ \<leftarrow> call_getpri q h moving_node;
     d' \<leftarrow> arr_set (q_d q) i moving_node;
     h' \<leftarrow> call_setpos q h moving_node i;
     Some (q\<lparr>q_d := d'\<rparr>, h')
   }"
  by (simp add: percolate_down_def percolate_down_loop_leaf)

lemma percolate_down_loop_size:
  "percolate_down_loop q h m i = Some (q', h', k) \<Longrightarrow> q_size q' = q_size q"
proof (induction q h m i rule: percolate_down_loop.induct)
  case (1 q h m i)
  from "1.prems" show ?case
    by (subst (asm) percolate_down_loop.simps)
      (auto split: Option.bind_splits if_splits dest: "1.IH")
qed

lemma percolate_down_size: "percolate_down q h i = Some (q', h') \<Longrightarrow> q_size q' = q_size q"
  by (clarsimp simp: percolate_down_def split: Option.bind_splits) (drule percolate_down_loop_size, simp)

lemma pqueue_pop_size:
  "pqueue_pop (Ref q) h = Some (Ref p, Ref q', h') \<Longrightarrow> q_size q \<noteq> 1 \<and> q_size q' = size_dec (q_size q)"
  by (auto simp: pqueue_pop_def Let_def split: Option.bind_splits if_splits dest: percolate_down_size)

lemma pqueue_pop_Ref:
  "pqueue_pop qp h = Some (Ref p, qp', h') \<Longrightarrow> \<exists>q q'. qp = Ref q \<and> qp' = Ref q'"
  by (auto simp: pqueue_pop_def Let_def split: ref.splits Option.bind_splits if_splits)

definition pop_rank :: "'n pqueue_t ref \<Rightarrow> nat" where
  "pop_rank qp = (case qp of Null \<Rightarrow> 0 | Ref q \<Rightarrow> if q_size q = 0 then 2 ^ 64 else q_size q)"

lemma pqueue_pop_rank:
  assumes "pqueue_pop qp h = Some (Ref p, qp', h')"
  shows "pop_rank qp' < pop_rank qp"
proof -
  obtain q q' where q: "qp = Ref q" "qp' = Ref q'" using pqueue_pop_Ref [OF assms] by blast
  then have s: "q_size q \<noteq> 1" "q_size q' = size_dec (q_size q)" using pqueue_pop_size assms by blast+
  consider (zero) "q_size q = 0" | (mid) "2 \<le> q_size q" "q_size q < 2 ^ 64" | (big) "2 ^ 64 \<le> q_size q"
    using s(1) by linarith
  then show ?thesis
  proof cases
    case zero
    then have "q_size q' = 2 ^ 64 - 1" using s by (simp add: size_dec_def)
    with zero q show ?thesis by (simp add: pop_rank_def)
  next
    case mid
    then show ?thesis using s q by (simp add: pop_rank_def)
  next
    case big
    have "q_size q' < 2 ^ 64" using s by (simp add: size_dec_def sz_def)
    moreover have "q_size q' \<noteq> 0" if "q_size q = 2 ^ 64" using s that by (simp add: size_dec_def sz_def)
    ultimately show ?thesis using big q by (cases "q_size q = 2 ^ 64") (auto simp: pop_rank_def)
  qed
qed

text \<open>The loop of \<open>pqueue_print\<close>: the entries in the order they are printed.\<close>

function print_loop :: "'n pqueue_t ref \<Rightarrow> 'n nheap \<Rightarrow> (nptr list \<times> 'n nheap) option" where
  "print_loop qp h = do {
     (e, qp', h') \<leftarrow> pqueue_pop qp h;
     (case e of
        Null \<Rightarrow> Some ([], h')
      | Ref p \<Rightarrow> do {
          (ps, h'') \<leftarrow> print_loop qp' h';
          Some (p # ps, h'')
        })
   }"
  by pat_completeness auto
termination
  by (relation "measure (\<lambda>(qp, h). pop_rank qp)") (auto dest: pqueue_pop_rank)

declare print_loop.simps [simp del]

text \<open>
  \<open>pqueue_print\<close>. A null copy is dereferenced, and the copy of the array needs room on both
  sides; the result is the printed entries and the store. The copy gets \<open>set_pri\<close> and \<open>set_pos\<close>
  of \<open>pqueue.c\<close>, not the callbacks of the queue; \<open>print_copy\<close> has them as arguments.
\<close>

definition print_copy :: "('n \<Rightarrow> ulonglong \<Rightarrow> 'n) \<Rightarrow> ('n \<Rightarrow> nat \<Rightarrow> 'n) \<Rightarrow> bool \<Rightarrow> bool \<Rightarrow> 'n pqueue_t \<Rightarrow> 'n nheap \<Rightarrow>
    (nptr list \<times> 'n nheap) option" where
  "print_copy setpri setpos malloc_q malloc_d q h =
     (case pqueue_init malloc_q malloc_d (q_size q) (q_cmppri q) (q_getpri q) setpri (q_getpos q) setpos of
        Null \<Rightarrow> None
      | Ref dup \<Rightarrow>
          if q_size q \<le> length (q_d dup) \<and> q_size q \<le> length (q_d q)
          then do {
            (ps, h') \<leftarrow> print_loop (Ref (dup\<lparr>q_size := q_size q, q_avail := q_avail q, q_step := q_step q,
              q_d := take (q_size q) (q_d q) @ drop (q_size q) (q_d dup)\<rparr>)) h;
            _ \<leftarrow> pqueue_free (Ref dup);
            Some (ps, h')
          }
          else None)"

definition pqueue_print :: "bool \<Rightarrow> bool \<Rightarrow> node_t pqueue_t \<Rightarrow> node_t nheap \<Rightarrow> (nptr list \<times> node_t nheap) option" where
  "pqueue_print malloc_q malloc_d q h = print_copy set_pri set_pos malloc_q malloc_d q h"

section \<open>The validity check\<close>

text \<open>Descendants of a slot, within the size.\<close>

definition subtree_ok :: "node_t pqueue_t \<Rightarrow> node_t nheap \<Rightarrow> nat \<Rightarrow> bool" where
  "subtree_ok q h r \<longleftrightarrow> (\<forall>j. 2 \<le> j \<and> j < q_size q \<and> (\<exists>k. (j div 2) div 2 ^ k = r) \<longrightarrow>
     \<not> q_cmppri q (prio h (slot q (j div 2))) (prio h (slot q j)))"

lemma ancestor_split:
  "(\<exists>k. (i::nat) div 2 ^ k = r) \<longleftrightarrow> i = r \<or> (\<exists>k. i div 2 ^ k = 2 * r) \<or> (\<exists>k. i div 2 ^ k = 2 * r + 1)"
proof
  have up: "i div 2 ^ Suc k = (i div 2 ^ k) div 2" for k by (metis div_mult2_eq power_Suc2)
  assume "\<exists>k. i div 2 ^ k = r"
  then obtain k where k: "i div 2 ^ k = r" ..
  show "i = r \<or> (\<exists>k. i div 2 ^ k = 2 * r) \<or> (\<exists>k. i div 2 ^ k = 2 * r + 1)"
  proof (cases k)
    case 0
    with k show ?thesis by simp
  next
    case (Suc m)
    with k have "(i div 2 ^ m) div 2 = r" by (simp only: up)
    then have "i div 2 ^ m = 2 * r \<or> i div 2 ^ m = 2 * r + 1" by linarith
    then show ?thesis by blast
  qed
next
  have up: "i div 2 ^ Suc k = (i div 2 ^ k) div 2" for k by (metis div_mult2_eq power_Suc2)
  assume "i = r \<or> (\<exists>k. i div 2 ^ k = 2 * r) \<or> (\<exists>k. i div 2 ^ k = 2 * r + 1)"
  then show "\<exists>k. i div 2 ^ k = r"
  proof (elim disjE exE)
    assume "i = r"
    then show ?thesis by (intro exI [of _ 0]) simp
  next
    fix k assume "i div 2 ^ k = 2 * r"
    then have "i div 2 ^ Suc k = r" by (simp only: up)
    then show ?thesis ..
  next
    fix k assume "i div 2 ^ k = 2 * r + 1"
    then have "i div 2 ^ Suc k = r" by (simp only: up)
    then show ?thesis ..
  qed
qed

lemma subtree_ok_leaf: "q_size q \<le> 2 * r \<Longrightarrow> subtree_ok q h r"
  unfolding subtree_ok_def
proof (intro allI impI, elim conjE exE)
  fix j k assume "q_size q \<le> 2 * r" and j: "j < q_size q" and "j div 2 div 2 ^ k = r"
  moreover have "j div 2 div 2 ^ k \<le> j div 2" by (rule div_le_dividend)
  ultimately have False by linarith
  then show "\<not> q_cmppri q (prio h (slot q (j div 2))) (prio h (slot q j))" ..
qed

text \<open>The edge from a slot to a child is in order.\<close>

definition edge_ok :: "node_t pqueue_t \<Rightarrow> node_t nheap \<Rightarrow> nat \<Rightarrow> nat \<Rightarrow> bool" where
  "edge_ok q h r j \<longleftrightarrow> \<not> q_cmppri q (prio h (slot q r)) (prio h (slot q j))"

lemma subtree_ok_unfold:
  assumes "1 \<le> r"
  shows "subtree_ok q h r \<longleftrightarrow>
    (2 * r < q_size q \<longrightarrow> edge_ok q h r (2 * r) \<and> subtree_ok q h (2 * r)) \<and>
    (2 * r + 1 < q_size q \<longrightarrow> edge_ok q h r (2 * r + 1) \<and> subtree_ok q h (2 * r + 1))"
proof -
  have child: "j div 2 = r \<longleftrightarrow> j = 2 * r \<or> j = 2 * r + 1" for j by auto
  have leaf: "subtree_ok q h (2 * r)" if "\<not> 2 * r < q_size q" using that by (intro subtree_ok_leaf) simp
  have leaf': "subtree_ok q h (2 * r + 1)" if "\<not> 2 * r + 1 < q_size q" using that by (intro subtree_ok_leaf) simp
  have "subtree_ok q h r \<longleftrightarrow> (\<forall>j. 2 \<le> j \<and> j < q_size q \<and> j div 2 = r \<longrightarrow> edge_ok q h r j) \<and>
      subtree_ok q h (2 * r) \<and> subtree_ok q h (2 * r + 1)"
    unfolding subtree_ok_def edge_ok_def by (subst ancestor_split) blast
  also have "(\<forall>j. 2 \<le> j \<and> j < q_size q \<and> j div 2 = r \<longrightarrow> edge_ok q h r j) \<longleftrightarrow>
      (2 * r < q_size q \<longrightarrow> edge_ok q h r (2 * r)) \<and> (2 * r + 1 < q_size q \<longrightarrow> edge_ok q h r (2 * r + 1))"
    using assms unfolding child by (auto dest: spec [of _ "2 * r"] spec [of _ "Suc (2 * r)"])
  finally show ?thesis using leaf leaf' by blast
qed

lemma subtree_ok_root: "subtree_ok q h 1 \<longleftrightarrow> pq_order q h"
proof -
  have "\<exists>k. (i::nat) div 2 ^ k = 1" if "1 \<le> i" for i
    using that
  proof (induction i rule: less_induct)
    case (less i)
    show ?case
    proof (cases "i = 1")
      case False
      with less.prems have "i div 2 < i" "1 \<le> i div 2" by auto
      then obtain k where "i div 2 div 2 ^ k = 1" using less.IH by blast
      then have "i div 2 ^ Suc k = 1" by (simp add: div_mult2_eq [symmetric])
      then show ?thesis ..
    qed (auto intro: exI [of _ 0])
  qed
  then show ?thesis by (force simp: subtree_ok_def pq_order_def heap_ok_def)
qed

lemma subtree_is_valid_correct:
  assumes "pq_inv q h" and "1 \<le> pos" and "pos < 2 ^ 30" and "q_size q \<le> 2 ^ 30"
  shows "subtree_is_valid q h pos = Some (subtree_ok q h pos)"
  using assms
proof (induction q h pos rule: subtree_is_valid.induct)
  case (1 q h pos)
  note inv = "1.prems"(1) and pos = "1.prems"(2,3) and size = "1.prems"(4)
  have rng: "cint (2 * int pos) = Some (2 * int pos)" "cint (2 * int pos + 1) = Some (2 * int pos + 1)"
    using pos by (simp_all add: cint_def int_range_def)
  have read: "arr_get (q_d q) j = Some (slot q j)" "call_getpri q h (slot q j) = Some (prio h (slot q j))"
    if j: "1 \<le> j" "j < q_size q" for j
  proof -
    have sh: "pq_shape q" using inv by (simp add: pq_inv_def)
    obtain n where n: "q_d q ! j = Some (slot q j)" "h (slot q j) = Some n"
      using inv j by (auto simp: pq_inv_def elim!: slot_okD)
    show "arr_get (q_d q) j = Some (slot q j)" using n j by (simp add: arr_get_in shape_bounds [OF sh])
    show "call_getpri q h (slot q j) = Some (prio h (slot q j))"
      using n by (simp add: call_getpri_std shape_bounds [OF sh] prio_def)
  qed
  have l: "subtree_is_valid q h (2 * pos) = Some (subtree_ok q h (2 * pos))"
    if "2 * pos < q_size q" "edge_ok q h pos (2 * pos)"
    using "1.IH"(1) that pos size inv rng read by (auto simp: left_def edge_ok_def)
  have r: "subtree_is_valid q h (2 * pos + 1) = Some (subtree_ok q h (2 * pos + 1))"
    if "2 * pos + 1 < q_size q" "edge_ok q h pos (2 * pos + 1)" "edge_ok q h pos (2 * pos)" "subtree_ok q h (2 * pos)"
    using "1.IH"(2) that pos size inv rng read l by (auto simp: left_def right_def edge_ok_def)
  have "subtree_is_valid q h pos = do {
      lok \<leftarrow> (if 2 * pos < q_size q
        then if edge_ok q h pos (2 * pos) then subtree_is_valid q h (2 * pos) else Some False
        else Some True);
      (if \<not> lok then Some False
       else if 2 * pos + 1 < q_size q
       then if edge_ok q h pos (2 * pos + 1) then subtree_is_valid q h (2 * pos + 1) else Some False
       else Some True)}"
    by (subst subtree_is_valid.simps) (use pos rng in \<open>simp add: left_def right_def read edge_ok_def cong: if_cong\<close>)
  then show ?case
    using l r by (cases "2 * pos < q_size q"; cases "edge_ok q h pos (2 * pos)";
        cases "2 * pos + 1 < q_size q"; cases "edge_ok q h pos (2 * pos + 1)")
      (simp_all add: subtree_ok_unfold [OF pos(1)])
qed

end
