(* ===== verification/Queue_Interface.thy ===== *)
theory Queue_Interface
  imports PQueue_Debug
begin

text \<open>
  What the clients of the priority queue rely on, as a locale: popping returns a least
  element, pushing adds one, and neither touches what the nodes carry. \<open>prio_drain\<close> is the
  pop half (\<open>pqueue_print\<close> needs no more), \<open>prio_queue\<close> adds pushing (\<open>fill_queue\<close> puts a
  node back). Both are interpreted on \<open>pqueue_pop\<close> and \<open>pqueue_insert\<close>, for every comparison
  a queue may carry.
\<close>

section \<open>Interfaces\<close>

text \<open>Popping until the queue reports that it is empty.\<close>

inductive drains :: "('s \<Rightarrow> ('a ref \<times> 's) option) \<Rightarrow> 's \<Rightarrow> 'a list \<Rightarrow> 's \<Rightarrow> bool" for pop where
  drained: "pop s = Some (Null, s') \<Longrightarrow> drains pop s [] s'"
| popped: "pop s = Some (Ref x, s1) \<Longrightarrow> drains pop s1 xs s' \<Longrightarrow> drains pop s (x # xs) s'"

locale prio_drain =
  fixes invar :: "'s \<Rightarrow> bool" and elems :: "'s \<Rightarrow> 'a set"
    and key :: "'s \<Rightarrow> 'a \<Rightarrow> 'k" and data :: "'s \<Rightarrow> 'a \<Rightarrow> 'd"
    and le :: "'k \<Rightarrow> 'k \<Rightarrow> bool" and pop :: "'s \<Rightarrow> ('a ref \<times> 's) option"
  assumes finite_elems: "invar s \<Longrightarrow> finite (elems s)"
    and pop_empty: "invar s \<Longrightarrow> elems s = {} \<Longrightarrow> pop s = Some (Null, s)"
    and pop_least: "invar s \<Longrightarrow> elems s \<noteq> {} \<Longrightarrow>
      \<exists>x s'. pop s = Some (Ref x, s') \<and> x \<in> elems s \<and> (\<forall>y\<in>elems s. le (key s x) (key s y)) \<and>
        invar s' \<and> elems s' = elems s - {x} \<and> key s' = key s \<and> data s' = data s"
begin

text \<open>Draining ends, and returns every element once, least first.\<close>

lemma drain_sorted:
  assumes "invar s"
  shows "\<exists>xs s'. drains pop s xs s' \<and> set xs = elems s \<and> distinct xs \<and>
    sorted_wrt (\<lambda>x y. le (key s x) (key s y)) xs \<and> invar s' \<and> elems s' = {} \<and>
    key s' = key s \<and> data s' = data s"
  using assms
proof (induction "card (elems s)" arbitrary: s)
  case 0
  then have "elems s = {}" using finite_elems by simp
  with 0 pop_empty show ?case by (intro exI [of _ "[]"] exI [of _ s]) (auto intro: drained)
next
  case (Suc n)
  then have "elems s \<noteq> {}" by auto
  with pop_least Suc.prems obtain x s1 where p: "pop s = Some (Ref x, s1)" "x \<in> elems s"
    and least: "\<forall>y\<in>elems s. le (key s x) (key s y)" and s1: "invar s1" "elems s1 = elems s - {x}"
      "key s1 = key s" "data s1 = data s" by blast
  have "n = card (elems s1)" using Suc.hyps(2) p(2) s1 finite_elems [OF Suc.prems] by simp
  from Suc.hyps(1) [OF this s1(1)] obtain xs s' where ih: "drains pop s1 xs s'" "set xs = elems s1"
    "distinct xs" "sorted_wrt (\<lambda>x y. le (key s1 x) (key s1 y)) xs" "invar s'" "elems s' = {}"
    "key s' = key s1" "data s' = data s1" by blast
  show ?case
    by (intro exI [of _ "x # xs"] exI [of _ s'])
      (use ih p least s1 in \<open>auto intro: popped\<close>)
qed

end

locale prio_queue = prio_drain +
  fixes alive :: "'s \<Rightarrow> 'a \<Rightarrow> bool" and room :: "'s \<Rightarrow> bool" and push :: "'s \<Rightarrow> 'a \<Rightarrow> 's option"
  assumes elems_alive: "invar s \<Longrightarrow> x \<in> elems s \<Longrightarrow> alive s x"
    and push_adds: "invar s \<Longrightarrow> alive s x \<Longrightarrow> x \<notin> elems s \<Longrightarrow> room s \<Longrightarrow>
      \<exists>s'. push s x = Some s' \<and> invar s' \<and> elems s' = insert x (elems s) \<and>
        key s' = key s \<and> data s' = data s"
    and pop_room: "invar s \<Longrightarrow> pop s = Some (Ref x, s') \<Longrightarrow> room s' \<and> alive s' x"
begin

text \<open>
  Looking at the least element by popping it and pushing it back leaves the contents as they
  were.
\<close>

lemma pop_push_back:
  assumes "invar s" and "pop s = Some (Ref x, s1)" and "elems s \<noteq> {}"
  shows "\<exists>s2. push s1 x = Some s2 \<and> invar s2 \<and> elems s2 = elems s \<and> key s2 = key s \<and> data s2 = data s"
proof -
  from pop_least [OF assms(1,3)] assms(2) have s1: "x \<in> elems s" "invar s1" "elems s1 = elems s - {x}"
    "key s1 = key s" "data s1 = data s" by auto
  from pop_room [OF assms(1,2)] have "room s1" "alive s1 x" by auto
  with push_adds [OF s1(2), of x] s1 show ?thesis by (auto simp: insert_absorb)
qed

end

section \<open>The priority queue provides the interfaces\<close>

definition node_raw :: "node_t nheap \<Rightarrow> nptr \<Rightarrow> byte arr" where
  "node_raw h p = n_raw_packet (the (h p))"

text \<open>A queue and its node store, with the results of the operations repackaged.\<close>

definition pq_pop :: "node_t pqueue_t \<times> node_t nheap \<Rightarrow> (nptr ref \<times> (node_t pqueue_t \<times> node_t nheap)) option" where
  "pq_pop s = map_option (\<lambda>(e, qp, h). (e, (the_ref qp, h))) (pqueue_pop (Ref (fst s)) (snd s))"

definition pq_push :: "bool \<Rightarrow> node_t pqueue_t \<times> node_t nheap \<Rightarrow> nptr \<Rightarrow> (node_t pqueue_t \<times> node_t nheap) option" where
  "pq_push r s p = map_option (\<lambda>(_, qp, h). (the_ref qp, h)) (pqueue_insert r (Ref (fst s)) (snd s) p)"

definition pq_ok :: "(ulonglong \<Rightarrow> ulonglong \<Rightarrow> bool) \<Rightarrow> node_t pqueue_t \<times> node_t nheap \<Rightarrow> bool" where
  "pq_ok cmp s \<longleftrightarrow> pq_valid (fst s) (snd s) \<and> q_cmppri (fst s) = cmp"

lemma same_nodes_raw: "same_nodes h h' \<Longrightarrow> node_raw h' = node_raw h"
proof
  fix p assume s: "same_nodes h h'"
  show "node_raw h' p = node_raw h p"
  proof (cases "h p")
    case None
    with same_nodes_None [OF s] have "h' p = None" by simp
    with None show ?thesis by (simp add: node_raw_def)
  next
    case (Some n)
    with s obtain n' where "h' p = Some n'" "n_raw_packet n' = n_raw_packet n"
      by (rule same_nodes_lookup)
    with Some show ?thesis by (simp add: node_raw_def)
  qed
qed

lemma same_nodes_prio_fun: "same_nodes h h' \<Longrightarrow> prio h' = prio h"
  by (rule ext) (rule same_nodes_prio)

lemma pq_empty_iff: "pq_inv q h \<Longrightarrow> pq_ptrs q = {} \<longleftrightarrow> q_size q = 1"
  using card_pq_ptrs [of q h] by (auto simp: pq_inv_def pq_shape_def pq_ptrs_def)

text \<open>One pop and one push, as the interface states them.\<close>

lemma pq_pop_facts:
  assumes ok: "pq_ok cmp (q, h)" and ne: "pq_ptrs q \<noteq> {}"
  shows "\<exists>q' h'. pq_pop (q, h) = Some (Ref (slot q 1), (q', h')) \<and> pq_ok cmp (q', h') \<and>
    pq_ptrs q' = pq_ptrs q - {slot q 1} \<and> same_nodes h h' \<and> q_size q' < q_avail q'"
proof -
  from ok have v: "pq_valid q h" and inv: "pq_inv q h" and cmp: "q_cmppri q = cmp"
    by (simp_all add: pq_ok_def pq_valid_def)
  have size: "1 < q_size q" "q_size q \<le> q_avail q"
    using ne pq_empty_iff [OF inv] inv by (auto simp: pq_inv_def pq_shape_def)
  with pqueue_pop_correct [OF v size(1)] cmp show ?thesis
    by (auto simp: pq_pop_def pq_ok_def same_config_def)
qed

lemma pq_push_facts:
  assumes ok: "pq_ok cmp (q, h)" and p: "h p \<noteq> None" "p \<notin> pq_ptrs q" and room: "pq_room r q"
  shows "\<exists>q' h'. pq_push r (q, h) p = Some (q', h') \<and> pq_ok cmp (q', h') \<and>
    pq_ptrs q' = insert p (pq_ptrs q) \<and> same_nodes h h'"
proof -
  from p obtain n where n: "h p = Some n" by auto
  from ok have v: "pq_valid q h" and cmp: "q_cmppri q = cmp" by (simp_all add: pq_ok_def)
  from pqueue_insert_correct [OF v n p(2) room] cmp show ?thesis
    by (auto simp: pq_push_def pq_ok_def same_config_def)
qed

interpretation pq: prio_queue "pq_ok cmp" "\<lambda>s. pq_ptrs (fst s)" "\<lambda>s. prio (snd s)"
  "\<lambda>s. node_raw (snd s)" "\<lambda>a b. \<not> cmp a b" pq_pop "\<lambda>s p. snd s p \<noteq> None" "\<lambda>s. pq_room r (fst s)"
  "pq_push r" for cmp r
proof (unfold_locales, goal_cases)
  case (1 s)
  then show ?case by simp
next
  case (2 s)
  then show ?case
    using pq_empty_iff [of "fst s" "snd s"]
    by (simp add: pq_ok_def pq_valid_def pq_pop_def pqueue_pop_def)
next
  case (3 s)
  obtain q h where s: "s = (q, h)" by (cases s)
  have v: "pq_valid q h" "q_cmppri q = cmp" using 3 by (simp_all add: s pq_ok_def)
  have "slot q 1 \<in> pq_ptrs q" "\<forall>y\<in>pq_ptrs q. \<not> cmp (prio h (slot q 1)) (prio h y)"
    using slot_1_min [OF v(1)] v(2) 3(2) s by auto
  then show ?case
    using pq_pop_facts [of cmp q h] 3 by (auto simp: s same_nodes_prio_fun same_nodes_raw)
next
  case (4 s x)
  then show ?case by (auto simp: pq_ok_def pq_valid_def elim: pq_ptrs_node)
next
  case (5 s x)
  then show ?case
    using pq_push_facts [of cmp "fst s" "snd s" x r]
    by (auto simp: same_nodes_prio_fun same_nodes_raw)
next
  case (6 s x s')
  obtain q h where s: "s = (q, h)" by (cases s)
  have inv: "pq_inv q h" using 6 by (simp add: s pq_ok_def pq_valid_def)
  have ne: "pq_ptrs q \<noteq> {}"
    using 6 pq_empty_iff [OF inv] by (auto simp: s pq_pop_def pqueue_pop_empty)
  have "slot q 1 \<in> pq_ptrs q" using slot_1_min 6 ne by (auto simp: s pq_ok_def)
  then obtain n where "h (slot q 1) = Some n" using pq_ptrs_node [OF inv] by blast
  moreover obtain q' h' where "pq_pop (q, h) = Some (Ref (slot q 1), (q', h'))"
    and "same_nodes h h'" and "q_size q' < q_avail q'"
    using pq_pop_facts [of cmp q h] 6(1) ne s by blast
  moreover from this have "s' = (q', h')" "x = slot q 1" using 6(2) s by simp_all
  ultimately show ?case using same_nodes_None [of h h' "slot q 1"] by (simp add: pq_room_def)
qed

section \<open>Printing\<close>

lemma print_loop_drains: "drains pq_pop s xs s' \<Longrightarrow> print_loop (Ref (fst s)) (snd s) = Some (xs, snd s')"
proof (induction rule: drains.induct)
  case (drained s s')
  then show ?case by (auto simp: pq_pop_def print_loop.simps)
next
  case (popped s x s1 xs s')
  from popped.hyps(1) obtain qp h1 where p: "pqueue_pop (Ref (fst s)) (snd s) = Some (Ref x, qp, h1)"
    and s1: "s1 = (the_ref qp, h1)" by (auto simp: pq_pop_def)
  from pqueue_pop_Ref [OF p] obtain q' where "qp = Ref q'" by auto
  with p s1 popped.IH show ?case by (simp add: print_loop.simps [of "Ref (fst s)"])
qed

end
