(* ===== verification/Network.thy ===== *)
theory Network
  imports Prelude
begin

unbundle bit_operations_syntax

text \<open>
  The wire format between the two proxies and the address helpers,
  \<open>commons/network/network.h\<close> and \<open>network.c\<close>. The struct is packed and is sent as it lies in
  memory, so its first two bytes depend on the byte order of the host; \<open>be\<close> says whether the
  host is big-endian.
\<close>

section \<open>The encapsulated packet\<close>

definition BLOCKSIZE :: nat where
  "BLOCKSIZE = 1000"

definition BACKLOG :: nat where
  "BACKLOG = 10"

record encaps_packet_t =
  ep_seq :: ushort
  ep_raw_packet :: "byte arr"

definition PACKET_SIZE :: nat where
  "PACKET_SIZE = 2 + BLOCKSIZE"

definition ushort_bytes :: "bool \<Rightarrow> ushort \<Rightarrow> byte list" where
  "ushort_bytes be s =
     (if be then [ucast (drop_bit 8 s), ucast s] else [ucast s, ucast (drop_bit 8 s)])"

definition bytes_ushort :: "bool \<Rightarrow> byte \<Rightarrow> byte \<Rightarrow> ushort" where
  "bytes_ushort be a b =
     (if be then push_bit 8 (ucast a) OR ucast b else push_bit 8 (ucast b) OR ucast a)"

text \<open>The bytes of the struct, as \<open>tx_chain\<close> hands them to \<open>send\<close>.\<close>

definition packet_bytes :: "bool \<Rightarrow> encaps_packet_t \<Rightarrow> byte arr" where
  "packet_bytes be p = map Some (ushort_bytes be (ep_seq p)) @ ep_raw_packet p"

text \<open>
  The cast of a received buffer to the struct: the sequence number is read from the first
  two bytes, the payload is the rest of the buffer.
\<close>

definition cast_packet :: "bool \<Rightarrow> byte arr \<Rightarrow> encaps_packet_t option" where
  "cast_packet be raw = do {
     a \<leftarrow> arr_get raw 0;
     b \<leftarrow> arr_get raw 1;
     Some \<lparr>ep_seq = bytes_ushort be a b, ep_raw_packet = drop 2 raw\<rparr>
   }"

section \<open>Socket addresses\<close>

text \<open>
  A socket address, by family; ports are the 16 bits of the struct as the host reads them,
  which are in network byte order.
\<close>

datatype sockaddr =
    Sockaddr_in (sin_port: ushort) (sin_addr: "32 word")
  | Sockaddr_in6 (sin6_port: ushort) (sin6_addr: "128 word")
  | Sockaddr_other nat

datatype in_addr = In4 "32 word" | In6 "128 word"

fun get_in_portnum :: "sockaddr \<Rightarrow> 32 word" where
  "get_in_portnum (Sockaddr_in port a) = ucast port"
| "get_in_portnum (Sockaddr_in6 port a) = ucast port"
| "get_in_portnum (Sockaddr_other fam) = 0"

text \<open>The address, or no value at all: the last branch of the source returns nothing.\<close>

fun get_in_ipaddr :: "sockaddr \<Rightarrow> in_addr option" where
  "get_in_ipaddr (Sockaddr_in port a) = Some (In4 a)"
| "get_in_ipaddr (Sockaddr_in6 port a) = Some (In6 a)"
| "get_in_ipaddr (Sockaddr_other fam) = None"

text \<open>\<open>htons\<close> of the host.\<close>

definition htons :: "bool \<Rightarrow> ushort \<Rightarrow> ushort" where
  "htons be p = (if be then p else push_bit 8 p OR drop_bit 8 p)"

section \<open>Lemmas\<close>

lemma BLOCKSIZE_pos: "0 < BLOCKSIZE"
  by (simp add: BLOCKSIZE_def)

lemma length_ushort_bytes [simp]: "length (ushort_bytes be s) = 2"
  by (simp add: ushort_bytes_def)

lemma ushort_lo_hi: "push_bit 8 (ucast (ucast (drop_bit 8 s) :: byte)) OR ucast (ucast s :: byte) = (s :: ushort)"
  by (rule bit_word_eqI) (auto simp: bit_simps)

lemma bytes_ushort_roundtrip: "bytes_ushort be (ushort_bytes be s ! 0) (ushort_bytes be s ! 1) = s"
  by (simp add: bytes_ushort_def ushort_bytes_def ushort_lo_hi)

lemma bytes_ushort_swapped: "bytes_ushort (\<not> be) (ushort_bytes be s ! 0) (ushort_bytes be s ! 1) = htons False s"
  unfolding bytes_ushort_def ushort_bytes_def htons_def
  by (rule bit_word_eqI) (auto simp: bit_simps dest: bit_imp_le_length)

lemma length_packet_bytes: "length (ep_raw_packet p) = BLOCKSIZE \<Longrightarrow> length (packet_bytes be p) = PACKET_SIZE"
  by (simp add: packet_bytes_def PACKET_SIZE_def)

lemma packet_bytes_nonempty: "packet_bytes be p \<noteq> []"
  by (simp add: packet_bytes_def ushort_bytes_def)

lemma cast_packet_bytes: "cast_packet be (packet_bytes be p) = Some p"
  using bytes_ushort_roundtrip [of be "ep_seq p"]
  by (cases p) (simp add: cast_packet_def packet_bytes_def arr_get_def nth_append)

lemma cast_packet_swapped: "cast_packet (\<not> be) (packet_bytes be p) = Some (p\<lparr>ep_seq := htons False (ep_seq p)\<rparr>)"
  using bytes_ushort_swapped [of be "ep_seq p"]
  by (cases p) (simp add: cast_packet_def packet_bytes_def arr_get_def nth_append)

end
