(* ===== verification/Io.thy ===== *)
theory Io
  imports Network
begin

text \<open>
  The system calls of the byte loops, and the two loop shapes all programs of the repository
  share: fill a buffer from a stream socket, and write a buffer to one. The results of
  \<open>recv\<close> and \<open>send\<close> come from finite lists supplied by the environment, so that every
  chunking the kernel may choose is covered; a loop that needs a further result ends as
  \<open>Stalled\<close>.
\<close>

text \<open>The event bits of \<open>poll\<close> the sources compare with.\<close>

definition POLLIN :: int where "POLLIN = 1"

definition POLLERR :: int where "POLLERR = 8"

section \<open>Receiving\<close>

text \<open>
  What the kernel has for the next \<open>recv\<close>: bytes (of which at most the requested number are
  returned, the rest stays; no bytes is an end of stream), the orderly end of the stream, or
  an error.
\<close>

datatype recv_ev = RecvBytes "byte list" | RecvFin | RecvErr

fun recv :: "nat \<Rightarrow> recv_ev list \<Rightarrow> (int \<times> byte list \<times> recv_ev list) option" where
  "recv n [] = None"
| "recv n (RecvBytes bs # es) =
     (if bs = [] then Some (0, [], RecvFin # es)
      else Some (int (min n (length bs)), take n bs, if length bs > n then RecvBytes (drop n bs) # es else es))"
| "recv n (RecvFin # es) = Some (0, [], RecvFin # es)"
| "recv n (RecvErr # es) = Some (-1, [], es)"

text \<open>Copying bytes into a buffer at an offset.\<close>

definition arr_blit :: "'a arr \<Rightarrow> nat \<Rightarrow> 'a list \<Rightarrow> 'a arr option" where
  "arr_blit a i xs =
     (if i + length xs \<le> length a then Some (take i a @ map Some xs @ drop (i + length xs) a) else None)"

datatype fill_end = Filled | Closed | Stalled

fun ev_size :: "recv_ev \<Rightarrow> nat" where
  "ev_size (RecvBytes bs) = Suc (length bs)"
| "ev_size RecvFin = 1"
| "ev_size RecvErr = 1"

lemma recv_size:
  "recv n es = Some (r, bs, es') \<Longrightarrow> 0 < n \<Longrightarrow> r \<noteq> 0 \<Longrightarrow>
    sum_list (map ev_size es') < sum_list (map ev_size es)"
  by (cases "(n, es)" rule: recv.cases) (auto split: if_splits)

text \<open>
  \<open>while (recv_count < n) { numbytes = recv(fd, buf + recv_count, n - recv_count, 0); ... }\<close>.
  End of stream leaves the loop; an error leaves it too, or is retried when \<open>retry\<close>.
\<close>

function recv_fill :: "bool \<Rightarrow> nat \<Rightarrow> byte arr \<Rightarrow> nat \<Rightarrow> recv_ev list \<Rightarrow>
    (fill_end \<times> byte arr \<times> nat \<times> recv_ev list) option" where
  "recv_fill retry n buf recv_count es =
     (if recv_count < n
      then (case recv (n - recv_count) es of
              None \<Rightarrow> Some (Stalled, buf, recv_count, es)
            | Some (numbytes, bs, es') \<Rightarrow>
                if numbytes > 0
                then do {
                  buf' \<leftarrow> arr_blit buf recv_count bs;
                  recv_fill retry n buf' (recv_count + nat numbytes) es'
                }
                else if numbytes = 0 \<or> \<not> retry then Some (Closed, buf, recv_count, es')
                else recv_fill retry n buf recv_count es')
      else Some (Filled, buf, recv_count, es))"
  by pat_completeness auto
termination
  by (relation "measure (\<lambda>(r, n, b, c, es). sum_list (map ev_size es))")
    (auto dest: recv_size)

declare recv_fill.simps [simp del]

section \<open>Sending\<close>

text \<open>
  The result of one \<open>send\<close> of n bytes, from the value r the environment supplies: never more
  than n.
\<close>

definition send_count :: "int \<Rightarrow> nat \<Rightarrow> int" where
  "send_count r n = min r (int n)"

text \<open>
  \<open>while (sent_count < n) { numbytes = send(fd, buf + sent_count, n - sent_count, 0); ... }\<close>:
  how the loop ends, the bytes that reached the socket, and the unused results. A result 0
  leaves the loop when \<open>close0\<close>; other non-positive results are retried.
\<close>

fun send_fill :: "bool \<Rightarrow> nat \<Rightarrow> byte arr \<Rightarrow> nat \<Rightarrow> int list \<Rightarrow> fill_end \<times> byte arr \<times> int list" where
  "send_fill close0 n buf sent_count [] =
     ((if sent_count < n then Stalled else Filled), [], [])"
| "send_fill close0 n buf sent_count (r # rs) =
     (if sent_count < n
      then let numbytes = send_count r (n - sent_count) in
        if numbytes > 0
        then case send_fill close0 n buf (sent_count + nat numbytes) rs of
               (e, wire, rs') \<Rightarrow> (e, take (nat numbytes) (drop sent_count buf) @ wire, rs')
        else if numbytes = 0 \<and> close0 then (Closed, [], rs)
        else send_fill close0 n buf sent_count rs
      else (Filled, [], r # rs))"

section \<open>Lemmas on sending\<close>

text \<open>The socket receives a prefix of the buffer, and all of it when the loop completes.\<close>

lemma send_fill_prefix:
  assumes "send_fill close0 n buf c rs = (e, wire, rs')" and "n \<le> length buf" and "c \<le> n"
  shows "\<exists>k. wire = take k (drop c buf) \<and> c + k \<le> n \<and> (e = Filled \<longrightarrow> c + k = n)"
  using assms
proof (induction close0 n buf c rs arbitrary: e wire rs' rule: send_fill.induct)
  case (1 close0 n buf c)
  then show ?case by (intro exI [of _ 0]) (auto split: if_splits)
next
  case (2 close0 n buf c r rs)
  show ?case
  proof (cases "c < n")
    case False
    with 2 show ?thesis by (intro exI [of _ 0]) auto
  next
    case True
    let ?m = "send_count r (n - c)"
    show ?thesis
    proof (cases "?m > 0")
      case False
      then show ?thesis
        using "2.prems" "2.IH"(2) [OF True refl False] True
        by (cases "?m = 0 \<and> close0") (auto simp: Let_def intro: exI [of _ 0])
    next
      case pos: True
      obtain w where rec: "send_fill close0 n buf (c + nat ?m) rs = (e, w, rs')"
        and wire: "wire = take (nat ?m) (drop c buf) @ w"
        using "2.prems"(1) True pos by (auto simp: Let_def split: prod.splits)
      have le: "c + nat ?m \<le> n" using True by (auto simp: send_count_def)
      obtain k where k: "w = take k (drop (c + nat ?m) buf)" "c + nat ?m + k \<le> n"
          "e = Filled \<longrightarrow> c + nat ?m + k = n"
        using "2.IH"(1) [OF True refl pos rec "2.prems"(2) le] by auto
      have "wire = take (nat ?m + k) (drop c buf)"
        unfolding wire k(1) by (simp add: take_add add.commute [of c])
      with k show ?thesis by (intro exI [of _ "nat ?m + k"]) auto
    qed
  qed
qed

lemma send_fill_complete:
  assumes "send_fill close0 n buf 0 rs = (Filled, wire, rs')" and "length buf = n"
  shows "wire = buf"
  using send_fill_prefix [OF assms(1)] assms(2) by auto

text \<open>The number of calls of \<open>send\<close> that accept something.\<close>

definition accepts :: "int list \<Rightarrow> nat" where
  "accepts rs = length (filter (\<lambda>r. 0 < r) rs)"

text \<open>
  The loop ends: every call that accepts something accepts at least a byte, so as many of
  them as there are bytes suffice, and no more than that are used.
\<close>

lemma send_fill_completes:
  assumes "n - c \<le> accepts rs" and "close0 \<longrightarrow> 0 \<notin> set rs" and "c \<le> n"
  shows "\<exists>wire rs'. send_fill close0 n buf c rs = (Filled, wire, rs') \<and> accepts rs \<le> accepts rs' + (n - c) \<and> set rs' \<subseteq> set rs"
  using assms
proof (induction close0 n buf c rs rule: send_fill.induct)
  case (1 close0 n buf c)
  then show ?case by (simp add: accepts_def)
next
  case (2 close0 n buf c r rs)
  show ?case
  proof (cases "c < n")
    case False
    then show ?thesis by auto
  next
    case c: True
    let ?m = "send_count r (n - c)"
    show ?thesis
    proof (cases "?m > 0")
      case True
      then have r: "0 < r" "nat ?m \<le> n - c" "0 < nat ?m" using c by (auto simp: send_count_def)
      have "n - (c + nat ?m) \<le> accepts rs" "close0 \<longrightarrow> 0 \<notin> set rs" "c + nat ?m \<le> n"
        using "2.prems" r c by (auto simp: accepts_def)
      with "2.IH"(1) [OF c refl True] obtain w rs' where ih: "send_fill close0 n buf (c + nat ?m) rs = (Filled, w, rs')"
        "accepts rs \<le> accepts rs' + (n - (c + nat ?m))" "set rs' \<subseteq> set rs" by blast
      have "accepts (r # rs) = Suc (accepts rs)" using r by (simp add: accepts_def)
      then have "accepts (r # rs) \<le> accepts rs' + (n - c)" using ih(2) r by simp
      moreover have "set rs' \<subseteq> set (r # rs)" using ih(3) by auto
      ultimately show ?thesis using c True ih(1) by (simp add: Let_def)
    next
      case False
      then have r: "\<not> 0 < r" "accepts (r # rs) = accepts rs" using c by (auto simp: send_count_def accepts_def)
      have retry: "\<not> (?m = 0 \<and> close0)" using "2.prems"(2) r(1) c by (auto simp: send_count_def)
      have step: "send_fill close0 n buf c (r # rs) = send_fill close0 n buf c rs"
        using c False retry by (auto simp: Let_def)
      have "n - c \<le> accepts rs" "close0 \<longrightarrow> 0 \<notin> set rs" using "2.prems" r(2) by auto
      with "2.IH"(2) [OF c refl False retry] "2.prems"(3) r(2) show ?thesis unfolding step by auto
    qed
  qed
qed

section \<open>Lemmas on receiving\<close>

text \<open>The bytes still to come before the end of the stream, when errors are retried.\<close>

fun ev_bytes :: "recv_ev list \<Rightarrow> byte list" where
  "ev_bytes [] = []"
| "ev_bytes (RecvBytes bs # es) = (if bs = [] then [] else bs @ ev_bytes es)"
| "ev_bytes (RecvFin # es) = []"
| "ev_bytes (RecvErr # es) = ev_bytes es"

text \<open>Whether the stream ends at all (an empty read is an end of stream).\<close>

fun ev_ends :: "recv_ev list \<Rightarrow> bool" where
  "ev_ends [] = False"
| "ev_ends (RecvBytes bs # es) = (bs = [] \<or> ev_ends es)"
| "ev_ends (RecvFin # es) = True"
| "ev_ends (RecvErr # es) = ev_ends es"

lemma recv_bytes:
  assumes "recv n es = Some (r, bs, es')" and "0 < n"
  shows "r > 0 \<Longrightarrow> ev_bytes es = bs @ ev_bytes es' \<and> length bs = nat r \<and> nat r \<le> n \<and> ev_ends es' = ev_ends es"
    and "r < 0 \<Longrightarrow> ev_bytes es' = ev_bytes es \<and> ev_ends es' = ev_ends es"
    and "r = 0 \<Longrightarrow> ev_bytes es = [] \<and> ev_ends es \<and> ev_bytes es' = [] \<and> ev_ends es'"
  using assms by (cases "(n, es)" rule: recv.cases; auto split: if_splits)+

text \<open>
  What the fill loop does, whatever the chunking: the buffer receives the next bytes of the
  stream in order, the loop completes when there are enough of them, and otherwise takes all
  that are left.
\<close>

definition fill_result :: "nat \<Rightarrow> byte arr \<Rightarrow> nat \<Rightarrow> recv_ev list \<Rightarrow> (fill_end \<times> byte arr \<times> nat \<times> recv_ev list) option \<Rightarrow> bool" where
  "fill_result n buf c es res \<longleftrightarrow> (\<exists>e es'. res = Some (e, take c buf @ map Some (take (n - c) (ev_bytes es)) @
       drop (c + length (ev_bytes es)) buf, min n (c + length (ev_bytes es)), es') \<and>
     ev_bytes es' = drop (n - c) (ev_bytes es) \<and>
     (e = Filled \<longleftrightarrow> n - c \<le> length (ev_bytes es)) \<and> (e = Closed \<longrightarrow> ev_ends es) \<and> (e = Stalled \<longrightarrow> \<not> ev_ends es) \<and>
     ev_ends es' = ev_ends es)"

text \<open>Bytes received first, then the rest.\<close>

lemma fill_result_step:
  assumes "fill_result n (take c buf @ map Some bs @ drop (c + length bs) buf) (c + length bs) es' res"
    and es: "ev_bytes es = bs @ ev_bytes es'" "ev_ends es' = ev_ends es" and len: "length buf = n" "c + length bs \<le> n"
  shows "fill_result n buf c es res"
proof -
  let ?buf = "take c buf @ map Some bs @ drop (c + length bs) buf"
  have c: "c \<le> length buf" using len by simp
  have e1: "take (c + length bs) ?buf = take c buf @ map Some bs" using c by simp
  have e2: "take (n - c) (ev_bytes es) = bs @ take (n - (c + length bs)) (ev_bytes es')" using es len by simp
  have e3: "drop (c + length bs + length (ev_bytes es')) ?buf = drop (c + length (ev_bytes es)) buf"
    using es c by (simp add: ac_simps)
  have cnt: "c + length bs + length (ev_bytes es') = c + length (ev_bytes es)" using es by simp
  have rest: "drop (n - (c + length bs)) (ev_bytes es') = drop (n - c) (ev_bytes es)" using es len by simp
  have full: "n - (c + length bs) \<le> length (ev_bytes es') \<longleftrightarrow> n - c \<le> length (ev_bytes es)" using es by auto
  have "map Some (take (n - c) (ev_bytes es)) = map Some bs @ map Some (take (n - (c + length bs)) (ev_bytes es'))"
    unfolding e2 by simp
  with assms(1) show ?thesis unfolding fill_result_def e1 e3 unfolding cnt rest full es(2) by simp
qed

lemma recv_fill_result:
  assumes "length buf = n" and "c \<le> n"
  shows "fill_result n buf c es (recv_fill True n buf c es)"
  using assms
proof (induction True n buf c es rule: recv_fill.induct)
  case (1 n buf c es)
  note step = recv_fill.simps [of True n buf c es]
  show ?case
  proof (cases "c < n")
    case False
    then have "recv_fill True n buf c es = Some (Filled, buf, c, es)" by (simp add: step)
    with False "1.prems" show ?thesis by (simp add: fill_result_def)
  next
    case True
    show ?thesis
    proof (cases "recv (n - c) es")
      case None
      then have "es = []" by (cases "(n - c, es)" rule: recv.cases) (auto split: if_splits)
      with None True "1.prems" show ?thesis by (simp add: recv_fill.simps [of True n buf c "[]"] fill_result_def)
    next
      case (Some t)
      obtain r bs es' where t: "recv (n - c) es = Some (r, bs, es')" using Some by (cases t) auto
      have "0 < n - c" using True by simp
      note rb = recv_bytes [OF t this]
      consider (pos) "r > 0" | (zero) "r = 0" | (neg) "r < 0" by linarith
      then show ?thesis
      proof cases
        case pos
        have bs: "ev_bytes es = bs @ ev_bytes es'" "length bs = nat r" "nat r \<le> n - c" "ev_ends es' = ev_ends es"
          using rb(1) [OF pos] by auto
        let ?buf = "take c buf @ map Some bs @ drop (c + length bs) buf"
        have blit: "arr_blit buf c bs = Some ?buf" using bs True "1.prems" by (simp add: arr_blit_def)
        have len: "length ?buf = n" "c + nat r \<le> n" using bs True "1.prems" by auto
        have "recv_fill True n buf c es = recv_fill True n ?buf (c + nat r) es'" using True pos by (simp add: step t blit)
        with fill_result_step [OF _ bs(1,4) "1.prems"(1)] "1.hyps"(1) [OF True t refl refl pos blit len] bs(2) len(2)
        show ?thesis by simp
      next
        case zero
        then show ?thesis using rb(3) "1.prems" True t by (auto simp: step fill_result_def)
      next
        case neg
        then have "recv_fill True n buf c es = recv_fill True n buf c es'" using True by (simp add: step t)
        with neg rb(2) "1.hyps"(2) [OF True t refl refl] "1.prems" show ?thesis by (auto simp: fill_result_def)
      qed
    qed
  qed
qed

lemma recv_fill_correct:
  assumes "recv_fill True n buf c es = res" and "length buf = n" and "c \<le> n"
  shows "\<exists>e es'. res = Some (e, take c buf @ map Some (take (n - c) (ev_bytes es)) @ drop (c + length (ev_bytes es)) buf,
            min n (c + length (ev_bytes es)), es') \<and>
     ev_bytes es' = drop (n - c) (ev_bytes es) \<and>
     (e = Filled \<longleftrightarrow> n - c \<le> length (ev_bytes es)) \<and> (e = Closed \<longrightarrow> ev_ends es) \<and> (e = Stalled \<longrightarrow> \<not> ev_ends es) \<and>
     ev_ends es' = ev_ends es"
  using recv_fill_result [OF assms(2,3), of es] unfolding assms(1) fill_result_def .

end
