(* ===== verification/Logger.thy ===== *)
theory Logger
  imports Prelude
begin

text \<open>
  The logging macro of \<open>commons/logger/logger.h\<close>, and how a thread's control flow ends.
  \<open>LOG_ASSERT\<close> writes to the log and to standard output and then ends the process; the
  written text is not modelled, the exit is.
\<close>

datatype log_level_t = LL_NONE | LL_FATAL | LL_ERROR | LL_WARN | LL_INFO | LL_DEBUG | LL_TRACE

fun log_level_code :: "log_level_t \<Rightarrow> nat" where
  "log_level_code LL_NONE = 0"
| "log_level_code LL_FATAL = 1"
| "log_level_code LL_ERROR = 2"
| "log_level_code LL_WARN = 3"
| "log_level_code LL_INFO = 4"
| "log_level_code LL_DEBUG = 5"
| "log_level_code LL_TRACE = 6"

text \<open>
  How a run of a function over a finite list of system call results ends: it returned, the
  process exited with a status, or the next system call has not returned yet.
\<close>

datatype 'a run = Returned 'a | Exited int | Waiting

definition EXIT_FAILURE :: int where
  "EXIT_FAILURE = 1"

definition LOG_ASSERT :: "log_level_t \<Rightarrow> bool \<Rightarrow> 'a run \<Rightarrow> 'a run" where
  "LOG_ASSERT ll expr k = (if \<not> expr then Exited EXIT_FAILURE else k)"

lemma LOG_ASSERT_simps [simp]:
  "LOG_ASSERT ll True k = k"
  "LOG_ASSERT ll False k = Exited EXIT_FAILURE"
  by (simp_all add: LOG_ASSERT_def)

lemma LOG_ASSERT_Returned_iff: "LOG_ASSERT ll b k = Returned x \<longleftrightarrow> b \<and> k = Returned x"
  by (simp add: LOG_ASSERT_def)

end
