(* ===== verification/Pool.thy ===== *)
theory Pool
  imports Queue_Interface Io Logger
begin

text \<open>
  The state the receiver proxy's threads share (\<open>rx_proxy/boss_server.h\<close>), its initialisation
  (\<open>pool_init\<close> of \<open>boss_server.c\<close>), and the view of the pool as a set of sequence-numbered
  payloads that the later theories reason with.
\<close>

section \<open>Data\<close>

text \<open>
  \<open>pool_t\<close>; the condition variable is the number of signals sent on it. The mutex is not a
  field: what runs under it is one step of the system.
\<close>

record pool_t =
  pl_pq :: "node_t pqueue_t ref"
  pl_avail_min_seq :: int
  pl_sent_min_seq :: int
  pl_cond :: nat

text \<open>\<open>fqueue_t\<close>: the buffer holds pointers to payloads, 8 bytes each.\<close>

record fqueue_t =
  fq_buffer :: "byte arr arr"
  fq_byte_count :: int
  fq_byte_capacity :: int
  fq_sockfd :: int
  fq_state :: int
  fq_sent :: int

definition pool_init :: "bool \<Rightarrow> bool \<Rightarrow> pool_t" where
  "pool_init malloc_q malloc_d =
     \<lparr>pl_pq = pqueue_init malloc_q malloc_d 10 cmp_pri get_pri set_pri get_pos set_pos,
      pl_avail_min_seq = 0, pl_sent_min_seq = 0, pl_cond = 0\<rparr>"

section \<open>The pool as a set of numbered payloads\<close>

lemma unat_inj: "unat (a :: ulonglong) = unat b \<Longrightarrow> a = b"
  by (simp add: word_unat_eq_iff)

definition pool_items :: "node_t pqueue_t \<Rightarrow> node_t nheap \<Rightarrow> (nat \<times> byte arr) set" where
  "pool_items q h = (\<lambda>p. (unat (prio h p), node_raw h p)) ` pq_ptrs q"

text \<open>A valid queue in the receiver proxy's order, no two nodes with the same number.\<close>

definition rx_queue :: "node_t pqueue_t \<Rightarrow> node_t nheap \<Rightarrow> bool" where
  "rx_queue q h \<longleftrightarrow> pq_ok cmp_pri (q, h) \<and> inj_on (prio h) (pq_ptrs q)"

lemma pool_items_same_nodes: "same_nodes h h' \<Longrightarrow> pool_items q h' = pool_items q h"
  by (simp add: pool_items_def same_nodes_prio_fun same_nodes_raw)

lemma rx_queue_same_nodes:
  "same_nodes h h' \<Longrightarrow> pq_ok cmp_pri (q, h') \<Longrightarrow> inj_on (prio h) (pq_ptrs q) \<Longrightarrow> rx_queue q h'"
  by (simp add: rx_queue_def same_nodes_prio_fun)

lemma rx_queue_card: "rx_queue q h \<Longrightarrow> card (pool_items q h) = card (pq_ptrs q)"
  unfolding pool_items_def rx_queue_def by (intro card_image) (auto simp: inj_on_def dest: unat_inj)

text \<open>Popping and pushing in this view.\<close>

lemma rx_pop_empty:
  assumes "rx_queue q h" and "pool_items q h = {}"
  shows "pqueue_pop (Ref q) h = Some (Null, Ref q, h)"
proof -
  have "pq_pop (q, h) = Some (Null, (q, h))"
    using assms by (intro pq.pop_empty [of cmp_pri]) (auto simp: rx_queue_def pool_items_def)
  then have "q_size q = 1"
    using assms pq_empty_iff by (auto simp: rx_queue_def pq_ok_def pq_valid_def pool_items_def)
  then show ?thesis by (rule pqueue_pop_empty)
qed

lemma rx_pop:
  assumes rx: "rx_queue q h" and ne: "pool_items q h \<noteq> {}"
  obtains p q' h' where "pqueue_pop (Ref q) h = Some (Ref p, Ref q', h')"
    and "rx_queue q' h'" and "same_nodes h h'" and "q_size q' < q_avail q'" and "h' p \<noteq> None"
    and "(unat (prio h p), node_raw h p) \<in> pool_items q h"
    and "\<forall>(j, raw)\<in>pool_items q h. unat (prio h p) \<le> j"
    and "pool_items q' h' = pool_items q h - {(unat (prio h p), node_raw h p)}"
    and "prio h p \<notin> prio h ` pq_ptrs q'"
proof -
  from rx have ok: "pq_ok cmp_pri (q, h)" and inj: "inj_on (prio h) (pq_ptrs q)" by (auto simp: rx_queue_def)
  from ne have ptrs: "pq_ptrs q \<noteq> {}" by (auto simp: pool_items_def)
  obtain q' h' where pop: "pq_pop (q, h) = Some (Ref (slot q 1), (q', h'))" and ok': "pq_ok cmp_pri (q', h')"
    and ptrs': "pq_ptrs q' = pq_ptrs q - {slot q 1}" and same: "same_nodes h h'" and room: "q_size q' < q_avail q'"
    using pq_pop_facts [OF ok ptrs] by blast
  let ?p = "slot q 1"
  have least: "?p \<in> pq_ptrs q" "\<forall>y\<in>pq_ptrs q. prio h ?p \<le> prio h y"
    using pq.pop_least [OF ok] ptrs pop by (auto simp: cmp_pri_def not_less)
  from pop obtain qp where "pqueue_pop (Ref q) h = Some (Ref ?p, qp, h')" "the_ref qp = q'"
    by (auto simp: pq_pop_def)
  moreover from this pqueue_pop_Ref have "qp = Ref q'" by fastforce
  ultimately have "pqueue_pop (Ref q) h = Some (Ref ?p, Ref q', h')" by simp
  moreover have "rx_queue q' h'"
    using inj by (intro rx_queue_same_nodes [OF same ok']) (auto simp: ptrs' intro: inj_on_subset)
  moreover have "h' ?p \<noteq> None" using pq.pop_room [OF ok pop] by simp
  moreover have "pool_items q' h' = pool_items q h - {(unat (prio h ?p), node_raw h ?p)}"
    unfolding pool_items_same_nodes [OF same] unfolding pool_items_def ptrs'
    using least(1) inj by (auto simp: inj_on_def dest: unat_inj)
  moreover have "prio h ?p \<notin> prio h ` pq_ptrs q'"
    using least(1) inj by (auto simp: ptrs' inj_on_def)
  ultimately show thesis
    using least same room by (intro that) (auto simp: pool_items_def word_le_nat_alt)
qed

lemma rx_push:
  assumes rx: "rx_queue q h" and p: "h p \<noteq> None" "prio h p \<notin> prio h ` pq_ptrs q" and room: "pq_room r q"
  obtains q' h' where "pqueue_insert r (Ref q) h p = Some (0, Ref q', h')" and "rx_queue q' h'"
    and "same_nodes h h'" and "pool_items q' h' = insert (unat (prio h p), node_raw h p) (pool_items q h)"
    and "q_size q' = Suc (q_size q)" and "same_config q q'" and "pq_ptrs q' = insert p (pq_ptrs q)"
proof -
  from rx have v: "pq_valid q h" and cmp: "q_cmppri q = cmp_pri" and inj: "inj_on (prio h) (pq_ptrs q)"
    by (auto simp: rx_queue_def pq_ok_def)
  from p obtain n where n: "h p = Some n" by auto
  from p have np: "p \<notin> pq_ptrs q" by auto
  from pqueue_insert_correct [OF v n np room] obtain q' h' where
    ins: "pqueue_insert r (Ref q) h p = Some (0, Ref q', h')" and v': "pq_valid q' h'"
    and ptrs': "pq_ptrs q' = insert p (pq_ptrs q)" and size: "q_size q' = Suc (q_size q)"
    and same: "same_nodes h h'" and cfg: "same_config q q'" by blast
  have "inj_on (prio h) (pq_ptrs q')" unfolding ptrs' using inj p by (simp add: inj_on_insert) blast
  moreover have "pq_ok cmp_pri (q', h')" using v' cfg cmp by (simp add: pq_ok_def same_config_def)
  ultimately have "rx_queue q' h'" using same by (intro rx_queue_same_nodes)
  moreover have "pool_items q' h' = insert (unat (prio h p), node_raw h p) (pool_items q h)"
    unfolding pool_items_same_nodes [OF same] by (simp add: pool_items_def ptrs')
  ultimately show thesis using ins same size cfg ptrs' by (intro that)
qed

section \<open>Initialisation\<close>

lemma pool_init_queue:
  obtains q where "pl_pq (pool_init True True) = Ref q" and "rx_queue q h" and "pool_items q h = {}"
    and "q_size q = 1" and "q_step q = 11" and "q_avail q = 11"
proof -
  define q where "q = the_ref (pl_pq (pool_init True True))"
  have q: "pl_pq (pool_init True True) = Ref q" by (simp add: q_def pool_init_def pqueue_init_def)
  then have "pqueue_init True True 10 cmp_pri get_pri set_pri get_pos set_pos = Ref q" by (simp add: pool_init_def)
  note init = pqueue_init_correct [OF cmp_pri.pri_order_axioms _ this]
  have f: "q_size q = 1" "q_step q = 11" "q_avail q = 11" using init by simp_all
  have "rx_queue q h" and "pool_items q h = {}" using init by (simp_all add: rx_queue_def pq_ok_def pool_items_def)
  with q f show thesis by (intro that)
qed

end
