(* ===== verification/Link_Receptor.thy ===== *)
theory Link_Receptor
  imports Pool
begin

text \<open>
  The receiving threads of the receiver proxy, \<open>rx_proxy/link_receptor.c\<close>: \<open>rx_chain\<close> cuts
  the byte stream of one connection into packets and \<open>add2queue\<close> puts each into the pool.
\<close>

section \<open>Operations\<close>

text \<open>
  \<open>add2queue\<close>: \<open>ns\<close> is the pointer \<open>malloc\<close> returned for the node, \<open>be\<close> the byte order of the
  host. The position of the fresh node is indeterminate until the queue sets it. The result
  of \<open>pqueue_insert\<close> is ignored.
\<close>

definition add2queue ::
  "bool \<Rightarrow> bool \<Rightarrow> pool_t \<Rightarrow> node_t nheap \<Rightarrow> nptr \<Rightarrow> byte arr \<Rightarrow> (pool_t \<times> node_t nheap) option" where
  "add2queue be realloc_ok pl h ns raw_packet = do {
     packet \<leftarrow> cast_packet be raw_packet;
     let h1 = h(ns \<mapsto> \<lparr>n_pri = ucast (ep_seq packet), n_raw_packet = ep_raw_packet packet, n_pos = 0\<rparr>);
     (_, pq, h2) \<leftarrow> pqueue_insert realloc_ok (pl_pq pl) h1 ns;
     a \<leftarrow> cint (pl_avail_min_seq pl + 1);
     s \<leftarrow> cint (pl_sent_min_seq pl + 1);
     let pl1 = pl\<lparr>pl_pq := pq,
       pl_avail_min_seq := (if a = uint (ep_seq packet) then a else pl_avail_min_seq pl)\<rparr>;
     Some (if s = uint (ep_seq packet) then pl1\<lparr>pl_cond := pl_cond pl1 + 1\<rparr> else pl1, h2)
   }"

text \<open>
  \<open>rx_chain\<close>: the environment supplies the results of \<open>poll\<close>, what the socket delivers, and
  for each packet the pointer of its node and whether the queue could grow.
\<close>

fun rx_chain :: "bool \<Rightarrow> int list \<Rightarrow> recv_ev list \<Rightarrow> (nptr \<times> bool) list \<Rightarrow> pool_t \<Rightarrow> node_t nheap \<Rightarrow>
    (unit run \<times> pool_t \<times> node_t nheap) option" where
  "rx_chain be [] es ms pl h = Some (Waiting, pl, h)"
| "rx_chain be (r # polls) es ms pl h =
     (if r > 0
      then do {
        (e, raw_buf, recv_count, es') \<leftarrow> recv_fill True PACKET_SIZE (arr_new PACKET_SIZE) 0 es;
        (case e of
           Stalled \<Rightarrow> Some (Waiting, pl, h)
         | Closed \<Rightarrow>
             if recv_count > 0
             then (case ms of
                     [] \<Rightarrow> Some (Waiting, pl, h)
                   | (ns, ok) # _ \<Rightarrow> do {
                       (pl', h') \<leftarrow> add2queue be ok pl h ns raw_buf;
                       Some (Returned (), pl', h')
                     })
             else Some (Returned (), pl, h)
         | Filled \<Rightarrow>
             (case ms of
                [] \<Rightarrow> Some (Waiting, pl, h)
              | (ns, ok) # ms' \<Rightarrow> do {
                  (pl', h') \<leftarrow> add2queue be ok pl h ns raw_buf;
                  rx_chain be polls es' ms' pl' h'
                }))
      }
      else rx_chain be polls es ms pl h)"

section \<open>One packet\<close>

lemma prio_fresh: "prio (h(ns \<mapsto> n)) p = (if p = ns then n_pri n else prio h p)"
  by (simp add: prio_def)

lemma node_raw_fresh: "node_raw (h(ns \<mapsto> n)) p = (if p = ns then n_raw_packet n else node_raw h p)"
  by (simp add: node_raw_def)

lemma pq_valid_fresh:
  assumes "pq_valid q h" and "h ns = None"
  shows "pq_valid q (h(ns \<mapsto> n))" and "ns \<notin> pq_ptrs q"
proof -
  have inv: "pq_inv q h" using assms by (simp add: pq_valid_def)
  show ns: "ns \<notin> pq_ptrs q"
  proof
    assume "ns \<in> pq_ptrs q"
    then obtain m where "h ns = Some m" using pq_ptrs_node [OF inv] by blast
    with assms(2) show False by simp
  qed
  have slots: "slot q j \<noteq> ns" if "1 \<le> j" "j < q_size q" for j using ns that by (auto simp: pq_ptrs_def)
  have "slot_ok q (h(ns \<mapsto> n)) j" if "1 \<le> j" "j < q_size q" for j
  proof -
    have "slot_ok q h j" using inv that by (simp add: pq_inv_def)
    then obtain m where "q_d q ! j = Some (slot q j)" "h (slot q j) = Some m" "n_pos m = j" by (rule slot_okD)
    with slots [OF that] show ?thesis by (simp add: slot_ok_def)
  qed
  with inv have "pq_inv q (h(ns \<mapsto> n))" by (simp add: pq_inv_def)
  moreover have "pq_order q (h(ns \<mapsto> n))"
  proof -
    have "prio (h(ns \<mapsto> n)) (slot q j) = prio h (slot q j)" if "1 \<le> j" "j < q_size q" for j
      using slots [OF that] by (simp add: prio_fresh)
    moreover have "1 \<le> j div 2 \<and> j div 2 < q_size q" if "2 \<le> j" "j < q_size q" for j using that by auto
    ultimately show ?thesis using assms(1) by (simp add: pq_valid_def pq_order_def heap_ok_def)
  qed
  ultimately show "pq_valid q (h(ns \<mapsto> n))" by (simp add: pq_valid_def)
qed

lemma rx_queue_fresh:
  assumes "rx_queue q h" and "h ns = None"
  shows "rx_queue q (h(ns \<mapsto> n))" and "pool_items q (h(ns \<mapsto> n)) = pool_items q h" and "ns \<notin> pq_ptrs q"
proof -
  have v: "pq_valid q h" using assms by (simp add: rx_queue_def pq_ok_def)
  show ns: "ns \<notin> pq_ptrs q" by (rule pq_valid_fresh [OF v assms(2)])
  show "pool_items q (h(ns \<mapsto> n)) = pool_items q h"
    unfolding pool_items_def by (rule image_cong) (use ns in \<open>auto simp: prio_fresh node_raw_fresh\<close>)
  show "rx_queue q (h(ns \<mapsto> n))"
    using assms(1) pq_valid_fresh(1) [OF v assms(2)] ns
    by (auto simp: rx_queue_def pq_ok_def inj_on_def prio_fresh)
qed

text \<open>The counters and the signal of \<open>add2queue\<close>.\<close>

definition add2queue_counters :: "pool_t \<Rightarrow> ushort \<Rightarrow> node_t pqueue_t ref \<Rightarrow> pool_t" where
  "add2queue_counters pl seq pq = pl\<lparr>pl_pq := pq,
     pl_avail_min_seq := (if pl_avail_min_seq pl + 1 = uint seq then pl_avail_min_seq pl + 1 else pl_avail_min_seq pl),
     pl_cond := (if pl_sent_min_seq pl + 1 = uint seq then pl_cond pl + 1 else pl_cond pl)\<rparr>"

lemma uint_ushort_nat: "unat (ucast (s :: ushort) :: ulonglong) = unat s"
proof -
  have "unat s < 2 ^ 16" using unsigned_less [of s, where ?'a = nat] by simp
  then show ?thesis by (simp add: unsigned_ucast_eq take_bit_nat_eq_self)
qed

lemma add2queue_correct:
  assumes pq: "pl_pq pl = Ref q" and rx: "rx_queue q h" and fresh: "h ns = None"
    and new: "unat (ep_seq pkt) \<notin> fst ` pool_items q h" and room: "pq_room ok q"
    and rng: "int_range (pl_avail_min_seq pl + 1)" "int_range (pl_sent_min_seq pl + 1)"
  shows "\<exists>q' h'. add2queue be ok pl h ns (packet_bytes be pkt) =
      Some (add2queue_counters pl (ep_seq pkt) (Ref q'), h') \<and> rx_queue q' h' \<and>
    pool_items q' h' = insert (unat (ep_seq pkt), ep_raw_packet pkt) (pool_items q h) \<and>
    q_size q' = Suc (q_size q) \<and> same_config q q' \<and>
    (\<forall>p. p \<noteq> ns \<longrightarrow> (h' p = None \<longleftrightarrow> h p = None))"
proof -
  let ?n = "\<lparr>n_pri = ucast (ep_seq pkt), n_raw_packet = ep_raw_packet pkt, n_pos = 0\<rparr>"
  let ?h = "h(ns \<mapsto> ?n)"
  note fr = rx_queue_fresh(1,2) [OF rx fresh, where n = ?n]
  have ns: "prio ?h ns = ucast (ep_seq pkt)" "node_raw ?h ns = ep_raw_packet pkt" "?h ns \<noteq> None"
    by (simp_all add: prio_fresh node_raw_fresh)
  have np: "prio ?h ns \<notin> prio ?h ` pq_ptrs q"
  proof
    assume "prio ?h ns \<in> prio ?h ` pq_ptrs q"
    then obtain p where p: "p \<in> pq_ptrs q" "prio ?h p = ucast (ep_seq pkt)" using ns by auto
    then have "(unat (ep_seq pkt), node_raw ?h p) \<in> pool_items q ?h"
      by (auto simp: pool_items_def image_iff uint_ushort_nat intro!: bexI [of _ p])
    with new fr(2) show False by force
  qed
  obtain q' h' where
    ins: "pqueue_insert ok (Ref q) ?h ns = Some (0, Ref q', h')" and rx': "rx_queue q' h'"
    and same: "same_nodes ?h h'" and items: "pool_items q' h' = insert (unat (prio ?h ns), node_raw ?h ns) (pool_items q ?h)"
    and size: "q_size q' = Suc (q_size q)" and cfg: "same_config q q'" and "pq_ptrs q' = insert ns (pq_ptrs q)"
    by (rule rx_push [OF fr(1) ns(3) np room])
  have "add2queue be ok pl h ns (packet_bytes be pkt) = Some (add2queue_counters pl (ep_seq pkt) (Ref q'), h')"
    using rng by (simp add: add2queue_def cast_packet_bytes pq ins add2queue_counters_def)
  moreover have "h' p = None \<longleftrightarrow> h p = None" if "p \<noteq> ns" for p
    using same_nodes_None [OF same, of p] that by simp
  ultimately show ?thesis
    using rx' items size cfg by (auto simp: ns fr(2) uint_ushort_nat)
qed

section \<open>A whole connection\<close>

text \<open>
  One packet taken from the stream, whatever the chunking: the fill loop completes with the
  bytes of the packet and leaves the rest of the stream.
\<close>

lemma recv_fill_packet:
  assumes "map Some (ev_bytes es) = packet_bytes be p @ rest" and "length (ep_raw_packet p) = BLOCKSIZE"
  shows "\<exists>es'. recv_fill True PACKET_SIZE (arr_new PACKET_SIZE) 0 es =
      Some (Filled, packet_bytes be p, PACKET_SIZE, es') \<and>
    map Some (ev_bytes es') = rest \<and> ev_ends es' = ev_ends es"
proof -
  have len: "length (packet_bytes be p) = PACKET_SIZE" using assms by (simp add: length_packet_bytes)
  have tot: "length (ev_bytes es) = PACKET_SIZE + length rest"
    using arg_cong [OF assms(1), of length] len by simp
  have bytes: "map Some (take PACKET_SIZE (ev_bytes es)) = packet_bytes be p"
    "map Some (drop PACKET_SIZE (ev_bytes es)) = rest"
    using assms(1) len by (simp_all add: take_map [symmetric] drop_map [symmetric])
  obtain e es' where f: "recv_fill True PACKET_SIZE (arr_new PACKET_SIZE) 0 es =
      Some (e, map Some (take PACKET_SIZE (ev_bytes es)) @ drop (length (ev_bytes es)) (arr_new PACKET_SIZE),
        min PACKET_SIZE (length (ev_bytes es)), es')"
    and "ev_bytes es' = drop PACKET_SIZE (ev_bytes es)" "e = Filled" "ev_ends es' = ev_ends es"
    using recv_fill_correct [of PACKET_SIZE "arr_new PACKET_SIZE" 0 es] tot by auto
  then show ?thesis using tot bytes by (intro exI [of _ es']) simp
qed

lemma recv_fill_no_more:
  assumes "ev_bytes es = []" and "ev_ends es"
  shows "\<exists>es'. recv_fill True PACKET_SIZE (arr_new PACKET_SIZE) 0 es = Some (Closed, arr_new PACKET_SIZE, 0, es')"
proof -
  obtain e es' where f: "recv_fill True PACKET_SIZE (arr_new PACKET_SIZE) 0 es = Some (e, arr_new PACKET_SIZE, 0, es')"
    and e: "e = Filled \<longleftrightarrow> PACKET_SIZE \<le> 0" "e = Stalled \<longrightarrow> \<not> ev_ends es"
    using recv_fill_correct [of PACKET_SIZE "arr_new PACKET_SIZE" 0 es] assms(1) by auto
  then show ?thesis using assms(2) by (cases e) (auto simp: PACKET_SIZE_def)
qed

text \<open>
  What a connection that carries the packets \<open>pkts\<close> needs of the receiver: numbers not yet in
  the pool, memory for the nodes, and counters in range.
\<close>

definition numbered_once :: "encaps_packet_t list \<Rightarrow> node_t pqueue_t \<Rightarrow> node_t nheap \<Rightarrow> bool" where
  "numbered_once pkts q h \<longleftrightarrow> distinct (map (\<lambda>p. unat (ep_seq p)) pkts) \<and>
     (\<forall>p\<in>set pkts. length (ep_raw_packet p) = BLOCKSIZE \<and> unat (ep_seq p) \<notin> fst ` pool_items q h)"

definition nodes_for :: "encaps_packet_t list \<Rightarrow> (nptr \<times> bool) list \<Rightarrow> node_t pqueue_t \<Rightarrow> node_t nheap \<Rightarrow> bool" where
  "nodes_for pkts ms q h \<longleftrightarrow> length pkts \<le> length ms \<and> distinct (map fst ms) \<and>
     (\<forall>m\<in>set ms. h (fst m) = None \<and> snd m) \<and> q_size q + length pkts + q_step q < 2 ^ 61"

definition counters_ok :: "pool_t \<Rightarrow> bool" where
  "counters_ok pl \<longleftrightarrow> int_range (pl_avail_min_seq pl + 1) \<and> int_range (pl_sent_min_seq pl + 1)"

lemma counters_ok_step: "counters_ok pl \<Longrightarrow> counters_ok (add2queue_counters pl seq pq)"
  using unsigned_less [of seq, where ?'a = int]
  by (auto simp: counters_ok_def add2queue_counters_def int_range_def)

text \<open>When the queue is full and cannot grow, \<open>add2queue\<close> goes on without the packet.\<close>

lemma add2queue_full:
  assumes "pl_pq pl = Ref q" and "q_avail q \<le> q_size q" and "rx_queue q h" and "h ns = None" and "counters_ok pl"
  shows "\<exists>h'. add2queue be False pl h ns (packet_bytes be p) = Some (add2queue_counters pl (ep_seq p) (Ref q), h') \<and>
    rx_queue q h' \<and> pool_items q h' = pool_items q h"
  using assms rx_queue_fresh(1,2) [OF assms(3,4)]
  by (simp add: add2queue_def cast_packet_bytes pqueue_insert_def counters_ok_def add2queue_counters_def)

lemma rx_chain_skip: "r \<le> 0 \<Longrightarrow> rx_chain be (r # polls) es ms pl h = rx_chain be polls es ms pl h"
  by simp

text \<open>One packet: it goes into the pool, and the rest of the connection still finds what it needs.\<close>

lemma rx_chain_packet:
  assumes "map Some (ev_bytes es) = concat (map (packet_bytes be) (p # ps))" and "ev_ends es"
    and "pl_pq pl = Ref q" and "rx_queue q h" and "numbered_once (p # ps) q h" and "nodes_for (p # ps) ms q h"
    and "counters_ok pl" and "r > 0"
  obtains es' ms' q1 h1 where "rx_chain be (r # polls) es ms pl h =
      rx_chain be polls es' ms' (add2queue_counters pl (ep_seq p) (Ref q1)) h1"
    and "map Some (ev_bytes es') = concat (map (packet_bytes be) ps)" and "ev_ends es'" and "rx_queue q1 h1"
    and "numbered_once ps q1 h1" and "nodes_for ps ms' q1 h1"
    and "pool_items q1 h1 = insert (unat (ep_seq p), ep_raw_packet p) (pool_items q h)"
proof -
  obtain ns ms' where ms: "ms = (ns, True) # ms'" using assms(6) by (cases ms) (auto simp: nodes_for_def)
  obtain es' where fill: "recv_fill True PACKET_SIZE (arr_new PACKET_SIZE) 0 es =
      Some (Filled, packet_bytes be p, PACKET_SIZE, es')"
    and es': "map Some (ev_bytes es') = concat (map (packet_bytes be) ps)" "ev_ends es'"
    using recv_fill_packet [of es be p "concat (map (packet_bytes be) ps)"] assms(1,2,5) by (auto simp: numbered_once_def)
  have "pq_room True q" using assms(6) by (auto simp: nodes_for_def pq_room_def)
  then obtain q1 h1 where add: "add2queue be True pl h ns (packet_bytes be p) =
      Some (add2queue_counters pl (ep_seq p) (Ref q1), h1)" and rx1: "rx_queue q1 h1"
    and items1: "pool_items q1 h1 = insert (unat (ep_seq p), ep_raw_packet p) (pool_items q h)"
    and size1: "q_size q1 = Suc (q_size q)" and cfg1: "same_config q q1"
    and live1: "\<forall>x. x \<noteq> ns \<longrightarrow> (h1 x = None \<longleftrightarrow> h x = None)"
    using add2queue_correct [OF assms(3,4), of ns p True be] assms(5-7) ms
    by (auto simp: numbered_once_def nodes_for_def counters_ok_def)
  have "nodes_for ps ms' q1 h1" using assms(6) ms live1 size1 cfg1 by (force simp: nodes_for_def same_config_def)
  moreover have "numbered_once ps q1 h1" using assms(5) by (auto simp: numbered_once_def items1 image_iff)
  moreover have "rx_chain be (r # polls) es ms pl h =
      rx_chain be polls es' ms' (add2queue_counters pl (ep_seq p) (Ref q1)) h1"
    using assms(8) by (simp add: ms fill add)
  ultimately show thesis using es' rx1 items1 by (intro that)
qed

text \<open>C4: however the kernel cuts the byte stream of a connection, and with receive
  errors in between, \<open>rx_chain\<close> puts exactly the packets sent on it into the pool, and returns
  when the stream ends. The packets have numbers of their own, memory is found for each of
  them, the counters are in range and \<open>poll\<close> reports one readable event more than there are
  packets.\<close>

theorem rx_chain_packets:
  assumes "map Some (ev_bytes es) = concat (map (packet_bytes be) pkts)" and "ev_ends es"
    and "pl_pq pl = Ref q" and "rx_queue q h" and "numbered_once pkts q h" and "nodes_for pkts ms q h"
    and "counters_ok pl" and "length pkts < length (filter (\<lambda>r. r > 0) polls)"
  shows "\<exists>pl' q' h'. rx_chain be polls es ms pl h = Some (Returned (), pl', h') \<and> pl_pq pl' = Ref q' \<and>
    rx_queue q' h' \<and>
    pool_items q' h' = pool_items q h \<union> set (map (\<lambda>p. (unat (ep_seq p), ep_raw_packet p)) pkts)"
  using assms
proof (induction polls arbitrary: pkts es ms pl q h)
  case (Cons r polls)
  show ?case
  proof (cases "r > 0")
    case False
    with Cons.prems Cons.IH [of es pkts pl q h ms] show ?thesis by (simp add: rx_chain_skip)
  next
    case True
    show ?thesis
    proof (cases pkts)
      case Nil
      with Cons.prems(1,2) obtain es' where
        "recv_fill True PACKET_SIZE (arr_new PACKET_SIZE) 0 es = Some (Closed, arr_new PACKET_SIZE, 0, es')"
        using recv_fill_no_more [of es] by auto
      with True Nil Cons.prems(3,4) show ?thesis by simp
    next
      case (Cons p ps)
      obtain es' ms' q1 h1 where eq: "rx_chain be (r # polls) es ms pl h =
          rx_chain be polls es' ms' (add2queue_counters pl (ep_seq p) (Ref q1)) h1"
        and rest: "map Some (ev_bytes es') = concat (map (packet_bytes be) ps)" "ev_ends es'" "rx_queue q1 h1"
          "numbered_once ps q1 h1" "nodes_for ps ms' q1 h1"
        and items: "pool_items q1 h1 = insert (unat (ep_seq p), ep_raw_packet p) (pool_items q h)"
        using Cons.prems True unfolding Cons by (elim rx_chain_packet)
      have "\<exists>pl' q' h'. rx_chain be polls es' ms' (add2queue_counters pl (ep_seq p) (Ref q1)) h1 = Some (Returned (), pl', h') \<and>
          pl_pq pl' = Ref q' \<and> rx_queue q' h' \<and>
          pool_items q' h' = pool_items q1 h1 \<union> set (map (\<lambda>p. (unat (ep_seq p), ep_raw_packet p)) ps)"
        using Cons.prems(7,8) True Cons by (intro Cons.IH rest counters_ok_step) (auto simp: add2queue_counters_def)
      then show ?thesis unfolding eq items by (simp add: Cons)
    qed
  qed
qed simp

text \<open>
  A connection that ends inside a packet. The fragment is put into the pool as a packet
  whose missing payload bytes are whatever \<open>malloc\<close> returned; a fragment of one byte has not
  even a sequence number.
\<close>

lemma recv_fill_fragment:
  assumes "ev_bytes es = bs" and "ev_ends es" and "length bs < PACKET_SIZE"
  shows "\<exists>es'. recv_fill True PACKET_SIZE (arr_new PACKET_SIZE) 0 es =
    Some (Closed, map Some bs @ arr_new (PACKET_SIZE - length bs), length bs, es')"
proof -
  obtain e es' where f: "recv_fill True PACKET_SIZE (arr_new PACKET_SIZE) 0 es =
      Some (e, map Some (take PACKET_SIZE bs) @ drop (length bs) (arr_new PACKET_SIZE), min PACKET_SIZE (length bs), es')"
    and e: "e = Filled \<longleftrightarrow> PACKET_SIZE \<le> length bs" "e = Stalled \<longrightarrow> \<not> ev_ends es"
    using recv_fill_correct [of PACKET_SIZE "arr_new PACKET_SIZE" 0 es] assms(1) by auto
  then show ?thesis using assms(2,3) by (cases e) (auto simp: arr_new_def)
qed

text \<open>C21: a connection that ends inside a packet, after its sequence number: the
  fragment is put into the pool under that number, and the missing bytes of its payload are
  indeterminate.\<close>

theorem rx_chain_fragment:
  assumes "map Some (ev_bytes es) @ arr_new k = packet_bytes be p" and "ev_ends es"
    and "length (ep_raw_packet p) = BLOCKSIZE" and "0 < k" and "k \<le> BLOCKSIZE"
    and "pl_pq pl = Ref q" and "rx_queue q h" and "numbered_once [p] q h" and "nodes_for [p] ((ns, ok) # ms) q h"
    and "counters_ok pl"
  shows "\<exists>pl' q' h'. rx_chain be (1 # polls) es ((ns, ok) # ms) pl h = Some (Returned (), pl', h') \<and>
    pl_pq pl' = Ref q' \<and> rx_queue q' h' \<and>
    pool_items q' h' = insert (unat (ep_seq p), ep_raw_packet p) (pool_items q h)"
proof -
  have len: "length (ev_bytes es) + k = PACKET_SIZE"
    using arg_cong [OF assms(1), of length] assms(3) by (simp add: length_packet_bytes)
  then obtain es' where "recv_fill True PACKET_SIZE (arr_new PACKET_SIZE) 0 es =
      Some (Closed, packet_bytes be p, length (ev_bytes es), es')"
    using recv_fill_fragment [OF refl assms(2)] assms(1,4) by (metis add_diff_cancel_left' less_add_same_cancel1)
  moreover have "0 < length (ev_bytes es)" using len assms(5) by (cases "ev_bytes es") (auto simp: PACKET_SIZE_def)
  moreover have "pq_room ok q" using assms(9) by (auto simp: nodes_for_def pq_room_def)
  then obtain q1 h1 where "add2queue be ok pl h ns (packet_bytes be p) =
      Some (add2queue_counters pl (ep_seq p) (Ref q1), h1)" "rx_queue q1 h1"
    "pool_items q1 h1 = insert (unat (ep_seq p), ep_raw_packet p) (pool_items q h)"
    using add2queue_correct [OF assms(6,7), of ns p ok be] assms(8-10)
    by (auto simp: numbered_once_def nodes_for_def counters_ok_def)
  ultimately show ?thesis by (simp add: add2queue_counters_def)
qed

text \<open>A connection that ends after the first byte of a packet makes \<open>add2queue\<close>
  read an indeterminate byte of the sequence number.\<close>

lemma rx_chain_one_byte:
  assumes "ev_bytes es = [b]" and "ev_ends es"
  shows "rx_chain be (1 # polls) es ((ns, ok) # ms) pl h = None"
proof -
  obtain es' where "recv_fill True PACKET_SIZE (arr_new PACKET_SIZE) 0 es =
      Some (Closed, Some b # arr_new (PACKET_SIZE - 1), 1, es')"
    using recv_fill_fragment [OF assms] by (auto simp: PACKET_SIZE_def BLOCKSIZE_def)
  then show ?thesis
    by (simp add: add2queue_def cast_packet_def arr_get_def PACKET_SIZE_def BLOCKSIZE_def arr_new_def)
qed

end
