(* ===== verification/Forward.thy ===== *)
theory Forward
  imports Link_Receptor
begin

text \<open>
  The forwarding thread of the receiver proxy, \<open>rx_proxy/forward.c\<close>: \<open>fill_queue\<close> takes the
  consecutively numbered packets out of the pool, \<open>forward_data\<close> writes their payloads to the
  destination, \<open>forward_loop\<close> repeats the two.
\<close>

section \<open>Taking packets out of the pool\<close>

text \<open>\<open>INIT_QUEUE_SIZE\<close> bytes.\<close>

definition INIT_QUEUE_SIZE :: int where
  "INIT_QUEUE_SIZE = 8 * 1000"

text \<open>The extension of the buffer; \<open>realloc\<close> takes bytes, a slot has 8 of them.\<close>

definition fill_extend :: "fqueue_t \<Rightarrow> fqueue_t option" where
  "fill_extend fq = do {
     diff \<leftarrow> cint (fq_byte_capacity fq - fq_byte_count fq);
     if diff < 10 * int BLOCKSIZE
     then do {
       c \<leftarrow> cint (fq_byte_capacity fq * 2);
       Some (fq\<lparr>fq_byte_capacity := c, fq_buffer := arr_realloc (fq_buffer fq) (nat c div 8)\<rparr>)
     }
     else Some fq
   }"

text \<open>
  The inner loop of \<open>fill_queue\<close>; \<open>r\<close> is whether the queue could grow when a packet is put
  back.
\<close>

function fill_loop :: "bool \<Rightarrow> node_t pqueue_t ref \<Rightarrow> node_t nheap \<Rightarrow> fqueue_t \<Rightarrow> int \<Rightarrow>
    (int \<times> node_t pqueue_t ref \<times> node_t nheap \<times> fqueue_t) option" where
  "fill_loop r pq h fq pack_cnt = do {
     (ns, pq1, h1) \<leftarrow> pqueue_pop pq h;
     fq1 \<leftarrow> fill_extend fq;
     (case ns of
        Null \<Rightarrow> Some (pack_cnt, pq1, h1, fq1)
      | Ref p \<Rightarrow> do {
          n \<leftarrow> h1 p;
          a \<leftarrow> cint (fq_sent fq1 + pack_cnt);
          next_seq \<leftarrow> cint (a + 1);
          if pri_int (n_pri n) = next_seq
          then do {
            buf \<leftarrow> arr_set (fq_buffer fq1) (nat pack_cnt) (n_raw_packet n);
            c \<leftarrow> cint (pack_cnt + 1);
            b \<leftarrow> cint (fq_byte_count fq1 + 8);
            fill_loop r pq1 h1 (fq1\<lparr>fq_buffer := buf, fq_byte_count := b\<rparr>) c
          }
          else do {
            (_, pq2, h2) \<leftarrow> pqueue_insert r pq1 h1 p;
            Some (pack_cnt, pq2, h2, fq1)
          }
        })
   }"
  by pat_completeness auto
termination
  by (relation "measure (\<lambda>(r, pq, h, fq, c). pop_rank pq)") (auto dest: pqueue_pop_rank)

declare fill_loop.simps [simp del]

definition fill_queue :: "bool \<Rightarrow> node_t pqueue_t ref \<Rightarrow> node_t nheap \<Rightarrow> fqueue_t \<Rightarrow>
    (int \<times> node_t pqueue_t ref \<times> node_t nheap \<times> fqueue_t) option" where
  "fill_queue r pq h fq0 = do {
     let fq = fq0\<lparr>fq_buffer := arr_new (10 * BLOCKSIZE div 8)\<rparr>;
     (ns, pq1, h1) \<leftarrow> pqueue_pop pq h;
     (case ns of
        Null \<Rightarrow> Some (-1, pq1, h1, fq)
      | Ref p \<Rightarrow> do {
          n \<leftarrow> h1 p;
          next_seq \<leftarrow> cint (fq_sent fq + 1);
          if pri_int (n_pri n) \<noteq> next_seq
          then do {
            (_, pq2, h2) \<leftarrow> pqueue_insert r pq1 h1 p;
            Some (-1, pq2, h2, fq)
          }
          else do {
            buf \<leftarrow> arr_set (fq_buffer fq) 0 (n_raw_packet n);
            fill_loop r pq1 h1 (fq\<lparr>fq_buffer := buf\<rparr>) 1
          }
        })
   }"

section \<open>Writing to the destination\<close>

text \<open>
  The inner loop of \<open>forward_data\<close> for one packet. Every \<open>send\<close> starts at the first byte of
  the payload; a result that is not positive is retried.
\<close>

fun send_block :: "byte arr \<Rightarrow> nat \<Rightarrow> int list \<Rightarrow> fill_end \<times> byte arr \<times> int list" where
  "send_block raw byte [] = ((if byte < BLOCKSIZE then Stalled else Filled), [], [])"
| "send_block raw byte (r # rs) =
     (if byte < BLOCKSIZE
      then let numbytes = send_count r (BLOCKSIZE - byte) in
        if numbytes > 0
        then case send_block raw (byte + nat numbytes) rs of
               (e, wire, rs') \<Rightarrow> (e, take (nat numbytes) raw @ wire, rs')
        else send_block raw byte rs
      else (Filled, [], r # rs))"

text \<open>The \<open>for\<close> loop from \<open>cnt\<close> on, k packets left.\<close>

fun forward_from :: "nat \<Rightarrow> nat \<Rightarrow> fqueue_t \<Rightarrow> int list \<Rightarrow> (fill_end \<times> byte arr \<times> fqueue_t \<times> int list) option" where
  "forward_from 0 cnt fq rs = Some (Filled, [], fq, rs)"
| "forward_from (Suc k) cnt fq rs = do {
     raw \<leftarrow> arr_get (fq_buffer fq) cnt;
     (case send_block raw 0 rs of
        (e, wire, rs1) \<Rightarrow>
          if e \<noteq> Filled then Some (e, wire, fq, rs1)
          else do {
            s \<leftarrow> cint (fq_sent fq + 1);
            (e', wire', fq', rs') \<leftarrow> forward_from k (Suc cnt) (fq\<lparr>fq_sent := s\<rparr>) rs1;
            Some (e', wire @ wire', fq', rs')
          })
   }"

text \<open>\<open>forward_data\<close>; the buffer is freed at the end.\<close>

definition forward_data :: "fqueue_t \<Rightarrow> int \<Rightarrow> int list \<Rightarrow> (fill_end \<times> byte arr \<times> fqueue_t \<times> int list) option" where
  "forward_data fq pack_cnt rs = do {
     (e, wire, fq', rs') \<leftarrow> forward_from (nat pack_cnt) 0 fq rs;
     Some (e, wire, if e = Filled then fq'\<lparr>fq_buffer := []\<rparr> else fq', rs')
   }"

section \<open>The loop\<close>

text \<open>
  Whether the forwarding thread holds the mutex of the pool, after \<open>pthread_mutex_lock\<close> and
  \<open>pthread_mutex_unlock\<close> with result \<open>ret\<close>, and after \<open>pthread_cond_timedwait\<close>, which gives the
  mutex up while it waits and takes it again before it returns, also at a timeout. Waiting
  with a mutex that is not held, and releasing it, are undefined.
\<close>

definition mutex_lock :: "int \<Rightarrow> bool" where
  "mutex_lock ret = (ret = 0)"

definition mutex_unlock :: "bool \<Rightarrow> int \<Rightarrow> bool option" where
  "mutex_unlock held ret = (if held then Some (ret \<noteq> 0) else None)"

definition cond_timedwait :: "bool \<Rightarrow> bool option" where
  "cond_timedwait held = (if held then Some True else None)"

text \<open>
  An iteration of \<open>forward_loop\<close> from the call of \<open>pthread_mutex_unlock\<close> on: \<open>unlock\<close> is its
  result, \<open>rs\<close> those of \<open>send\<close>. With the fill before it, it is the iteration after the wait.
\<close>

definition forward_unlocked :: "int \<Rightarrow> int list \<Rightarrow> int \<Rightarrow> pool_t \<Rightarrow> node_t nheap \<Rightarrow> fqueue_t \<Rightarrow>
    (unit run \<times> byte arr \<times> pool_t \<times> node_t nheap \<times> fqueue_t) option" where
  "forward_unlocked unlock rs pack_cnt pl h fq =
     (if unlock \<noteq> 0 then Some (LOG_ASSERT LL_ERROR (unlock = 0) (Returned ()), [], pl, h, fq)
      else if pack_cnt \<noteq> -1
      then do {
        (e, wire, fq', _) \<leftarrow> forward_data fq pack_cnt rs;
        if e = Filled
        then do {
          s \<leftarrow> cint (pl_sent_min_seq pl + pack_cnt);
          Some (Returned (), wire, pl\<lparr>pl_sent_min_seq := s\<rparr>, h, fq')
        }
        else Some (Waiting, wire, pl, h, fq')
      }
      else Some (Returned (), [], pl, h, fq))"

definition forward_round :: "bool \<Rightarrow> int \<Rightarrow> int list \<Rightarrow> pool_t \<Rightarrow> node_t nheap \<Rightarrow> fqueue_t \<Rightarrow>
    (unit run \<times> byte arr \<times> pool_t \<times> node_t nheap \<times> fqueue_t) option" where
  "forward_round r unlock rs pl h fq = do {
     (pack_cnt, pq, h1, fq1) \<leftarrow> fill_queue r (pl_pq pl) h fq;
     forward_unlocked unlock rs pack_cnt (pl\<lparr>pl_pq := pq\<rparr>) h1 fq1
   }"

text \<open>\<open>forward_loop\<close> over a finite list of iterations, with whether the thread holds the mutex.\<close>

fun forward_rounds :: "bool \<Rightarrow> (bool \<times> int \<times> int list) list \<Rightarrow> pool_t \<Rightarrow> node_t nheap \<Rightarrow> fqueue_t \<Rightarrow>
    (unit run \<times> byte arr \<times> pool_t \<times> node_t nheap \<times> fqueue_t) option" where
  "forward_rounds held [] pl h fq = Some (Waiting, [], pl, h, fq)"
| "forward_rounds held ((r, unlock, rs) # rounds) pl h fq = do {
     held1 \<leftarrow> cond_timedwait held;
     (pack_cnt, pq, h1, fq1) \<leftarrow> fill_queue r (pl_pq pl) h fq;
     held2 \<leftarrow> mutex_unlock held1 unlock;
     (e, wire, pl1, h2, fq2) \<leftarrow> forward_unlocked unlock rs pack_cnt (pl\<lparr>pl_pq := pq\<rparr>) h1 fq1;
     (case e of
        Returned u \<Rightarrow> do {
          (e', wire', pl2, h3, fq3) \<leftarrow> forward_rounds held2 rounds pl1 h2 fq2;
          Some (e', wire @ wire', pl2, h3, fq3)
        }
      | _ \<Rightarrow> Some (e, wire, pl1, h2, fq2))
   }"

definition forward_loop :: "int \<Rightarrow> (bool \<times> int \<times> int list) list \<Rightarrow> pool_t \<Rightarrow> node_t nheap \<Rightarrow> fqueue_t \<Rightarrow>
    (unit run \<times> byte arr \<times> pool_t \<times> node_t nheap \<times> fqueue_t) option" where
  "forward_loop lock rounds pl h fq =
     (if lock \<noteq> 0 then Some (LOG_ASSERT LL_ERROR (lock = 0) (Returned ()), [], pl, h, fq)
      else forward_rounds (mutex_lock lock) rounds pl h fq)"

text \<open>
  \<open>wait2forward\<close>: the results of \<open>fopen\<close>, \<open>socket\<close> and \<open>connect\<close> come from the environment;
  the buffer pointer is not initialised.
\<close>

definition wait2forward_fq :: "int \<Rightarrow> fqueue_t" where
  "wait2forward_fq sockfd = \<lparr>fq_buffer = [], fq_byte_count = 0, fq_byte_capacity = INIT_QUEUE_SIZE,
     fq_sockfd = sockfd, fq_state = 0, fq_sent = -1\<rparr>"

definition wait2forward :: "bool \<Rightarrow> int \<Rightarrow> int \<Rightarrow> int \<Rightarrow> (bool \<times> int \<times> int list) list \<Rightarrow> pool_t \<Rightarrow> node_t nheap \<Rightarrow>
    (unit run \<times> byte arr \<times> pool_t \<times> node_t nheap) option" where
  "wait2forward fopen_ok sockfd connect lock rounds pl h =
     (if \<not> fopen_ok then Some (Exited 1, [], pl, h)
      else if connect \<noteq> 0 then Some (LOG_ASSERT LL_ERROR (connect = 0) (Returned ()), [], pl, h)
      else do {
        (e, wire, pl', h', _) \<leftarrow> forward_loop lock rounds pl h (wait2forward_fq sockfd);
        Some (e, wire, pl', h')
      })"

section \<open>What the fill loop takes\<close>

text \<open>
  The bookkeeping of \<open>fill_queue\<close> between calls, n the next number to send: the count and
  the capacity accumulate over all calls, the buffer does not.
\<close>

definition fq_ok :: "fqueue_t \<Rightarrow> nat \<Rightarrow> bool" where
  "fq_ok fq n \<longleftrightarrow> fq_sent fq + 1 = int n \<and> 0 \<le> fq_byte_count fq \<and> fq_byte_count fq \<le> 8 * int n \<and>
     8000 \<le> fq_byte_capacity fq - fq_byte_count fq \<and> fq_byte_capacity fq \<le> 2 * fq_byte_count fq + 20000"

text \<open>When one call cannot run off its buffer, whose first size is 1250 slots.\<close>

definition fill_room :: "fqueue_t \<Rightarrow> nat \<Rightarrow> bool" where
  "fill_room fq m \<longleftrightarrow> fq_byte_capacity fq - fq_byte_count fq < 19992 \<or> m \<le> 1250"

text \<open>Inside the loop, c packets taken and at most m left.\<close>

definition fill_inv :: "fqueue_t \<Rightarrow> nat \<Rightarrow> nat \<Rightarrow> nat \<Rightarrow> bool" where
  "fill_inv fq n c m \<longleftrightarrow> fq_sent fq + 1 = int n \<and> 1 \<le> c \<and> n + c \<le> 65536 \<and>
     8 * (int c - 1) \<le> fq_byte_count fq \<and> fq_byte_count fq \<le> 8 * (int n + int c - 1) \<and>
     8000 \<le> fq_byte_capacity fq - fq_byte_count fq \<and> fq_byte_capacity fq \<le> 2 * fq_byte_count fq + 20000 \<and>
     c \<le> length (fq_buffer fq) \<and>
     (10000 \<le> fq_byte_capacity fq - fq_byte_count fq \<longrightarrow>
        int c + (fq_byte_capacity fq - fq_byte_count fq - 10000) div 8 + 1 \<le> int (length (fq_buffer fq)) \<or>
        c + m \<le> length (fq_buffer fq))"

text \<open>The capacity only doubles.\<close>

definition doubled :: "fqueue_t \<Rightarrow> fqueue_t \<Rightarrow> bool" where
  "doubled fq fq' \<longleftrightarrow> (\<exists>j. fq_byte_capacity fq' = fq_byte_capacity fq * 2 ^ j)"

lemma doubled_refl: "fq_byte_capacity fq' = fq_byte_capacity fq \<Longrightarrow> doubled fq fq'"
  by (auto simp: doubled_def intro: exI [of _ 0])

lemma doubled_once: "fq_byte_capacity fq' = fq_byte_capacity fq * 2 \<Longrightarrow> doubled fq fq'"
  by (auto simp: doubled_def intro: exI [of _ 1])

lemma doubled_trans: "doubled fq fq1 \<Longrightarrow> doubled fq1 fq' \<Longrightarrow> doubled fq fq'"
  by (auto simp: doubled_def power_add [symmetric])

lemma fill_extend_inv:
  assumes inv: "fill_inv fq n c m"
  obtains fq1 where "fill_extend fq = Some fq1" and "fill_inv fq1 n c m"
    and "10000 \<le> fq_byte_capacity fq1 - fq_byte_count fq1"
    and "0 < m \<longrightarrow> c < length (fq_buffer fq1)" and "\<forall>i<c. fq_buffer fq1 ! i = fq_buffer fq ! i"
    and "fq_sent fq1 = fq_sent fq" and "fq_byte_count fq1 = fq_byte_count fq" and "doubled fq fq1"
proof -
  have rng: "int_range (fq_byte_capacity fq - fq_byte_count fq)" "int_range (fq_byte_capacity fq * 2)"
    using inv by (auto simp: fill_inv_def int_range_def)
  show thesis
  proof (cases "fq_byte_capacity fq - fq_byte_count fq < 10000")
    case True
    let ?L = "nat (fq_byte_capacity fq * 2) div 8"
    let ?fq = "fq\<lparr>fq_byte_capacity := fq_byte_capacity fq * 2, fq_buffer := arr_realloc (fq_buffer fq) ?L\<rparr>"
    have L: "int ?L = fq_byte_capacity fq * 2 div 8" using inv by (auto simp: fill_inv_def zdiv_int)
    then have "int c + (fq_byte_capacity fq * 2 - fq_byte_count fq - 10000) div 8 + 1 \<le> int ?L" "c < ?L"
      using inv by (auto simp: fill_inv_def)
    moreover from this have "fill_inv ?fq n c m" using inv True by (auto simp: fill_inv_def)
    moreover have "fill_extend fq = Some ?fq" using True rng by (simp add: fill_extend_def BLOCKSIZE_def)
    ultimately show thesis
      using inv by (intro that [of ?fq]) (auto simp: fill_inv_def nth_arr_realloc intro: doubled_once)
  next
    case False
    then have "fill_extend fq = Some fq" using rng by (simp add: fill_extend_def BLOCKSIZE_def)
    with False inv show thesis by (intro that [of fq]) (auto simp: fill_inv_def intro: doubled_refl)
  qed
qed

lemma fill_inv_step:
  assumes "fill_inv fq n c (Suc m)" and "10000 \<le> fq_byte_capacity fq - fq_byte_count fq" and "n + c < 65536"
    and "c < length (fq_buffer fq)"
  shows "fill_inv (fq\<lparr>fq_buffer := (fq_buffer fq)[c := Some raw], fq_byte_count := fq_byte_count fq + 8\<rparr>) n (Suc c) m"
  using assms by (auto simp: fill_inv_def)

text \<open>The payloads numbered consecutively from n on.\<close>

definition numbered :: "nat \<Rightarrow> byte arr list \<Rightarrow> (nat \<times> byte arr) set" where
  "numbered n raws = (\<lambda>i. (n + i, raws ! i)) ` {..<length raws}"

lemma numbered_Nil [simp]: "numbered n [] = {}"
  by (simp add: numbered_def)

lemma numbered_Cons: "numbered n (raw # raws) = insert (n, raw) (numbered (Suc n) raws)"
proof -
  have "{..<Suc (length raws)} = insert 0 (Suc ` {..<length raws})" by (simp add: lessThan_Suc_eq_insert_0)
  then show ?thesis by (simp add: numbered_def image_image)
qed

text \<open>What a run of the loop leaves, with the payloads it put into the buffer.\<close>

definition fill_post :: "nat \<Rightarrow> nat \<Rightarrow> fqueue_t \<Rightarrow> byte arr list \<Rightarrow> fqueue_t \<Rightarrow> bool" where
  "fill_post n c fq raws fq' \<longleftrightarrow> fq_sent fq' = fq_sent fq \<and>
     c + length raws \<le> length (fq_buffer fq') \<and> (\<forall>i<c. fq_buffer fq' ! i = fq_buffer fq ! i) \<and>
     (\<forall>i<length raws. fq_buffer fq' ! (c + i) = Some (raws ! i)) \<and>
     0 \<le> fq_byte_count fq' \<and> fq_byte_count fq' \<le> 8 * (int n + int c + int (length raws) - 1) \<and>
     10000 \<le> fq_byte_capacity fq' - fq_byte_count fq' \<and> fq_byte_capacity fq' \<le> 2 * fq_byte_count fq' + 20000 \<and>
     fq_byte_count fq' = fq_byte_count fq + 8 * int (length raws) \<and> doubled fq fq'"

lemma fill_post_done:
  assumes "fill_inv fq1 n c m" and "\<forall>i<c. fq_buffer fq1 ! i = fq_buffer fq ! i" and "fq_sent fq1 = fq_sent fq"
    and "10000 \<le> fq_byte_capacity fq1 - fq_byte_count fq1" and "fq_byte_count fq1 = fq_byte_count fq" and "doubled fq fq1"
  shows "fill_post n c fq [] fq1"
  using assms by (auto simp: fill_post_def fill_inv_def)

lemma fill_post_step:
  assumes post: "fill_post n (Suc c) fq2 raws fq'" and keep: "\<forall>i<c. fq_buffer fq1 ! i = fq_buffer fq ! i"
    and sent: "fq_sent fq1 = fq_sent fq" and len: "c < length (fq_buffer fq1)"
    and fq2: "fq2 = fq1\<lparr>fq_buffer := (fq_buffer fq1)[c := Some raw], fq_byte_count := fq_byte_count fq1 + 8\<rparr>"
    and cnt: "fq_byte_count fq1 = fq_byte_count fq" and dbl: "doubled fq fq1"
  shows "fill_post n c fq (raw # raws) fq'"
proof -
  have "fq_buffer fq' ! (c + i) = Some ((raw # raws) ! i)" if "i < Suc (length raws)" for i
    using post len that by (cases i) (auto simp: fill_post_def fq2)
  moreover have "fq_buffer fq' ! i = fq_buffer fq ! i" if "i < c" for i
    using post keep that by (auto simp: fill_post_def fq2)
  moreover have "doubled fq fq'"
    using post dbl by (auto simp: fill_post_def fq2 intro!: doubled_trans [OF dbl]) (simp add: doubled_def)
  ultimately show ?thesis using post sent cnt by (auto simp: fill_post_def fq2)
qed

definition seqs_from :: "nat \<Rightarrow> (nat \<times> byte arr) set \<Rightarrow> bool" where
  "seqs_from n S \<longleftrightarrow> (\<forall>(j, raw)\<in>S. n \<le> j \<and> j < 65536)"

lemma finite_pool_items [simp]: "finite (pool_items q h)"
  by (simp add: pool_items_def pq_ptrs_def)

text \<open>
  Popping from a pool whose numbers start at n: either the next packet, and the numbers left
  start after it, or a later one, and putting it back restores the pool.
\<close>

definition next_popped :: "nat \<Rightarrow> node_t pqueue_t \<Rightarrow> node_t nheap \<Rightarrow> nptr \<Rightarrow> node_t pqueue_t \<Rightarrow> node_t nheap \<Rightarrow> node_t \<Rightarrow> bool" where
  "next_popped n q h p q1 h1 nd \<longleftrightarrow> pqueue_pop (Ref q) h = Some (Ref p, Ref q1, h1) \<and> h1 p = Some nd \<and>
     (pri_int (n_pri nd) = int n \<longleftrightarrow> unat (n_pri nd) = n) \<and> unat (n_pri nd) < 65536 \<and> n < 65536 \<and>
     rx_queue q1 h1 \<and> (unat (n_pri nd), n_raw_packet nd) \<in> pool_items q h \<and>
     pool_items q1 h1 = pool_items q h - {(unat (n_pri nd), n_raw_packet nd)} \<and>
     (unat (n_pri nd) = n \<longrightarrow> seqs_from (Suc n) (pool_items q1 h1)) \<and>
     (unat (n_pri nd) \<noteq> n \<longrightarrow> n \<notin> fst ` pool_items q h) \<and>
     (\<forall>r. \<exists>q2 h2. pqueue_insert r (Ref q1) h1 p = Some (0, Ref q2, h2) \<and> rx_queue q2 h2 \<and>
       pool_items q2 h2 = pool_items q h)"

lemma next_popped_facts:
  assumes "next_popped n q h p q1 h1 nd"
  shows "pqueue_pop (Ref q) h = Some (Ref p, Ref q1, h1)" and "h1 p = Some nd"
    and "pri_int (n_pri nd) = int n \<longleftrightarrow> unat (n_pri nd) = n" and "unat (n_pri nd) < 65536" and "n < 65536"
    and "rx_queue q1 h1" and "(unat (n_pri nd), n_raw_packet nd) \<in> pool_items q h"
    and "pool_items q1 h1 = pool_items q h - {(unat (n_pri nd), n_raw_packet nd)}"
    and "unat (n_pri nd) = n \<longrightarrow> seqs_from (Suc n) (pool_items q1 h1)"
    and "unat (n_pri nd) \<noteq> n \<longrightarrow> n \<notin> fst ` pool_items q h"
    and "\<forall>r. \<exists>q2 h2. pqueue_insert r (Ref q1) h1 p = Some (0, Ref q2, h2) \<and> rx_queue q2 h2 \<and>
      pool_items q2 h2 = pool_items q h"
  using assms unfolding next_popped_def by blast+

lemma rx_next:
  assumes rx: "rx_queue q h" and ne: "pool_items q h \<noteq> {}" and fromn: "seqs_from n (pool_items q h)"
  obtains p q1 h1 nd where "next_popped n q h p q1 h1 nd"
proof -
  obtain p q1 h1 where pop: "pqueue_pop (Ref q) h = Some (Ref p, Ref q1, h1)"
    and rx1: "rx_queue q1 h1" and same: "same_nodes h h1" and room: "q_size q1 < q_avail q1" and live: "h1 p \<noteq> None"
    and mem: "(unat (prio h p), node_raw h p) \<in> pool_items q h"
    and least: "\<forall>(j, raw)\<in>pool_items q h. unat (prio h p) \<le> j"
    and items1: "pool_items q1 h1 = pool_items q h - {(unat (prio h p), node_raw h p)}"
    and new: "prio h p \<notin> prio h ` pq_ptrs q1"
    by (rule rx_pop [OF rx ne])
  from live obtain nd where nd: "h1 p = Some nd" by auto
  have h1: "prio h1 = prio h" "node_raw h1 = node_raw h" using same by (simp_all add: same_nodes_prio_fun same_nodes_raw)
  have n_pri: "prio h p = n_pri nd" "node_raw h p = n_raw_packet nd"
    using nd by (simp_all add: h1 [symmetric] prio_def node_raw_def)
  have j: "n \<le> unat (n_pri nd)" "unat (n_pri nd) < 65536" "n < 65536"
    using mem fromn by (auto simp: seqs_from_def n_pri)
  have pri: "pri_int (n_pri nd) = int (unat (n_pri nd))" using j by (intro pri_int_small) simp
  have "unat (n_pri nd) \<noteq> i" if "(i, raw) \<in> pool_items q1 h1" for i raw
    using that new by (auto simp: pool_items_def h1 n_pri [symmetric] dest!: unat_inj)
  then have later: "seqs_from (Suc n) (pool_items q1 h1)" if "unat (n_pri nd) = n"
    using fromn that items1 by (fastforce simp: seqs_from_def)
  have absent: "n \<notin> fst ` pool_items q h" if "unat (n_pri nd) \<noteq> n"
    using least j(1) that n_pri by force
  have putback: "\<exists>q2 h2. pqueue_insert r (Ref q1) h1 p = Some (0, Ref q2, h2) \<and> rx_queue q2 h2 \<and>
      pool_items q2 h2 = pool_items q h" for r
  proof -
    have "prio h1 p \<notin> prio h1 ` pq_ptrs q1" "pq_room r q1" using new room by (simp_all add: h1 pq_room_def)
    then obtain q2 h2 where "pqueue_insert r (Ref q1) h1 p = Some (0, Ref q2, h2)" "rx_queue q2 h2"
      and "same_nodes h1 h2" and "pool_items q2 h2 = insert (unat (prio h1 p), node_raw h1 p) (pool_items q1 h1)"
      and "q_size q2 = Suc (q_size q1)" and "same_config q1 q2" and "pq_ptrs q2 = insert p (pq_ptrs q1)"
      by (rule rx_push [OF rx1 live])
    then show ?thesis using items1 mem h1 by auto
  qed
  show thesis
    by (rule that [of p q1 h1 nd])
      (use pop nd j(2,3) rx1 pri mem items1 n_pri later absent putback of_nat_eq_iff [of "unat (n_pri nd)" n, where ?'a = int]
        in \<open>simp add: next_popped_def del: of_nat_unat\<close>)
qed

text \<open>One iteration of the loop after a packet was popped.\<close>

lemma fill_loop_popped:
  assumes pop: "pqueue_pop (Ref q) h = Some (Ref p, Ref q1, h1)" and ext: "fill_extend fq = Some fq1"
    and nd: "h1 p = Some nd" and pri: "pri_int (n_pri nd) = int (n + c) \<longleftrightarrow> unat (n_pri nd) = n + c"
    and sent: "fq_sent fq1 + 1 = int n" and j: "n + c < 65536" and b: "int_range (fq_byte_count fq1 + 8)"
  shows "fill_loop r (Ref q) h fq (int c) =
    (if unat (n_pri nd) = n + c
     then do {
       buf \<leftarrow> arr_set (fq_buffer fq1) c (n_raw_packet nd);
       fill_loop r (Ref q1) h1 (fq1\<lparr>fq_buffer := buf, fq_byte_count := fq_byte_count fq1 + 8\<rparr>) (int c + 1)
     }
     else do { (_, pq2, h2) \<leftarrow> pqueue_insert r (Ref q1) h1 p; Some (int c, pq2, h2, fq1) })"
proof -
  have "int_range (fq_sent fq1 + int c)" "int_range (int (n + c))" "int_range (int c + 1)"
    using sent j by (auto simp: int_range_def)
  moreover have "fq_sent fq1 + int c + 1 = int (n + c)" using sent by simp
  ultimately have "cint (fq_sent fq1 + int c) = Some (fq_sent fq1 + int c)"
    "cint (fq_sent fq1 + int c + 1) = Some (int (n + c))" "cint (int c + 1) = Some (int c + 1)"
    by (metis cint_in_range)+
  with b show ?thesis
    by (simp add: fill_loop.simps [of r "Ref q"] pop ext nd pri del: of_nat_add)
qed

text \<open>
  The loop takes exactly the packets that continue the sequence, in order, and leaves the
  others in the pool.
\<close>

lemma fill_loop_correct:
  assumes "card (pool_items q h) = m" and "rx_queue q h" and "seqs_from (n + c) (pool_items q h)"
    and "fill_inv fq n c m"
  shows "\<exists>raws q' h' fq'. fill_loop r (Ref q) h fq (int c) = Some (int (c + length raws), Ref q', h', fq') \<and>
    rx_queue q' h' \<and> numbered (n + c) raws \<subseteq> pool_items q h \<and>
    pool_items q' h' = pool_items q h - numbered (n + c) raws \<and>
    n + c + length raws \<notin> fst ` pool_items q h \<and> fill_post n c fq raws fq'"
  using assms
proof (induction m arbitrary: q h c fq)
  case 0
  then have "pool_items q h = {}" by simp
  moreover from this have "pqueue_pop (Ref q) h = Some (Null, Ref q, h)" using rx_pop_empty 0 by simp
  moreover obtain fq1 where "fill_extend fq = Some fq1" "fill_inv fq1 n c 0"
    "10000 \<le> fq_byte_capacity fq1 - fq_byte_count fq1" "0 < (0 :: nat) \<longrightarrow> c < length (fq_buffer fq1)"
    "\<forall>i<c. fq_buffer fq1 ! i = fq_buffer fq ! i" "fq_sent fq1 = fq_sent fq" "fq_byte_count fq1 = fq_byte_count fq" "doubled fq fq1"
    by (rule fill_extend_inv [OF "0.prems"(4)])
  ultimately show ?case
    using "0.prems"(2) fill_post_done by (intro exI [of _ "[]"]) (auto simp: fill_loop.simps [of r "Ref q"])
next
  case (Suc m)
  then have ne: "pool_items q h \<noteq> {}" by auto
  obtain fq1 where ext: "fill_extend fq = Some fq1" and inv1: "fill_inv fq1 n c (Suc m)"
    and cap1: "10000 \<le> fq_byte_capacity fq1 - fq_byte_count fq1"
    and len1: "0 < Suc m \<longrightarrow> c < length (fq_buffer fq1)" and keep1: "\<forall>i<c. fq_buffer fq1 ! i = fq_buffer fq ! i"
    and sent1: "fq_sent fq1 = fq_sent fq" and cnt1: "fq_byte_count fq1 = fq_byte_count fq" and dbl1: "doubled fq fq1"
    by (rule fill_extend_inv [OF Suc.prems(4)])
  obtain p q1 h1 nd where "next_popped (n + c) q h p q1 h1 nd" by (rule rx_next [OF Suc.prems(2) ne Suc.prems(3)])
  note nx = next_popped_facts [OF this]
  note pop = nx(1) and nd = nx(2) and pri = nx(3) and j = nx(4,5) and rx1 = nx(6) and mem = nx(7) and items1 = nx(8) and later = nx(9) and absent = nx(10) and putback = nx(11)
  let ?raw = "n_raw_packet nd"
  have "int_range (fq_byte_count fq1 + 8)" "fq_sent fq1 + 1 = int n" using inv1 j by (auto simp: fill_inv_def int_range_def)
  note loop = fill_loop_popped [OF pop ext nd pri this(2) j(2) this(1), of r]
  show ?case
  proof (cases "unat (n_pri nd) = n + c")
    case True
    let ?fq2 = "fq1\<lparr>fq_buffer := (fq_buffer fq1)[c := Some ?raw], fq_byte_count := fq_byte_count fq1 + 8\<rparr>"
    have inv2: "fill_inv ?fq2 n (Suc c) m" using fill_inv_step [OF inv1 cap1] j len1 by simp
    have card1: "card (pool_items q1 h1) = m" using items1 mem Suc.prems(1) by simp
    from Suc.IH [OF card1 rx1 _ inv2] later True obtain raws q' h' fq' where
      ih: "fill_loop r (Ref q1) h1 ?fq2 (int (Suc c)) = Some (int (Suc c + length raws), Ref q', h', fq')"
        "rx_queue q' h'" "numbered (n + Suc c) raws \<subseteq> pool_items q1 h1"
        "pool_items q' h' = pool_items q1 h1 - numbered (n + Suc c) raws"
        "n + Suc c + length raws \<notin> fst ` pool_items q1 h1" "fill_post n (Suc c) ?fq2 raws fq'" by auto
    have "fill_post n c fq (?raw # raws) fq'" using fill_post_step [OF ih(6) keep1 sent1 _ refl cnt1 dbl1] len1 by simp
    moreover have "n + c + length (?raw # raws) \<notin> fst ` pool_items q h"
      using ih(5) items1 True by force
    moreover have "fill_loop r (Ref q) h fq (int c) = fill_loop r (Ref q1) h1 ?fq2 (int (Suc c))"
      using loop True len1 by (simp add: arr_set_def add.commute)
    ultimately show ?thesis
      using ih(1-4) items1 mem True
      by (intro exI [of _ "?raw # raws"] exI [of _ q'] exI [of _ h'] exI [of _ fq']) (auto simp: numbered_Cons)
  next
    case False
    with putback [rule_format, of r] absent fill_post_done [OF inv1 keep1 sent1 cap1 cnt1 dbl1] show ?thesis
      by (intro exI [of _ "[]"]) (auto simp: loop)
  qed
qed

section \<open>Filling the forward queue\<close>

text \<open>The payloads are the first entries of the buffer.\<close>

definition buffered :: "fqueue_t \<Rightarrow> byte arr list \<Rightarrow> bool" where
  "buffered fq raws \<longleftrightarrow> (\<forall>i<length raws. arr_get (fq_buffer fq) i = Some (raws ! i))"

text \<open>The first packet of a call.\<close>

lemma fill_queue_popped:
  assumes pop: "pqueue_pop (Ref q) h = Some (Ref p, Ref q1, h1)" and nd: "h1 p = Some nd"
    and pri: "pri_int (n_pri nd) = int n \<longleftrightarrow> unat (n_pri nd) = n" and sent: "fq_sent fq + 1 = int n" and j: "n < 65536"
  shows "fill_queue r (Ref q) h fq =
    (if unat (n_pri nd) = n
     then fill_loop r (Ref q1) h1 (fq\<lparr>fq_buffer := (arr_new 1250)[0 := Some (n_raw_packet nd)]\<rparr>) 1
     else do { (_, pq2, h2) \<leftarrow> pqueue_insert r (Ref q1) h1 p; Some (-1, pq2, h2, fq\<lparr>fq_buffer := arr_new 1250\<rparr>) })"
proof -
  have "cint (fq_sent fq + 1) = Some (int n)" unfolding sent using j by (simp add: int_range_def)
  then show ?thesis by (simp add: fill_queue_def BLOCKSIZE_def pop nd pri arr_set_def Let_def)
qed

lemma fill_inv_start:
  assumes "fq_ok fq n" and "fill_room fq (Suc m)" and "n < 65536"
  shows "fill_inv (fq\<lparr>fq_buffer := (arr_new 1250)[0 := x]\<rparr>) n 1 m"
  using assms by (auto simp: fill_inv_def fq_ok_def fill_room_def)

lemma fill_post_start:
  assumes "fill_post n 1 (fq\<lparr>fq_buffer := (arr_new 1250)[0 := Some raw]\<rparr>) raws fq'"
  shows "buffered fq' (raw # raws)"
    and "fq_sent fq + 1 = int n \<longrightarrow> fq_ok (fq'\<lparr>fq_sent := fq_sent fq' + int (length (raw # raws))\<rparr>) (n + length (raw # raws))"
    and "fq_sent fq' = fq_sent fq" and "fq_byte_count fq' = fq_byte_count fq + 8 * (int (length (raw # raws)) - 1)"
    and "10000 \<le> fq_byte_capacity fq' - fq_byte_count fq'" and "doubled fq fq'"
proof -
  have "arr_get (fq_buffer fq') i = Some ((raw # raws) ! i)" if "i < length (raw # raws)" for i
    using assms that by (cases i) (auto simp: fill_post_def arr_get_def)
  then show "buffered fq' (raw # raws)" by (simp add: buffered_def)
qed (use assms in \<open>auto simp: fill_post_def fq_ok_def doubled_def\<close>)

lemma fill_queue_correct:
  assumes rx: "rx_queue q h" and fromn: "seqs_from n (pool_items q h)" and fq: "fq_ok fq n"
    and room: "fill_room fq (card (pool_items q h))"
  shows "\<exists>raws q' h' fq'. fill_queue r (Ref q) h fq =
      Some (if raws = [] then -1 else int (length raws), Ref q', h', fq') \<and>
    rx_queue q' h' \<and> numbered n raws \<subseteq> pool_items q h \<and>
    pool_items q' h' = pool_items q h - numbered n raws \<and> n + length raws \<notin> fst ` pool_items q h \<and>
    buffered fq' raws \<and> fq_sent fq' = fq_sent fq \<and>
    fq_ok (fq'\<lparr>fq_sent := fq_sent fq' + int (length raws)\<rparr>) (n + length raws) \<and>
    (raws \<noteq> [] \<longrightarrow> fq_byte_count fq' = fq_byte_count fq + 8 * (int (length raws) - 1) \<and>
      10000 \<le> fq_byte_capacity fq' - fq_byte_count fq' \<and> doubled fq fq')"
proof (cases "pool_items q h = {}")
  case True
  with rx_pop_empty [OF rx] have "fill_queue r (Ref q) h fq = Some (-1, Ref q, h, fq\<lparr>fq_buffer := arr_new 1250\<rparr>)"
    by (simp add: fill_queue_def BLOCKSIZE_def Let_def)
  with True rx fq show ?thesis by (intro exI [of _ "[]"]) (simp add: buffered_def fq_ok_def)
next
  case ne: False
  obtain p q1 h1 nd where "next_popped n q h p q1 h1 nd" by (rule rx_next [OF rx ne fromn])
  note nx = next_popped_facts [OF this]
  note pop = nx(1) and nd = nx(2) and pri = nx(3) and j = nx(5) and rx1 = nx(6) and mem = nx(7) and items1 = nx(8) and later = nx(9) and absent = nx(10) and putback = nx(11)
  have sent: "fq_sent fq + 1 = int n" using fq by (simp add: fq_ok_def)
  note step = fill_queue_popped [OF pop nd pri sent j, of r]
  let ?raw = "n_raw_packet nd"
  show ?thesis
  proof (cases "unat (n_pri nd) = n")
    case True
    let ?fq1 = "fq\<lparr>fq_buffer := (arr_new 1250)[0 := Some ?raw]\<rparr>" and ?m = "card (pool_items q1 h1)"
    have "card (pool_items q h) = Suc ?m" unfolding items1 using mem by (simp only: card_Suc_Diff1 finite_pool_items)
    then have inv: "fill_inv ?fq1 n 1 ?m" using fq room j by (intro fill_inv_start) simp_all
    have fromn1: "seqs_from (n + 1) (pool_items q1 h1)" using later True by simp
    obtain raws q' h' fq' where
      lp: "fill_loop r (Ref q1) h1 ?fq1 (int 1) = Some (int (1 + length raws), Ref q', h', fq')"
        "rx_queue q' h'" "numbered (n + 1) raws \<subseteq> pool_items q1 h1"
        "pool_items q' h' = pool_items q1 h1 - numbered (n + 1) raws"
        "n + 1 + length raws \<notin> fst ` pool_items q1 h1" "fill_post n 1 ?fq1 raws fq'"
      using fill_loop_correct [OF refl rx1 fromn1 inv, of r] by blast
    note post = fill_post_start [OF lp(6)]
    have "fill_queue r (Ref q) h fq = Some (int (length (?raw # raws)), Ref q', h', fq')" using lp(1) True by (simp add: step)
    moreover have "n + length (?raw # raws) \<notin> fst ` pool_items q h" using lp(5) items1 True by force
    moreover have "fq_ok (fq'\<lparr>fq_sent := fq_sent fq' + int (length (?raw # raws))\<rparr>) (n + length (?raw # raws))"
      using post(2) sent by simp
    ultimately show ?thesis
      using lp(2-4) items1 mem True post
      by (intro exI [of _ "?raw # raws"] exI [of _ q'] exI [of _ h'] exI [of _ fq']) (auto simp: numbered_Cons)
  next
    case False
    with putback [rule_format, of r] absent fq show ?thesis
      by (intro exI [of _ "[]"]) (auto simp: step buffered_def fq_ok_def)
  qed
qed

text \<open>The counters of a fresh forward queue.\<close>

lemma fq_ok_init: "fq_ok (wait2forward_fq sockfd) 0"
  by (simp add: fq_ok_def wait2forward_fq_def INIT_QUEUE_SIZE_def)

lemma fill_room_init: "fill_room (wait2forward_fq sockfd) m"
  by (simp add: fill_room_def wait2forward_fq_def INIT_QUEUE_SIZE_def)

text \<open>
  Without \<open>fill_room\<close>: with 19992 bytes or more between the accumulated count and capacity,
  the loop does not extend the fresh buffer before it is full, and the 1251st packet is
  written past its end.
\<close>

lemma fill_loop_overflow:
  assumes "rx_queue q h" and "seqs_from (n + c) (pool_items q h)" and "fq_sent fq + 1 = int n"
    and "d = 1250 - c" and "c \<le> 1250" and "length (fq_buffer fq) = 1250"
    and "10000 + 8 * int d \<le> fq_byte_capacity fq - fq_byte_count fq" and "0 \<le> fq_byte_count fq"
    and "fq_byte_count fq \<le> 8 * int (n + c)" and "fq_byte_capacity fq < 2 ^ 31" and "{n + c..n + 1250} \<subseteq> fst ` pool_items q h"
  shows "fill_loop r (Ref q) h fq (int c) = None"
  using assms
proof (induction d arbitrary: q h c fq)
  case (0 q h c fq)
  then have c: "c = 1250" and mem0: "n + c \<in> fst ` pool_items q h" by auto
  then have ne: "pool_items q h \<noteq> {}" by auto
  obtain p q1 h1 nd where "next_popped (n + c) q h p q1 h1 nd" by (rule rx_next [OF "0.prems"(1) ne "0.prems"(2)])
  note nx = next_popped_facts [OF this]
  note pop = nx(1) and nd = nx(2) and pri = nx(3) and j = nx(5) and absent = nx(10)
  have ext: "fill_extend fq = Some fq" using "0.prems" by (simp add: fill_extend_def int_range_def BLOCKSIZE_def)
  have b: "int_range (fq_byte_count fq + 8)" using "0.prems" j by (simp add: int_range_def)
  show ?case
    using fill_loop_popped [OF pop ext nd pri "0.prems"(3) j b, of r] absent mem0 "0.prems"(6) c
    by (simp add: arr_set_def)
next
  case (Suc d q h c fq)
  then have c: "c < 1250" and mem0: "n + c \<in> fst ` pool_items q h" by auto
  then have ne: "pool_items q h \<noteq> {}" by auto
  obtain p q1 h1 nd where "next_popped (n + c) q h p q1 h1 nd" by (rule rx_next [OF Suc.prems(1) ne Suc.prems(2)])
  note nx = next_popped_facts [OF this]
  note pop = nx(1) and nd = nx(2) and pri = nx(3) and j = nx(5) and rx1 = nx(6) and mem = nx(7) and items1 = nx(8) and later = nx(9) and absent = nx(10)
  have hit: "unat (n_pri nd) = n + c" using absent mem0 by auto
  have ext: "fill_extend fq = Some fq" using Suc.prems by (simp add: fill_extend_def int_range_def BLOCKSIZE_def)
  have b: "int_range (fq_byte_count fq + 8)" using Suc.prems j by (simp add: int_range_def)
  let ?fq1 = "fq\<lparr>fq_buffer := (fq_buffer fq)[c := Some (n_raw_packet nd)], fq_byte_count := fq_byte_count fq + 8\<rparr>"
  have rest: "{n + Suc c..n + 1250} \<subseteq> fst ` pool_items q1 h1"
  proof
    fix i assume "i \<in> {n + Suc c..n + 1250}"
    with Suc.prems(11) hit items1 show "i \<in> fst ` pool_items q1 h1" by (auto simp: image_iff Bex_def subset_iff)
  qed
  have "fill_loop r (Ref q1) h1 ?fq1 (int (Suc c)) = None"
    using Suc.prems(3-10) c later hit by (intro Suc.IH rx1 rest) auto
  then show ?case
    using fill_loop_popped [OF pop ext nd pri Suc.prems(3) j b, of r] hit c Suc.prems(6)
    by (simp add: arr_set_def add.commute)
qed

lemma overflowing_fill:
  assumes rx: "rx_queue q h" and fromn: "seqs_from n (pool_items q h)" and fq: "fq_ok fq n"
    and gap: "19992 \<le> fq_byte_capacity fq - fq_byte_count fq" and mem: "{n..n + 1250} \<subseteq> fst ` pool_items q h"
  shows "fill_queue r (Ref q) h fq = None"
proof -
  from mem have mem0: "n \<in> fst ` pool_items q h" by auto
  then have ne: "pool_items q h \<noteq> {}" by auto
  obtain p q1 h1 nd where "next_popped n q h p q1 h1 nd" by (rule rx_next [OF rx ne fromn])
  note nx = next_popped_facts [OF this]
  note pop = nx(1) and nd = nx(2) and pri = nx(3) and j = nx(5) and rx1 = nx(6) and items1 = nx(8) and later = nx(9) and absent = nx(10)
  have sent: "fq_sent fq + 1 = int n" using fq by (simp add: fq_ok_def)
  have hit: "unat (n_pri nd) = n" using absent mem0 by auto
  have rest: "{n + 1..n + 1250} \<subseteq> fst ` pool_items q1 h1"
  proof
    fix i assume "i \<in> {n + 1..n + 1250}"
    with mem hit items1 show "i \<in> fst ` pool_items q1 h1" by (auto simp: image_iff Bex_def subset_iff)
  qed
  have "fill_loop r (Ref q1) h1 (fq\<lparr>fq_buffer := (arr_new 1250)[0 := Some (n_raw_packet nd)]\<rparr>) (int 1) = None"
    using fq gap later hit j by (intro fill_loop_overflow [OF rx1 _ _ refl _ _ _ _ _ _ rest]) (auto simp: fq_ok_def)
  with hit show ?thesis using fill_queue_popped [OF pop nd pri sent j, of r] by simp
qed

text \<open>C17: the bound on the buffer is needed: when the accumulated capacity exceeds
  the accumulated count by 19992 or more, as after a first call that took 752 packets, and
  1251 consecutive packets wait, \<open>fill_queue\<close> writes past the end of its fresh buffer of 1250
  slots.\<close>

theorem fill_queue_overflow:
  assumes "rx_queue q h" and "seqs_from n (pool_items q h)" and "fq_ok fq n"
    and "19992 \<le> fq_byte_capacity fq - fq_byte_count fq" and "{n..n + 1250} \<subseteq> fst ` pool_items q h"
  shows "fill_queue r (Ref q) h fq = None"
  by (rule overflowing_fill [OF assms])

section \<open>Writing the payloads\<close>

text \<open>
  The results of \<open>send\<close> for which \<open>forward_data\<close> is right: a call accepts the whole block or
  nothing.
\<close>

definition whole_sends :: "int list \<Rightarrow> bool" where
  "whole_sends rs \<longleftrightarrow> (\<forall>r\<in>set rs. r \<le> 0 \<or> int BLOCKSIZE \<le> r)"

lemma send_block_done [simp]: "send_block raw BLOCKSIZE rs = (Filled, [], rs)"
  by (cases rs) simp_all

lemma send_block_whole:
  assumes "whole_sends rs" and "0 < accepts rs" and "length raw = BLOCKSIZE"
  shows "\<exists>rs'. send_block raw 0 rs = (Filled, raw, rs') \<and> whole_sends rs' \<and> accepts rs = Suc (accepts rs')"
  using assms
proof (induction rs)
  case (Cons r rs)
  show ?case
  proof (cases "0 < r")
    case True
    then have "send_count r BLOCKSIZE = int BLOCKSIZE" using Cons.prems by (simp add: whole_sends_def send_count_def)
    moreover have "0 < BLOCKSIZE" by (simp add: BLOCKSIZE_def)
    ultimately show ?thesis
      using True Cons.prems by (intro exI [of _ rs]) (auto simp: whole_sends_def accepts_def Let_def)
  next
    case False
    then have "send_block raw 0 (r # rs) = send_block raw 0 rs" by (simp add: send_count_def BLOCKSIZE_def Let_def)
    moreover have "whole_sends rs" "accepts (r # rs) = accepts rs" using False Cons.prems by (simp_all add: whole_sends_def accepts_def)
    ultimately show ?thesis using Cons by simp
  qed
qed (simp add: accepts_def)

lemma forward_from_whole:
  assumes "whole_sends rs" and "length raws \<le> accepts rs" and "\<forall>raw\<in>set raws. length raw = BLOCKSIZE"
    and "\<forall>i<length raws. arr_get (fq_buffer fq) (c + i) = Some (raws ! i)"
    and "int_range (fq_sent fq)" and "int_range (fq_sent fq + int (length raws))"
  shows "\<exists>rs'. forward_from (length raws) c fq rs =
    Some (Filled, concat raws, fq\<lparr>fq_sent := fq_sent fq + int (length raws)\<rparr>, rs')"
  using assms
proof (induction raws arbitrary: c fq rs)
  case (Cons raw raws)
  from Cons.prems(4) have buf: "arr_get (fq_buffer fq) c = Some raw"
    "\<forall>i<length raws. arr_get (fq_buffer fq) (Suc c + i) = Some (raws ! i)" by (auto dest: spec [of _ 0] spec [of _ "Suc _"])
  from Cons.prems obtain rs1 where blk: "send_block raw 0 rs = (Filled, raw, rs1)" "whole_sends rs1"
    "length raws \<le> accepts rs1" using send_block_whole [of rs raw] by auto
  have rng: "int_range (fq_sent fq + 1)" using Cons.prems(5,6) by (simp add: int_range_def)
  from Cons.IH [OF blk(2,3), of "fq\<lparr>fq_sent := fq_sent fq + 1\<rparr>" "Suc c"] Cons.prems(3,6) buf(2) rng obtain rs' where
    "forward_from (length raws) (Suc c) (fq\<lparr>fq_sent := fq_sent fq + 1\<rparr>) rs1 =
      Some (Filled, concat raws, fq\<lparr>fq_sent := fq_sent fq + 1 + int (length raws)\<rparr>, rs')"
    by (auto simp: add.assoc)
  with buf(1) blk(1) rng show ?case by (simp add: add.assoc)
qed simp

lemma forward_data_whole:
  assumes "whole_sends rs" and "length raws \<le> accepts rs" and "\<forall>raw\<in>set raws. length raw = BLOCKSIZE"
    and "buffered fq raws" and "int_range (fq_sent fq)" and "int_range (fq_sent fq + int (length raws))"
  shows "\<exists>rs'. forward_data fq (int (length raws)) rs =
    Some (Filled, concat raws, fq\<lparr>fq_sent := fq_sent fq + int (length raws), fq_buffer := []\<rparr>, rs')"
  using forward_from_whole [OF assms(1-3), of fq 0] assms(4-6) by (auto simp: forward_data_def buffered_def)

text \<open>C18: when a \<open>send\<close> to the destination accepts only part of a block, the next
  one starts again at the first byte: the destination receives the first bytes twice and the
  last ones never.\<close>

theorem send_block_short:
  assumes "0 < a" and "a < BLOCKSIZE"
  shows "send_block raw 0 (int a # int (BLOCKSIZE - a) # rs) = (Filled, take a raw @ take (BLOCKSIZE - a) raw, rs)"
proof -
  have "nat (int BLOCKSIZE - int a) = BLOCKSIZE - a" by arith
  with assms have "send_block raw a (int (BLOCKSIZE - a) # rs) = (Filled, take (BLOCKSIZE - a) raw, rs)"
    by (simp add: send_count_def Let_def)
  with assms show ?thesis by (simp add: send_count_def Let_def)
qed

section \<open>A round\<close>

lemma forward_round_correct:
  assumes pq: "pl_pq pl = Ref q" and rx: "rx_queue q h" and fromn: "seqs_from n (pool_items q h)"
    and blocks: "\<forall>(j, raw)\<in>pool_items q h. length raw = BLOCKSIZE"
    and fq: "fq_ok fq n" and room: "fill_room fq (card (pool_items q h))" and n: "n \<le> 65536"
    and rs: "whole_sends rs" "card (pool_items q h) \<le> accepts rs"
    and sm: "0 \<le> pl_sent_min_seq pl" "pl_sent_min_seq pl \<le> int n"
  shows "\<exists>raws q' h' fq'. forward_round r 0 rs pl h fq = Some (Returned (), concat raws,
        pl\<lparr>pl_pq := Ref q', pl_sent_min_seq := pl_sent_min_seq pl + int (length raws)\<rparr>, h', fq') \<and>
    rx_queue q' h' \<and> numbered n raws \<subseteq> pool_items q h \<and>
    pool_items q' h' = pool_items q h - numbered n raws \<and> n + length raws \<notin> fst ` pool_items q h \<and>
    fq_ok fq' (n + length raws)"
proof -
  obtain raws q' h' fq' where
    f: "fill_queue r (Ref q) h fq = Some (if raws = [] then -1 else int (length raws), Ref q', h', fq')"
      "rx_queue q' h'" "numbered n raws \<subseteq> pool_items q h" "pool_items q' h' = pool_items q h - numbered n raws"
      "n + length raws \<notin> fst ` pool_items q h" "buffered fq' raws" "fq_sent fq' = fq_sent fq"
      "fq_ok (fq'\<lparr>fq_sent := fq_sent fq' + int (length raws)\<rparr>) (n + length raws)"
    using fill_queue_correct [OF rx fromn fq room, of r] by blast
  have len: "length raws \<le> card (pool_items q h)"
    using card_mono [OF finite_pool_items f(3)] by (simp add: numbered_def card_image inj_on_def)
  have last: "n + length raws \<le> 65536"
  proof (cases raws rule: rev_cases)
    case (snoc ys y)
    then have "(n + length ys, y) \<in> pool_items q h" using f(3) by (force simp: numbered_def nth_append)
    with fromn snoc show ?thesis by (auto simp: seqs_from_def)
  qed (use n in simp)
  have blk: "\<forall>raw\<in>set raws. length raw = BLOCKSIZE"
    using blocks f(3) by (fastforce simp: numbered_def in_set_conv_nth)
  have sent: "fq_sent fq' = int n - 1" using fq f(7) by (simp add: fq_ok_def)
  have rng: "int_range (fq_sent fq')" "int_range (fq_sent fq' + int (length raws))"
    "int_range (pl_sent_min_seq pl + int (length raws))"
    using last sm by (auto simp: sent int_range_def)
  show ?thesis
  proof (cases "raws = []")
    case True
    then have "fq_ok fq' n" using f(8) by (simp add: fq_ok_def)
    then show ?thesis using True f(1-5) pq by (intro exI [of _ "[]"]) (auto simp: forward_round_def forward_unlocked_def)
  next
    case False
    let ?fq = "fq'\<lparr>fq_sent := fq_sent fq' + int (length raws), fq_buffer := []\<rparr>"
    from forward_data_whole [OF rs(1) _ blk f(6) rng(1,2)] len rs(2) obtain rs' where
      d: "forward_data fq' (int (length raws)) rs = Some (Filled, concat raws, ?fq, rs')" by force
    have "fq_ok ?fq (n + length raws)" using f(8) by (simp add: fq_ok_def)
    then show ?thesis
      using False f(1-5) d rng(3) pq
      by (intro exI [of _ raws] exI [of _ q'] exI [of _ h'] exI [of _ ?fq]) (simp add: forward_round_def forward_unlocked_def)
  qed
qed

text \<open>The iterations of the loop, as the rounds that follow the wait.\<close>

lemma forward_rounds_Cons:
  "forward_rounds True ((r, unlock, rs) # rounds) pl h fq = do {
     (e, wire, pl1, h1, fq1) \<leftarrow> forward_round r unlock rs pl h fq;
     (case e of
        Returned u \<Rightarrow> do {
          (e', wire', pl2, h2, fq2) \<leftarrow> forward_rounds (unlock \<noteq> 0) rounds pl1 h1 fq1;
          Some (e', wire @ wire', pl2, h2, fq2)
        }
      | _ \<Rightarrow> Some (e, wire, pl1, h1, fq1))
   }"
  by (simp add: forward_round_def cond_timedwait_def mutex_unlock_def split: Option.bind_split)

lemma forward_rounds_released: "forward_rounds False (round1 # rounds) pl h fq = None"
  by (cases round1) (simp add: cond_timedwait_def)

text \<open>C19: the forwarding thread does its work once. It takes the mutex before the loop and never
  again, so from a pool of packets numbered from n on, n the next number, its first iteration
  writes the consecutive packets to the destination and keeps the rest, and its second
  iteration, whatever the environment does, waits with a mutex that is not held, which is
  undefined. The first iteration needs room in the buffer of the forward queue, and writes to
  the destination that accept whole blocks, one for each packet in the pool.\<close>

theorem forward_loop_once:
  assumes "pl_pq pl = Ref q" and "rx_queue q h" and "seqs_from n (pool_items q h)"
    and "\<forall>(j, raw)\<in>pool_items q h. length raw = BLOCKSIZE"
    and "fq_ok fq n" and "fill_room fq (card (pool_items q h))" and "n \<le> 65536"
    and "whole_sends rs" and "card (pool_items q h) \<le> accepts rs"
    and "0 \<le> pl_sent_min_seq pl" and "pl_sent_min_seq pl \<le> int n"
  shows "\<exists>raws q' pl' h' fq'. forward_loop 0 [(r, 0, rs)] pl h fq = Some (Waiting, concat raws, pl', h', fq') \<and>
    numbered n raws \<subseteq> pool_items q h \<and> n + length raws \<notin> fst ` pool_items q h \<and>
    pl_pq pl' = Ref q' \<and> pool_items q' h' = pool_items q h - numbered n raws \<and>
    (\<forall>round2 rounds. forward_loop 0 ((r, 0, rs) # round2 # rounds) pl h fq = None)"
proof -
  obtain raws q' h' fq' where
    f: "forward_round r 0 rs pl h fq = Some (Returned (), concat raws,
        pl\<lparr>pl_pq := Ref q', pl_sent_min_seq := pl_sent_min_seq pl + int (length raws)\<rparr>, h', fq')"
      "numbered n raws \<subseteq> pool_items q h" "pool_items q' h' = pool_items q h - numbered n raws"
      "n + length raws \<notin> fst ` pool_items q h"
    using forward_round_correct [OF assms, of r] by blast
  have "forward_loop 0 ((r, 0, rs) # round2 # rounds) pl h fq = None" for round2 rounds
    by (simp add: forward_loop_def mutex_lock_def forward_rounds_Cons f(1) forward_rounds_released del: forward_rounds.simps)
  moreover have "forward_loop 0 [(r, 0, rs)] pl h fq = Some (Waiting, concat raws,
      pl\<lparr>pl_pq := Ref q', pl_sent_min_seq := pl_sent_min_seq pl + int (length raws)\<rparr>, h', fq')"
    by (simp add: forward_loop_def mutex_lock_def forward_rounds_Cons f(1) del: forward_rounds.simps(2))
  ultimately show ?thesis using f(2-4) by (intro exI [of _ raws] exI [of _ q'] exI conjI) auto
qed

end
