(* ===== verification/Split.thy ===== *)
theory Split
  imports Io Logger
begin

text \<open>
  The transmitter proxy, \<open>tx_proxy/split.c\<close> and \<open>split.h\<close>: a splitting thread cuts the
  intercepted stream into blocks and appends them to a shared buffer (\<open>split_loop\<close>,
  \<open>add2buff\<close>); connection threads take blocks from it, number them and send them
  (\<open>tx_chain\<close>); the controller opens the connections (\<open>run_controller\<close>, \<open>set_link\<close>).
\<close>

section \<open>Data\<close>

definition INITIAL_CAPACITY :: int where
  "INITIAL_CAPACITY = 1000"

definition CONN_NUMBER :: int where
  "CONN_NUMBER = 2"

text \<open>The states of a link, \<open>CLOSED\<close>, \<open>ACTIVE\<close> and \<open>PASSIVE\<close>.\<close>

definition link_CLOSED :: int where "link_CLOSED = -1"

definition link_ACTIVE :: int where "link_ACTIVE = 1"

definition link_PASSIVE :: int where "link_PASSIVE = 0"

text \<open>\<open>proxy_buff\<close>; what runs under its mutex is one step.\<close>

record proxy_buff =
  pb_rx_byte :: int
  pb_fin_flag :: bool
  pb_tx_byte :: int
  pb_set_ind :: int
  pb_get_ind :: int
  pb_capacity :: int
  pb_buffer :: "byte arr arr"

record split_args =
  sa_local_port :: string
  sa_buff :: proxy_buff

record cb_cntrl_args =
  ca_conn_number :: int
  ca_dest_ip :: string
  ca_dest_port :: string
  ca_buff :: proxy_buff

record link =
  lk_src_port :: int
  lk_fd :: int
  lk_state :: int

section \<open>The shared buffer\<close>

text \<open>
  \<open>set_split_args\<close>: \<open>mutex_init\<close> is the result of \<open>pthread_mutex_init\<close>; every slot receives a
  block whose bytes are indeterminate.
\<close>

definition set_split_args :: "int \<Rightarrow> string \<Rightarrow> split_args run option" where
  "set_split_args mutex_init local_port =
     (if mutex_init \<noteq> 0 then Some (LOG_ASSERT LL_ERROR (mutex_init = 0) Waiting)
      else do {
        buffer \<leftarrow> arr_fill (arr_new (nat INITIAL_CAPACITY)) 0 (nat INITIAL_CAPACITY) (arr_new BLOCKSIZE);
        Some (Returned \<lparr>sa_local_port = local_port,
          sa_buff = \<lparr>pb_rx_byte = 0, pb_fin_flag = False, pb_tx_byte = 0, pb_set_ind = -1, pb_get_ind = 0,
            pb_capacity = INITIAL_CAPACITY, pb_buffer = buffer\<rparr>\<rparr>)
      })"

text \<open>The first loop of \<open>add2buff\<close>: the tail of a short block becomes zero.\<close>

definition zero_residue :: "byte arr \<Rightarrow> int \<Rightarrow> byte arr option" where
  "zero_residue raw_buf recv_count =
     (if recv_count > 0 \<and> recv_count < int BLOCKSIZE
      then arr_fill raw_buf (nat recv_count) (BLOCKSIZE - nat recv_count) 0
      else Some raw_buf)"

text \<open>The extension of the buffer; \<open>2 * sizeof(char*)\<close> is 16.\<close>

definition extend_buff :: "proxy_buff \<Rightarrow> proxy_buff option" where
  "extend_buff buff = do {
     remained \<leftarrow> cint (pb_capacity buff - pb_set_ind buff);
     if remained < 2 * 8
     then do {
       cap \<leftarrow> cint (pb_capacity buff * 2);
       pre_count \<leftarrow> cidx (pb_capacity buff);
       buffer \<leftarrow> arr_fill (arr_realloc (pb_buffer buff) (nat cap)) pre_count (nat cap - pre_count) (arr_new BLOCKSIZE);
       Some (buff\<lparr>pb_capacity := cap, pb_buffer := buffer\<rparr>)
     }
     else Some buff
   }"

text \<open>\<open>add2buff\<close>; \<open>lock\<close> and \<open>unlock\<close> are the results of the mutex calls.\<close>

definition add2buff :: "int \<Rightarrow> int \<Rightarrow> proxy_buff \<Rightarrow> byte arr \<Rightarrow> int \<Rightarrow> (int run \<times> proxy_buff) option" where
  "add2buff lock unlock buff raw_buf recv_count = do {
     raw \<leftarrow> zero_residue raw_buf recv_count;
     if lock \<noteq> 0 then Some (LOG_ASSERT LL_ERROR (lock = 0) Waiting, buff)
     else do {
       buff1 \<leftarrow> extend_buff buff;
       set_ind \<leftarrow> cint (pb_set_ind buff1 + 1);
       i \<leftarrow> cidx set_ind;
       buffer \<leftarrow> arr_set (pb_buffer buff1) i raw;
       rx_byte \<leftarrow> cint (pb_rx_byte buff1 + int BLOCKSIZE);
       let buff2 = buff1\<lparr>pb_set_ind := set_ind, pb_buffer := buffer, pb_rx_byte := rx_byte\<rparr>;
       diff \<leftarrow> cint (pb_set_ind buff2 - pb_get_ind buff2);
       Some (LOG_ASSERT LL_ERROR (unlock = 0) (Returned diff), buff2)
     }
   }"

section \<open>The splitting thread\<close>

text \<open>\<open>CONN_CLOSE\<close> of \<open>split_loop\<close>: what was received last is added, then the flag is set.\<close>

definition split_close :: "int \<Rightarrow> int \<Rightarrow> proxy_buff \<Rightarrow> byte arr \<Rightarrow> nat \<Rightarrow> (unit run \<times> proxy_buff) option" where
  "split_close lock unlock buff raw_buf recv_count =
     (if recv_count > 0
      then do {
        (e, buff') \<leftarrow> add2buff lock unlock buff raw_buf (int recv_count);
        (case e of
           Returned diff \<Rightarrow> Some (Returned (), buff'\<lparr>pb_fin_flag := True\<rparr>)
         | Exited s \<Rightarrow> Some (Exited s, buff')
         | Waiting \<Rightarrow> Some (Waiting, buff'))
      }
      else Some (Returned (), buff\<lparr>pb_fin_flag := True\<rparr>))"

text \<open>
  One iteration of the loop of \<open>split_loop\<close>: how the loop ends (\<open>Inl\<close>), or what the socket still
  delivers when it goes on (\<open>Inr\<close>). The environment supplies the result of \<open>poll\<close>, the returned
  events, and the results of the two mutex calls of \<open>add2buff\<close>.
\<close>

fun split_round :: "int \<times> int \<times> int \<times> int \<Rightarrow> recv_ev list \<Rightarrow> proxy_buff \<Rightarrow>
    ((unit run + recv_ev list) \<times> proxy_buff) option" where
  "split_round (r, revents, lock, unlock) es buff =
     (if r > 0
      then if revents = POLLERR
      then do { (e, buff') \<leftarrow> split_close lock unlock buff [] 0; Some (Inl e, buff') }
      else if revents = POLLIN
      then do {
        (e, raw_buf, recv_count, es') \<leftarrow> recv_fill False BLOCKSIZE (arr_new BLOCKSIZE) 0 es;
        (case e of
           Stalled \<Rightarrow> Some (Inl Waiting, buff)
         | Closed \<Rightarrow> do { (e', buff') \<leftarrow> split_close lock unlock buff raw_buf recv_count; Some (Inl e', buff') }
         | Filled \<Rightarrow> do {
             (e', buff') \<leftarrow> add2buff lock unlock buff raw_buf (int recv_count);
             Some (case e' of Returned diff \<Rightarrow> Inr es' | Exited s \<Rightarrow> Inl (Exited s) | Waiting \<Rightarrow> Inl Waiting, buff')
           })
      }
      else Some (Inr es, buff)
      else Some (Inr es, buff))"

fun split_polls :: "(int \<times> int \<times> int \<times> int) list \<Rightarrow> recv_ev list \<Rightarrow> proxy_buff \<Rightarrow> (unit run \<times> proxy_buff) option" where
  "split_polls [] es buff = Some (Waiting, buff)"
| "split_polls (x # polls) es buff = do {
     (next, buff') \<leftarrow> split_round x es buff;
     (case next of
        Inl e \<Rightarrow> Some (e, buff')
      | Inr es' \<Rightarrow> split_polls polls es' buff')
   }"

text \<open>
  \<open>split_loop\<close>: \<open>their_addr\<close> is written by a successful \<open>accept\<close>, and no address helper has a
  value for an address that was never written.
\<close>

definition split_loop :: "int \<Rightarrow> int \<Rightarrow> sockaddr option \<Rightarrow> (int \<times> int \<times> int \<times> int) list \<Rightarrow> recv_ev list \<Rightarrow>
    proxy_buff \<Rightarrow> (unit run \<times> proxy_buff) option" where
  "split_loop listen accept their_addr polls es buff =
     (if listen \<noteq> 0 then Some (LOG_ASSERT LL_ERROR (listen = 0) Waiting, buff)
      else if accept \<noteq> -1 then Some (LOG_ASSERT LL_ERROR (accept = -1) Waiting, buff)
      else do {
        a \<leftarrow> their_addr;
        _ \<leftarrow> get_in_ipaddr a;
        split_polls polls es buff
      })"

text \<open>\<open>get_payload\<close>, from the results of the socket calls.\<close>

definition get_payload :: "int \<Rightarrow> bool \<Rightarrow> int \<Rightarrow> int \<Rightarrow> int \<Rightarrow> int \<Rightarrow> int \<Rightarrow> sockaddr option \<Rightarrow>
    (int \<times> int \<times> int \<times> int) list \<Rightarrow> recv_ev list \<Rightarrow> split_args \<Rightarrow> (unit run \<times> proxy_buff) option" where
  "get_payload getaddrinfo addr_set sockfd setsockopt bind_ret listen accept their_addr polls es split =
     (case LOG_ASSERT LL_ERROR (getaddrinfo = 0) (LOG_ASSERT LL_ERROR addr_set (LOG_ASSERT LL_ERROR (sockfd \<noteq> -1)
        (LOG_ASSERT LL_ERROR (setsockopt = 0) (LOG_ASSERT LL_ERROR (bind_ret = 0) (Returned ()))))) of
        Returned u \<Rightarrow> split_loop listen accept their_addr polls es (sa_buff split)
      | e \<Rightarrow> Some (e, sa_buff split))"

section \<open>The connection threads\<close>

datatype tx_next = TxPacket encaps_packet_t | TxFin | TxWait

text \<open>What \<open>tx_chain\<close> does under the mutex of the buffer.\<close>

definition tx_take :: "proxy_buff \<Rightarrow> (tx_next \<times> proxy_buff) option" where
  "tx_take buff = do {
     diff \<leftarrow> cint (pb_set_ind buff - pb_get_ind buff);
     if diff \<ge> 0
     then do {
       ind \<leftarrow> cidx (pb_get_ind buff);
       block \<leftarrow> arr_get (pb_buffer buff) ind;
       if length block < BLOCKSIZE then None
       else do {
         get_ind \<leftarrow> cint (pb_get_ind buff + 1);
         Some (TxPacket \<lparr>ep_seq = of_int (pb_get_ind buff), ep_raw_packet = take BLOCKSIZE block\<rparr>,
           buff\<lparr>pb_get_ind := get_ind\<rparr>)
       }
     }
     else Some (if pb_fin_flag buff then TxFin else TxWait, buff)
   }"

text \<open>
  One iteration of \<open>tx_chain\<close>: \<open>Returned True\<close> goes on, \<open>Returned False\<close> closes the connection.
  \<open>state\<close> is the state of the link when it is read, \<open>rs\<close> the results of \<open>send\<close>.
\<close>

definition tx_round :: "bool \<Rightarrow> int \<Rightarrow> int \<Rightarrow> int \<Rightarrow> int list \<Rightarrow> proxy_buff \<Rightarrow>
    (bool run \<times> byte arr \<times> proxy_buff) option" where
  "tx_round be lock unlock state rs buff =
     (if lock \<noteq> 0 then Some (LOG_ASSERT LL_ERROR (lock = 0) Waiting, [], buff)
      else do {
        (next, buff') \<leftarrow> tx_take buff;
        (case next of
           TxFin \<Rightarrow> Some (Returned False, [], buff')
         | TxWait \<Rightarrow> Some (LOG_ASSERT LL_ERROR (unlock = 0) (Returned (state \<noteq> link_PASSIVE)), [], buff')
         | TxPacket packet \<Rightarrow>
             if unlock \<noteq> 0 then Some (LOG_ASSERT LL_ERROR (unlock = 0) Waiting, [], buff')
             else (case send_fill True PACKET_SIZE (packet_bytes be packet) 0 rs of
                     (Filled, wire, _) \<Rightarrow> Some (Returned (state \<noteq> link_PASSIVE), wire, buff')
                   | (Closed, wire, _) \<Rightarrow> Some (Returned False, wire, buff')
                   | (Stalled, wire, _) \<Rightarrow> Some (Waiting, wire, buff')))
      })"

text \<open>
  \<open>tx_chain\<close>: before each iteration the other threads may have changed the buffer, which is
  what the function of the iteration stands for.
\<close>

fun tx_chain :: "bool \<Rightarrow> ((proxy_buff \<Rightarrow> proxy_buff) \<times> int \<times> int \<times> int \<times> int list) list \<Rightarrow> proxy_buff \<Rightarrow>
    (unit run \<times> byte arr \<times> proxy_buff) option" where
  "tx_chain be [] buff = Some (Waiting, [], buff)"
| "tx_chain be ((others, lock, unlock, state, rs) # rounds) buff = do {
     (e, wire, buff') \<leftarrow> tx_round be lock unlock state rs (others buff);
     (case e of
        Returned True \<Rightarrow> do {
          (e', wire', buff'') \<leftarrow> tx_chain be rounds buff';
          Some (e', wire @ wire', buff'')
        }
      | Returned False \<Rightarrow> Some (Returned (), wire, buff')
      | Exited s \<Rightarrow> Some (Exited s, wire, buff')
      | Waiting \<Rightarrow> Some (Waiting, wire, buff'))
   }"

section \<open>Links and the controller\<close>

text \<open>
  \<open>set_link\<close> and \<open>set_tx_sock\<close>, from the results of the socket calls; \<open>port\<close> is the port
  \<open>getsockname\<close> reports, as it lies in the struct.
\<close>

definition set_link :: "bool \<Rightarrow> int \<Rightarrow> int \<Rightarrow> int \<Rightarrow> ushort \<Rightarrow> int \<Rightarrow> int \<Rightarrow> link run" where
  "set_link be sockfd connect getsockname port mutex_init cond_init =
     LOG_ASSERT LL_ERROR (connect = 0) (LOG_ASSERT LL_ERROR (getsockname = 0)
       (LOG_ASSERT LL_ERROR (mutex_init = 0) (LOG_ASSERT LL_ERROR (cond_init = 0)
         (Returned \<lparr>lk_src_port = uint (htons be port), lk_fd = sockfd, lk_state = link_ACTIVE\<rparr>))))"

definition set_tx_sock :: "int \<Rightarrow> int \<Rightarrow> int run" where
  "set_tx_sock sockfd connect =
     LOG_ASSERT LL_ERROR (sockfd \<noteq> -1) (LOG_ASSERT LL_ERROR (connect = 0) (Returned sockfd))"

definition set_controller_args :: "string \<Rightarrow> string \<Rightarrow> proxy_buff \<Rightarrow> cb_cntrl_args" where
  "set_controller_args dest_ip dest_port buff =
     \<lparr>ca_conn_number = CONN_NUMBER, ca_dest_ip = dest_ip, ca_dest_port = dest_port, ca_buff = buff\<rparr>"

text \<open>
  \<open>run_controller\<close>: the i-th iteration sets the i-th link and creates its thread, and any
  failure ends the process. The environment supplies each outcome of \<open>set_link\<close> and the
  result of \<open>pthread_create\<close>; the result is the links whose threads run.
\<close>

fun controller_links :: "nat \<Rightarrow> (link run \<times> int) list \<Rightarrow> link list run" where
  "controller_links 0 rs = Returned []"
| "controller_links (Suc k) [] = Waiting"
| "controller_links (Suc k) ((l, create) # rs) =
     (case l of
        Returned lk \<Rightarrow> LOG_ASSERT LL_ERROR (create = 0)
          (case controller_links k rs of Returned lks \<Rightarrow> Returned (lk # lks) | Exited s \<Rightarrow> Exited s | Waiting \<Rightarrow> Waiting)
      | Exited s \<Rightarrow> Exited s
      | Waiting \<Rightarrow> Waiting)"

definition run_controller :: "cb_cntrl_args \<Rightarrow> (link run \<times> int) list \<Rightarrow> link list run" where
  "run_controller cntrl_args rs = controller_links (nat (ca_conn_number cntrl_args)) rs"

section \<open>The buffer as a log of blocks\<close>

text \<open>The blocks added so far, oldest first.\<close>

definition pb_log :: "proxy_buff \<Rightarrow> byte arr list" where
  "pb_log buff = map (\<lambda>i. the (pb_buffer buff ! i)) [0..<nat (pb_set_ind buff + 1)]"

definition pb_inv :: "proxy_buff \<Rightarrow> bool" where
  "pb_inv buff \<longleftrightarrow> -1 \<le> pb_set_ind buff \<and> 0 \<le> pb_get_ind buff \<and> pb_get_ind buff \<le> pb_set_ind buff + 1 \<and>
     pb_set_ind buff + 15 \<le> pb_capacity buff \<and> 1000 \<le> pb_capacity buff \<and>
     pb_capacity buff \<le> max 1000 (2 * (pb_set_ind buff + 15)) \<and>
     length (pb_buffer buff) = nat (pb_capacity buff) \<and>
     (\<forall>x\<in>set (pb_buffer buff). \<exists>block. x = Some block \<and> length block = BLOCKSIZE) \<and>
     pb_rx_byte buff = 1000 * (pb_set_ind buff + 1)"

lemma pb_inv_init:
  "\<exists>split. set_split_args 0 port = Some (Returned split) \<and> pb_inv (sa_buff split) \<and> pb_log (sa_buff split) = [] \<and>
    pb_get_ind (sa_buff split) = 0 \<and> \<not> pb_fin_flag (sa_buff split)"
  by (simp add: set_split_args_def arr_fill_end INITIAL_CAPACITY_def pb_inv_def pb_log_def)

lemma length_pb_log: "pb_inv buff \<Longrightarrow> int (length (pb_log buff)) = pb_set_ind buff + 1"
  by (simp add: pb_log_def pb_inv_def)

lemma pb_log_block:
  assumes "pb_inv buff" and "i < length (pb_log buff)"
  shows "length (pb_log buff ! i) = BLOCKSIZE"
proof -
  have i: "i < length (pb_buffer buff)" using assms by (auto simp: pb_log_def pb_inv_def)
  have "\<exists>block. pb_buffer buff ! i = Some block \<and> length block = BLOCKSIZE"
    using assms(1) nth_mem [OF i] unfolding pb_inv_def by blast
  then show ?thesis using assms(2) by (auto simp: pb_log_def)
qed

text \<open>Extension keeps the blocks and leaves room for one more.\<close>

lemma extend_buff_correct:
  assumes inv: "pb_inv buff" and lim: "pb_set_ind buff < 2147482"
  shows "\<exists>cap buffer. extend_buff buff = Some (buff\<lparr>pb_capacity := cap, pb_buffer := buffer\<rparr>) \<and>
    pb_set_ind buff + 16 \<le> cap \<and> 1000 \<le> cap \<and> cap \<le> max 1000 (2 * (pb_set_ind buff + 15)) \<and> length buffer = nat cap \<and>
    (\<forall>x\<in>set buffer. \<exists>block. x = Some block \<and> length block = BLOCKSIZE) \<and>
    (\<forall>i<nat (pb_capacity buff). buffer ! i = pb_buffer buff ! i)"
proof (cases "pb_capacity buff - pb_set_ind buff < 16")
  case True
  let ?pre = "nat (pb_capacity buff)" and ?cap = "pb_capacity buff * 2"
  let ?new = "pb_buffer buff @ replicate (nat ?cap - ?pre) (Some (arr_new BLOCKSIZE))"
  have "arr_fill (arr_realloc (pb_buffer buff) (nat ?cap)) ?pre (nat ?cap - ?pre) (arr_new BLOCKSIZE) = Some ?new"
    using inv by (subst arr_fill_end) (auto simp: pb_inv_def arr_realloc_def)
  moreover have "int_range (pb_capacity buff - pb_set_ind buff)" "int_range ?cap" "cidx (pb_capacity buff) = Some ?pre"
    using inv lim True by (auto simp: pb_inv_def int_range_def cidx_nonneg)
  ultimately have "extend_buff buff = Some (buff\<lparr>pb_capacity := ?cap, pb_buffer := ?new\<rparr>)"
    using True by (simp add: extend_buff_def)
  moreover have "\<forall>x\<in>set ?new. \<exists>block. x = Some block \<and> length block = BLOCKSIZE"
    using inv by (auto simp: pb_inv_def)
  moreover have "\<forall>i<?pre. ?new ! i = pb_buffer buff ! i" "length ?new = nat ?cap"
    using inv by (auto simp: pb_inv_def nth_append)
  ultimately show ?thesis using inv True by (intro exI [of _ ?cap] exI [of _ ?new]) (auto simp: pb_inv_def)
next
  case False
  have "int_range (pb_capacity buff - pb_set_ind buff)" using inv lim by (auto simp: pb_inv_def int_range_def)
  with False have "extend_buff buff = Some (buff\<lparr>pb_capacity := pb_capacity buff, pb_buffer := pb_buffer buff\<rparr>)"
    by (simp add: extend_buff_def)
  with False inv show ?thesis by (intro exI [of _ "pb_capacity buff"] exI [of _ "pb_buffer buff"]) (auto simp: pb_inv_def)
qed

text \<open>A received block with its zeroed tail.\<close>

definition padded :: "byte list \<Rightarrow> byte arr" where
  "padded bs = map Some bs @ replicate (BLOCKSIZE - length bs) (Some 0)"

lemma length_padded: "length bs \<le> BLOCKSIZE \<Longrightarrow> length (padded bs) = BLOCKSIZE"
  by (simp add: padded_def)

lemma zero_residue_padded:
  assumes "0 < length bs" and "length bs \<le> BLOCKSIZE"
  shows "zero_residue (map Some bs @ arr_new (BLOCKSIZE - length bs)) (int (length bs)) = Some (padded bs)"
  using assms by (auto simp: zero_residue_def arr_fill_end padded_def arr_new_def)

lemma add2buff_correct:
  assumes inv: "pb_inv buff" and lim: "pb_set_ind buff < 2147482"
    and raw: "zero_residue raw_buf recv_count = Some raw" "length raw = BLOCKSIZE"
  shows "\<exists>buff'. add2buff 0 0 buff raw_buf recv_count = Some (Returned (pb_set_ind buff + 1 - pb_get_ind buff), buff') \<and>
    pb_inv buff' \<and> pb_log buff' = pb_log buff @ [raw] \<and> pb_get_ind buff' = pb_get_ind buff \<and>
    pb_set_ind buff' = pb_set_ind buff + 1 \<and> pb_fin_flag buff' = pb_fin_flag buff \<and> pb_tx_byte buff' = pb_tx_byte buff"
proof -
  obtain cap buffer where ext: "extend_buff buff = Some (buff\<lparr>pb_capacity := cap, pb_buffer := buffer\<rparr>)"
    and cap: "pb_set_ind buff + 16 \<le> cap" "1000 \<le> cap" "cap \<le> max 1000 (2 * (pb_set_ind buff + 15))" "length buffer = nat cap"
    and blk: "\<forall>x\<in>set buffer. \<exists>block. x = Some block \<and> length block = BLOCKSIZE"
    and keep: "\<forall>i<nat (pb_capacity buff). buffer ! i = pb_buffer buff ! i"
    using extend_buff_correct [OF inv lim] by blast
  let ?i = "nat (pb_set_ind buff + 1)"
  let ?buff = "buff\<lparr>pb_capacity := cap, pb_buffer := buffer[?i := Some raw], pb_set_ind := pb_set_ind buff + 1,
    pb_rx_byte := pb_rx_byte buff + int BLOCKSIZE\<rparr>"
  have rng: "int_range (pb_set_ind buff + 1)" "int_range (pb_rx_byte buff + int BLOCKSIZE)"
    "int_range (pb_set_ind buff + 1 - pb_get_ind buff)" "cidx (pb_set_ind buff + 1) = Some ?i" and i: "?i < length buffer"
    using inv lim cap by (auto simp: pb_inv_def int_range_def BLOCKSIZE_def cidx_def)
  have "add2buff 0 0 buff raw_buf recv_count = Some (Returned (pb_set_ind buff + 1 - pb_get_ind buff), ?buff)"
    using rng i raw by (simp add: add2buff_def ext Let_def arr_set_def)
  moreover have "pb_inv ?buff"
  proof -
    have "\<forall>x\<in>set (buffer[?i := Some raw]). \<exists>block. x = Some block \<and> length block = BLOCKSIZE"
      using blk raw(2) set_update_subset_insert [of buffer ?i "Some raw"] by auto
    then show ?thesis using inv cap by (auto simp: pb_inv_def BLOCKSIZE_def)
  qed
  moreover have "pb_log ?buff = pb_log buff @ [raw]"
  proof -
    have "map (\<lambda>j. the (buffer[?i := Some raw] ! j)) [0..<?i] = map (\<lambda>j. the (pb_buffer buff ! j)) [0..<?i]"
      using keep inv by (intro map_cong) (auto simp: pb_inv_def)
    moreover have "nat (pb_set_ind buff + 1 + 1) = Suc ?i" using inv by (auto simp: pb_inv_def)
    ultimately show ?thesis using i by (simp add: pb_log_def)
  qed
  ultimately show ?thesis by (intro exI [of _ ?buff]) simp
qed

text \<open>The counter of received bytes is a signed \<open>int\<close>: \<open>add2buff\<close> overflows it
  with the 2147484th block.\<close>

lemma add2buff_rx_byte_overflow:
  assumes "2 ^ 31 \<le> pb_rx_byte buff + int BLOCKSIZE"
  shows "add2buff 0 unlock buff raw_buf recv_count = None"
proof -
  have none: "cint (pb_rx_byte buff + int BLOCKSIZE) = None" using assms by (simp add: cint_def int_range_def)
  show ?thesis
  proof (cases "extend_buff buff")
    case None
    then show ?thesis by (simp add: add2buff_def)
  next
    case (Some b)
    then have "pb_rx_byte b = pb_rx_byte buff"
      by (auto simp: extend_buff_def split: Option.bind_splits if_splits)
    with Some none show ?thesis by (simp add: add2buff_def)
  qed
qed

text \<open>Taking returns the blocks of the log in order, each with its position as its number.\<close>

lemma tx_take_packet:
  assumes inv: "pb_inv buff" and lim: "pb_set_ind buff < 2147483" and more: "pb_get_ind buff \<le> pb_set_ind buff"
  shows "tx_take buff = Some (TxPacket \<lparr>ep_seq = of_int (pb_get_ind buff),
      ep_raw_packet = pb_log buff ! nat (pb_get_ind buff)\<rparr>, buff\<lparr>pb_get_ind := pb_get_ind buff + 1\<rparr>)"
    and "pb_inv (buff\<lparr>pb_get_ind := pb_get_ind buff + 1\<rparr>)"
    and "pb_log (buff\<lparr>pb_get_ind := pb_get_ind buff + 1\<rparr>) = pb_log buff"
proof -
  let ?i = "nat (pb_get_ind buff)"
  have i: "?i < length (pb_buffer buff)" using inv more by (auto simp: pb_inv_def)
  have "\<exists>block. pb_buffer buff ! ?i = Some block \<and> length block = BLOCKSIZE"
    using inv nth_mem [OF i] unfolding pb_inv_def by blast
  then obtain block where block: "pb_buffer buff ! ?i = Some block" "length block = BLOCKSIZE" by blast
  have log: "pb_log buff ! ?i = block" using inv more block by (auto simp: pb_log_def pb_inv_def)
  have "int_range (pb_set_ind buff - pb_get_ind buff)" "int_range (pb_get_ind buff + 1)" "cidx (pb_get_ind buff) = Some ?i"
    using inv lim more by (auto simp: pb_inv_def int_range_def cidx_def)
  then show "tx_take buff = Some (TxPacket \<lparr>ep_seq = of_int (pb_get_ind buff),
      ep_raw_packet = pb_log buff ! nat (pb_get_ind buff)\<rparr>, buff\<lparr>pb_get_ind := pb_get_ind buff + 1\<rparr>)"
    using i block more by (simp add: tx_take_def log arr_get_def)
  show "pb_inv (buff\<lparr>pb_get_ind := pb_get_ind buff + 1\<rparr>)" using inv more by (auto simp: pb_inv_def)
qed (simp add: pb_log_def)

lemma tx_take_none:
  assumes "pb_inv buff" and "pb_set_ind buff < 2147483" and "pb_set_ind buff < pb_get_ind buff"
  shows "tx_take buff = Some (if pb_fin_flag buff then TxFin else TxWait, buff)"
  using assms by (auto simp: tx_take_def pb_inv_def int_range_def)

end
