(* ===== verification/Block_Log.thy ===== *)
theory Block_Log
  imports Split
begin

text \<open>
  What the threads of the transmitter proxy rely on: the shared buffer is an append-only log
  with a read position. The locale states the laws of putting and taking, shows what any
  interleaving of the two hands out, and is interpreted on \<open>add2buff\<close> and \<open>tx_take\<close>. The
  second half is the splitting loop, which fills the log from the intercepted stream.
\<close>

section \<open>Interface\<close>

datatype 'b log_op = Put 'b | Take

text \<open>A schedule of the threads: what is handed out, and the final state.\<close>

fun run_ops :: "('s \<Rightarrow> 'b \<Rightarrow> 's option) \<Rightarrow> ('s \<Rightarrow> ('x ref \<times> 's) option) \<Rightarrow> 'b log_op list \<Rightarrow> 's \<Rightarrow>
    ('x list \<times> 's) option" where
  "run_ops put take_next [] s = Some ([], s)"
| "run_ops put take_next (Put b # ops) s = do { s' \<leftarrow> put s b; run_ops put take_next ops s' }"
| "run_ops put take_next (Take # ops) s = do {
     (x, s1) \<leftarrow> take_next s;
     (xs, s2) \<leftarrow> run_ops put take_next ops s1;
     Some ((case x of Null \<Rightarrow> [] | Ref y \<Rightarrow> [y]) @ xs, s2)
   }"

fun puts :: "'b log_op list \<Rightarrow> 'b list" where
  "puts [] = []"
| "puts (Put b # ops) = b # puts ops"
| "puts (Take # ops) = puts ops"

locale block_log =
  fixes invar :: "'s \<Rightarrow> bool" and log :: "'s \<Rightarrow> 'b list" and taken :: "'s \<Rightarrow> nat" and lim :: nat
    and ok :: "'b \<Rightarrow> bool" and label :: "nat \<Rightarrow> 'l"
    and put :: "'s \<Rightarrow> 'b \<Rightarrow> 's option" and take_next :: "'s \<Rightarrow> (('l \<times> 'b) ref \<times> 's) option"
  assumes taken_le: "invar s \<Longrightarrow> taken s \<le> length (log s)"
    and put_appends: "invar s \<Longrightarrow> ok b \<Longrightarrow> length (log s) < lim \<Longrightarrow>
      \<exists>s'. put s b = Some s' \<and> invar s' \<and> log s' = log s @ [b] \<and> taken s' = taken s"
    and take_more: "invar s \<Longrightarrow> length (log s) \<le> lim \<Longrightarrow> taken s < length (log s) \<Longrightarrow>
      \<exists>s'. take_next s = Some (Ref (label (taken s), log s ! taken s), s') \<and> invar s' \<and> log s' = log s \<and>
        taken s' = Suc (taken s)"
    and take_none: "invar s \<Longrightarrow> length (log s) \<le> lim \<Longrightarrow> taken s = length (log s) \<Longrightarrow> take_next s = Some (Null, s)"
begin

lemma run_ops_numbered:
  assumes "invar s" and "\<forall>b\<in>set (puts ops). ok b" and "length (log s) + length (puts ops) \<le> lim"
  shows "\<exists>s'. run_ops put take_next ops s = Some (map (\<lambda>i. (label i, log s' ! i)) [taken s..<taken s'], s') \<and>
    invar s' \<and> log s' = log s @ puts ops \<and> taken s \<le> taken s'"
  using assms
proof (induction ops arbitrary: s)
  case (Cons oper ops)
  have lim: "length (log s) \<le> lim" using Cons.prems(3) by simp
  consider (put) b where "oper = Put b" | (more) "oper = Take" "taken s < length (log s)"
    | (none) "oper = Take" "taken s = length (log s)"
    using taken_le [OF Cons.prems(1)] by (cases oper) fastforce+
  then show ?case
  proof cases
    case put
    then obtain s1 where s1: "put s b = Some s1" "invar s1" "log s1 = log s @ [b]" "taken s1 = taken s"
      using put_appends [of s b] Cons.prems by auto
    then show ?thesis using Cons.IH [of s1] Cons.prems put by simp
  next
    case more
    then obtain s1 where s1: "take_next s = Some (Ref (label (taken s), log s ! taken s), s1)" "invar s1"
      "log s1 = log s" "taken s1 = Suc (taken s)" using take_more [OF Cons.prems(1) lim] by auto
    obtain s' where ih: "run_ops put take_next ops s1 =
        Some (map (\<lambda>i. (label i, log s' ! i)) [Suc (taken s)..<taken s'], s')"
      "invar s'" "log s' = log s @ puts ops" "Suc (taken s) \<le> taken s'"
      using Cons.IH [OF s1(2)] s1 Cons.prems more by auto
    have "log s' ! taken s = log s ! taken s" using more by (simp add: ih(3) nth_append)
    moreover have "[taken s..<taken s'] = taken s # [Suc (taken s)..<taken s']" using ih(4) by (simp add: upt_conv_Cons)
    ultimately show ?thesis using s1(1) ih more by simp
  next
    case none
    then have "take_next s = Some (Null, s)" using take_none [OF Cons.prems(1) lim] by simp
    then show ?thesis using Cons.IH [OF Cons.prems(1)] Cons.prems none by auto
  qed
qed simp

end

section \<open>The shared buffer provides it\<close>

text \<open>\<open>add2buff\<close> of a full block, and \<open>tx_take\<close>, with their results repackaged.\<close>

definition pb_put :: "proxy_buff \<Rightarrow> byte arr \<Rightarrow> proxy_buff option" where
  "pb_put buff raw = map_option snd (add2buff 0 0 buff raw (int BLOCKSIZE))"

definition pb_take :: "proxy_buff \<Rightarrow> ((ushort \<times> byte arr) ref \<times> proxy_buff) option" where
  "pb_take buff = map_option (\<lambda>(x, b). (case x of TxPacket p \<Rightarrow> Ref (ep_seq p, ep_raw_packet p) | _ \<Rightarrow> Null, b)) (tx_take buff)"

text \<open>The number of blocks before the byte counter overflows.\<close>

definition LOG_LIMIT :: nat where
  "LOG_LIMIT = 2147483"

lemma zero_residue_full: "zero_residue raw (int BLOCKSIZE) = Some raw"
  by (simp add: zero_residue_def)

interpretation pb: block_log pb_inv pb_log "\<lambda>b. nat (pb_get_ind b)" LOG_LIMIT "\<lambda>raw. length raw = BLOCKSIZE"
  "\<lambda>i. of_nat i :: ushort" pb_put pb_take
proof (unfold_locales, goal_cases)
  case (1 s)
  then show ?case using length_pb_log [of s] by (auto simp: pb_inv_def)
next
  case (2 s b)
  then have "pb_set_ind s < 2147482" using length_pb_log [of s] by (simp add: LOG_LIMIT_def)
  then show ?case using add2buff_correct [OF 2(1) _ zero_residue_full 2(2)] by (auto simp: pb_put_def)
next
  case (3 s)
  then have "pb_set_ind s < 2147483" "pb_get_ind s \<le> pb_set_ind s" and g: "0 \<le> pb_get_ind s"
    using length_pb_log [of s] by (auto simp: LOG_LIMIT_def pb_inv_def)
  moreover have "of_int (pb_get_ind s) = (of_nat (nat (pb_get_ind s)) :: ushort)" using g by simp
  moreover have "nat (pb_get_ind s + 1) = Suc (nat (pb_get_ind s))" using g by simp
  ultimately show ?case using tx_take_packet [OF 3(1)] by (simp add: pb_take_def)
next
  case (4 s)
  then have "pb_set_ind s < 2147483" "pb_set_ind s < pb_get_ind s"
    using length_pb_log [of s] by (auto simp: LOG_LIMIT_def pb_inv_def)
  then show ?case using tx_take_none [OF 4(1)] by (simp add: pb_take_def)
qed

section \<open>The splitting loop\<close>

text \<open>The intercepted stream cut into blocks, the last one padded with zeros.\<close>

function blocks :: "byte list \<Rightarrow> byte arr list" where
  "blocks bs = (if bs = [] then [] else padded (take BLOCKSIZE bs) # blocks (drop BLOCKSIZE bs))"
  by pat_completeness auto
termination
  by (relation "measure length") (auto simp: BLOCKSIZE_def)

declare blocks.simps [simp del]

lemma blocks_Nil [simp]: "blocks [] = []"
  by (simp add: blocks.simps)

lemma blocks_bytes: "concat (blocks bs) = map Some (bs @ replicate ((BLOCKSIZE - length bs mod BLOCKSIZE) mod BLOCKSIZE) 0)"
proof (induction bs rule: blocks.induct)
  case (1 bs)
  consider (nil) "bs = []" | (last) "bs \<noteq> []" "length bs < BLOCKSIZE" | (more) "bs \<noteq> []" "BLOCKSIZE \<le> length bs" by linarith
  then show ?case
  proof cases
    case last
    then have "(BLOCKSIZE - length bs mod BLOCKSIZE) mod BLOCKSIZE = BLOCKSIZE - length bs" by simp
    with last show ?thesis by (subst blocks.simps) (simp add: padded_def)
  next
    case more
    then have "concat (blocks bs) = map Some (take BLOCKSIZE bs) @ concat (blocks (drop BLOCKSIZE bs))"
      by (subst blocks.simps) (simp add: padded_def)
    also have "(length bs - BLOCKSIZE) mod BLOCKSIZE = length bs mod BLOCKSIZE" using more by (simp add: le_mod_geq)
    then have "concat (blocks (drop BLOCKSIZE bs)) =
        map Some (drop BLOCKSIZE bs @ replicate ((BLOCKSIZE - length bs mod BLOCKSIZE) mod BLOCKSIZE) 0)"
      using "1.IH" more by simp
    finally show ?thesis by (simp flip: map_append append_assoc)
  qed simp
qed

lemma blocks_count: "length bs \<le> k * BLOCKSIZE \<Longrightarrow> length (blocks bs) \<le> k"
proof (induction bs arbitrary: k rule: blocks.induct)
  case (1 bs)
  show ?case
  proof (cases "bs = []")
    case False
    then obtain j where k: "k = Suc j" using "1.prems" by (cases k) auto
    have "length (blocks (drop BLOCKSIZE bs)) \<le> j" using "1.prems" False by (intro "1.IH") (simp_all add: k)
    then show ?thesis using False by (subst blocks.simps) (simp add: k)
  qed simp
qed

lemma recv_fill_no_err:
  "RecvErr \<notin> set es \<Longrightarrow> recv_fill False n buf c es = recv_fill True n buf c es"
proof (induction True n buf c es rule: recv_fill.induct)
  case (1 n buf c es)
  show ?case
  proof (cases "recv (n - c) es")
    case None
    then show ?thesis by (simp add: recv_fill.simps [of _ n buf c es])
  next
    case (Some t)
    obtain r bs es' where t: "recv (n - c) es = Some (r, bs, es')" using Some by (cases t) auto
    have es': "RecvErr \<notin> set es'" and r: "0 \<le> r"
      using "1.prems" t by (cases "(n - c, es)" rule: recv.cases; auto split: if_splits)+
    show ?thesis
      using "1.hyps"(1) [OF _ t refl refl _ _ es'] t r
      by (auto simp: recv_fill.simps [of _ n buf c es] split: Option.bind_splits)
  qed
qed

lemma recv_fill_keeps_no_err:
  assumes "recv_fill r n buf c es = Some (e, buf', c', es')" and "RecvErr \<notin> set es"
  shows "RecvErr \<notin> set es'"
  using assms
proof (induction r n buf c es rule: recv_fill.induct)
  case (1 r n buf c es)
  have step: "RecvErr \<notin> set es1" if "recv (n - c) es = Some (k, bs, es1)" for k bs es1
    using that "1.prems"(2) by (cases "(n - c, es)" rule: recv.cases) (auto split: if_splits)
  show ?case
  proof (cases "recv (n - c) es")
    case None
    with "1.prems" show ?thesis by (auto simp: recv_fill.simps [of r n buf c es] split: if_splits)
  next
    case (Some t)
    obtain k bs es1 where t: "recv (n - c) es = Some (k, bs, es1)" using Some by (cases t) auto
    have ih1: "RecvErr \<notin> set es'" if "c < n" "0 < k" "arr_blit buf c bs = Some b"
        "recv_fill r n b (c + nat k) es1 = Some (e, buf', c', es')" for b
      using "1.IH"(1) [OF that(1) t refl refl that(2,3,4) step [OF t]] .
    have ih2: "RecvErr \<notin> set es'" if "c < n" "\<not> 0 < k" "\<not> (k = 0 \<or> \<not> r)"
        "recv_fill r n buf c es1 = Some (e, buf', c', es')"
      using "1.IH"(2) [OF that(1) t refl refl that(2,3,4) step [OF t]] .
    show ?thesis
      using "1.prems" t step [OF t] ih1 ih2
      by (auto simp: recv_fill.simps [of r n buf c es] split: if_splits Option.bind_splits)
  qed
qed

lemma split_block:
  assumes "RecvErr \<notin> set es" and "ev_ends es"
  obtains e raw es' where "recv_fill False BLOCKSIZE (arr_new BLOCKSIZE) 0 es =
      Some (e, raw, min BLOCKSIZE (length (ev_bytes es)), es')"
    and "e = (if BLOCKSIZE \<le> length (ev_bytes es) then Filled else Closed)"
    and "raw = map Some (take BLOCKSIZE (ev_bytes es)) @ arr_new (BLOCKSIZE - length (ev_bytes es))"
    and "ev_bytes es' = drop BLOCKSIZE (ev_bytes es)" and "RecvErr \<notin> set es'" and "ev_ends es'"
proof -
  obtain e es' where f: "recv_fill True BLOCKSIZE (arr_new BLOCKSIZE) 0 es =
      Some (e, map Some (take BLOCKSIZE (ev_bytes es)) @ drop (length (ev_bytes es)) (arr_new BLOCKSIZE),
        min BLOCKSIZE (length (ev_bytes es)), es')"
    and es': "ev_bytes es' = drop BLOCKSIZE (ev_bytes es)" "ev_ends es' = ev_ends es"
    and e: "e = Filled \<longleftrightarrow> BLOCKSIZE \<le> length (ev_bytes es)" "e = Stalled \<longrightarrow> \<not> ev_ends es"
    using recv_fill_correct [of BLOCKSIZE "arr_new BLOCKSIZE" 0 es] by auto
  have "e = (if BLOCKSIZE \<le> length (ev_bytes es) then Filled else Closed)" using e assms(2) by (cases e) auto
  then show thesis
    using that [OF _ _ _ es'(1) recv_fill_keeps_no_err [OF f assms(1)]] f es' assms
    by (simp add: recv_fill_no_err arr_new_def)
qed

text \<open>Enough iterations in which \<open>poll\<close> reports data and nothing fails.\<close>

definition good_polls :: "(int \<times> int \<times> int \<times> int) list \<Rightarrow> nat \<Rightarrow> bool" where
  "good_polls polls k \<longleftrightarrow>
     (\<forall>(r, revents, lock, unlock)\<in>set polls. lock = 0 \<and> unlock = 0 \<and> (r > 0 \<longrightarrow> revents \<noteq> POLLERR)) \<and>
     k < length (filter (\<lambda>(r, revents, _). r > 0 \<and> revents = POLLIN) polls)"

text \<open>A full block is appended by \<open>add2buff\<close>, and the loop goes on with the rest of the stream.\<close>

lemma split_round_full:
  assumes es: "RecvErr \<notin> set es" "ev_ends es" "BLOCKSIZE \<le> length (ev_bytes es)" and r: "0 < r"
    and inv: "pb_inv buff" and lim: "pb_set_ind buff < 2147482"
  obtains es' raw d buff1 where "split_round (r, POLLIN, 0, 0) es buff = Some (Inr es', buff1)"
    and "add2buff 0 0 buff raw (int BLOCKSIZE) = Some (Returned d, buff1)" and "length raw = BLOCKSIZE"
    and "ev_bytes es' = drop BLOCKSIZE (ev_bytes es)" and "RecvErr \<notin> set es'" and "ev_ends es'"
    and "pb_inv buff1" and "pb_log buff1 = pb_log buff @ [padded (take BLOCKSIZE (ev_bytes es))]"
    and "pb_get_ind buff1 = pb_get_ind buff"
proof -
  let ?bs = "ev_bytes es"
  obtain e raw es' where f: "recv_fill False BLOCKSIZE (arr_new BLOCKSIZE) 0 es = Some (e, raw, min BLOCKSIZE (length ?bs), es')"
    and e: "e = (if BLOCKSIZE \<le> length ?bs then Filled else Closed)"
    and raw: "raw = map Some (take BLOCKSIZE ?bs) @ arr_new (BLOCKSIZE - length ?bs)"
    and es': "ev_bytes es' = drop BLOCKSIZE ?bs" "RecvErr \<notin> set es'" "ev_ends es'"
    by (rule split_block [OF es(1,2)])
  have blk: "raw = padded (take BLOCKSIZE ?bs)" "length raw = BLOCKSIZE" using es(3) by (simp_all add: raw padded_def arr_new_def)
  from add2buff_correct [OF inv lim zero_residue_full blk(2)] obtain d buff1 where
    add: "add2buff 0 0 buff raw (int BLOCKSIZE) = Some (Returned d, buff1)" "pb_inv buff1"
      "pb_log buff1 = pb_log buff @ [raw]" "pb_get_ind buff1 = pb_get_ind buff" by blast
  have "split_round (r, POLLIN, 0, 0) es buff = Some (Inr es', buff1)"
    using r es(3) add(1) by (simp add: f e POLLIN_def POLLERR_def)
  from that [OF this add(1) blk(2) es' add(2)] add(3,4) blk(1) show thesis by simp
qed

text \<open>What is left when the stream ends is appended as a padded block, if there is something, and
  the loop ends with the flag set.\<close>

lemma split_round_rest:
  assumes es: "RecvErr \<notin> set es" "ev_ends es" "length (ev_bytes es) < BLOCKSIZE" and r: "0 < r"
    and inv: "pb_inv buff" and lim: "length (pb_log buff) + length (blocks (ev_bytes es)) \<le> LOG_LIMIT"
  obtains buff1 where "split_round (r, POLLIN, 0, 0) es buff = Some (Inl (Returned ()), buff1\<lparr>pb_fin_flag := True\<rparr>)"
    and "pb_inv buff1" and "pb_log buff1 = pb_log buff @ blocks (ev_bytes es)" and "pb_get_ind buff1 = pb_get_ind buff"
    and "ev_bytes es = [] \<and> buff1 = buff \<or> (\<exists>raw n d. length raw = BLOCKSIZE \<and> 0 < n \<and> n \<le> int BLOCKSIZE \<and>
      add2buff 0 0 buff raw n = Some (Returned d, buff1))"
proof -
  let ?bs = "ev_bytes es"
  obtain e raw es' where f: "recv_fill False BLOCKSIZE (arr_new BLOCKSIZE) 0 es = Some (e, raw, min BLOCKSIZE (length ?bs), es')"
    and e: "e = (if BLOCKSIZE \<le> length ?bs then Filled else Closed)"
    and raw: "raw = map Some (take BLOCKSIZE ?bs) @ arr_new (BLOCKSIZE - length ?bs)"
    and "ev_bytes es' = drop BLOCKSIZE ?bs" "RecvErr \<notin> set es'" "ev_ends es'"
    by (rule split_block [OF es(1,2)])
  have run: "split_round (r, POLLIN, 0, 0) es buff = Some (Inl (Returned ()), b\<lparr>pb_fin_flag := True\<rparr>)"
    if "split_close 0 0 buff raw (length ?bs) = Some (Returned (), b\<lparr>pb_fin_flag := True\<rparr>)" for b
    using r es(3) that by (simp add: f e POLLIN_def POLLERR_def)
  show thesis
  proof (cases "?bs = []")
    case True
    with inv show thesis by (intro that [of buff] run) (simp_all add: split_close_def)
  next
    case False
    then have bs: "0 < length ?bs" "length ?bs \<le> BLOCKSIZE" and bl: "blocks ?bs = [padded ?bs]"
      using es(3) by (auto simp: blocks.simps [of ?bs])
    have lim': "pb_set_ind buff < 2147482" using lim bl length_pb_log [OF inv] by (simp add: LOG_LIMIT_def)
    have raw': "raw = map Some ?bs @ arr_new (BLOCKSIZE - length ?bs)" using es(3) by (simp add: raw)
    from add2buff_correct [OF inv lim' zero_residue_padded [OF bs] length_padded [OF bs(2)]] obtain d b where
      b: "add2buff 0 0 buff raw (int (length ?bs)) = Some (Returned d, b)" "pb_inv b" "pb_log b = pb_log buff @ [padded ?bs]"
        "pb_get_ind b = pb_get_ind buff" unfolding raw' by blast
    have "length raw = BLOCKSIZE" using es(3) by (simp add: raw arr_new_def)
    with b(1) bs have "\<exists>raw n d. length raw = BLOCKSIZE \<and> 0 < n \<and> n \<le> int BLOCKSIZE \<and>
        add2buff 0 0 buff raw n = Some (Returned d, b)"
      by (intro exI [of _ raw] exI [of _ "int (length ?bs)"] exI [of _ d]) simp
    with b bs show thesis by (intro that [of b] run disjI2) (simp_all add: split_close_def bl)
  qed
qed

lemma split_polls_blocks:
  assumes "pb_inv buff" and "RecvErr \<notin> set es" and "ev_ends es"
    and "length (pb_log buff) + length (blocks (ev_bytes es)) \<le> LOG_LIMIT"
    and "good_polls polls (length (blocks (ev_bytes es)))"
  shows "\<exists>buff'. split_polls polls es buff = Some (Returned (), buff') \<and> pb_inv buff' \<and>
    pb_log buff' = pb_log buff @ blocks (ev_bytes es) \<and> pb_get_ind buff' = pb_get_ind buff \<and> pb_fin_flag buff'"
  using assms
proof (induction polls arbitrary: es buff)
  case Nil
  then show ?case by (simp add: good_polls_def)
next
  case (Cons x polls)
  obtain r revents where x: "x = (r, revents, 0, 0)" and noerr: "r > 0 \<longrightarrow> revents \<noteq> POLLERR"
    using Cons.prems(5) by (cases x) (auto simp: good_polls_def)
  let ?bs = "ev_bytes es"
  show ?case
  proof (cases "r > 0 \<and> revents = POLLIN")
    case False
    then have "split_polls (x # polls) es buff = split_polls polls es buff" using noerr by (auto simp: x)
    moreover have "good_polls polls (length (blocks ?bs))" using Cons.prems(5) False by (auto simp: x good_polls_def)
    ultimately show ?thesis using Cons.IH [OF Cons.prems(1-4)] by simp
  next
    case True
    then have xp: "x = (r, POLLIN, 0, 0)" and r: "0 < r" by (simp_all add: x)
    show ?thesis
    proof (cases "BLOCKSIZE \<le> length ?bs")
      case full: True
      then have bl: "blocks ?bs = padded (take BLOCKSIZE ?bs) # blocks (drop BLOCKSIZE ?bs)"
        by (subst blocks.simps) (auto simp: BLOCKSIZE_def)
      have lim: "pb_set_ind buff < 2147482" using Cons.prems(1,4) bl length_pb_log [of buff] by (simp add: LOG_LIMIT_def)
      obtain es' buff1 where run: "split_round x es buff = Some (Inr es', buff1)"
        and es': "ev_bytes es' = drop BLOCKSIZE ?bs" "RecvErr \<notin> set es'" "ev_ends es'"
        and b1: "pb_inv buff1" "pb_log buff1 = pb_log buff @ [padded (take BLOCKSIZE ?bs)]" "pb_get_ind buff1 = pb_get_ind buff"
        unfolding xp using split_round_full [OF Cons.prems(2,3) full r Cons.prems(1) lim] by metis
      have "good_polls polls (length (blocks (ev_bytes es')))" using Cons.prems(5) True bl es'(1) by (auto simp: x good_polls_def)
      with Cons.IH [OF b1(1) es'(2,3)] Cons.prems(4) bl b1 es'(1) run show ?thesis by simp
    next
      case False
      then have short: "length ?bs < BLOCKSIZE" by simp
      have fin: "pb_inv (b\<lparr>pb_fin_flag := True\<rparr>) = pb_inv b" "pb_log (b\<lparr>pb_fin_flag := True\<rparr>) = pb_log b" for b
        by (simp_all add: pb_inv_def pb_log_def)
      obtain b where "split_round x es buff = Some (Inl (Returned ()), b\<lparr>pb_fin_flag := True\<rparr>)" "pb_inv b"
        "pb_log b = pb_log buff @ blocks ?bs" "pb_get_ind b = pb_get_ind buff"
        unfolding xp by (rule split_round_rest [OF Cons.prems(2,3) short r Cons.prems(1,4)])
      then show ?thesis by (simp add: fin)
    qed
  qed
qed

text \<open>C5: however the intercepted stream is cut, the splitting loop appends its
  bytes to the log as blocks, in order, the last one padded with zeros, sets the end flag and
  returns. The stream ends without a receive error, the log stays below the 2147482 blocks at
  which its counters overflow, no mutex call fails, and \<open>poll\<close> reports no error and one readable
  event more than there are blocks.\<close>

theorem split_polls_correct:
  assumes "pb_inv buff" and "RecvErr \<notin> set es" and "ev_ends es"
    and "length (pb_log buff) + length (blocks (ev_bytes es)) \<le> LOG_LIMIT"
    and "good_polls polls (length (blocks (ev_bytes es)))"
  shows "\<exists>buff'. split_polls polls es buff = Some (Returned (), buff') \<and> pb_inv buff' \<and>
    pb_log buff' = pb_log buff @ blocks (ev_bytes es) \<and> pb_get_ind buff' = pb_get_ind buff \<and> pb_fin_flag buff'"
  by (rule split_polls_blocks [OF assms])

section \<open>Sending a packet\<close>

lemma tx_round_sends:
  assumes "pb_inv buff" and "length (pb_log buff) \<le> LOG_LIMIT" and "pb_get_ind buff \<le> pb_set_ind buff"
    and "tx_round be 0 0 state rs buff = Some (e, wire, buff')"
  shows "\<exists>k. wire = take k (packet_bytes be \<lparr>ep_seq = of_int (pb_get_ind buff),
        ep_raw_packet = pb_log buff ! nat (pb_get_ind buff)\<rparr>) \<and>
    buff' = buff\<lparr>pb_get_ind := pb_get_ind buff + 1\<rparr> \<and> (e = Returned True \<longrightarrow> k = PACKET_SIZE)"
proof -
  let ?p = "\<lparr>ep_seq = of_int (pb_get_ind buff), ep_raw_packet = pb_log buff ! nat (pb_get_ind buff)\<rparr>"
  have lim: "pb_set_ind buff < 2147483" using assms(1,2) length_pb_log [of buff] by (simp add: LOG_LIMIT_def)
  note tk = tx_take_packet [OF assms(1) lim assms(3)]
  have "nat (pb_get_ind buff) < length (pb_log buff)"
    using assms(1,3) length_pb_log [of buff] by (auto simp: pb_inv_def)
  then have len: "length (packet_bytes be ?p) = PACKET_SIZE"
    using pb_log_block [OF assms(1)] by (simp add: length_packet_bytes)
  obtain f w rs' where sf: "send_fill True PACKET_SIZE (packet_bytes be ?p) 0 rs = (f, w, rs')" by (metis prod_cases3)
  obtain k where k: "w = take k (packet_bytes be ?p)" "f = Filled \<longrightarrow> k = PACKET_SIZE"
    using send_fill_prefix [OF sf] len by auto
  show ?thesis
    using assms(4) k by (cases f) (auto simp: tx_round_def tk sf)
qed

text \<open>When \<open>send\<close> returns 0 the connection thread closes with the packet it had taken: the
  read position is past it and no other thread will send it.\<close>

lemma tx_packet_lost:
  assumes "pb_inv buff" and "length (pb_log buff) \<le> LOG_LIMIT" and "pb_get_ind buff \<le> pb_set_ind buff"
  shows "tx_round be 0 0 state (0 # rs) buff = Some (Returned False, [], buff\<lparr>pb_get_ind := pb_get_ind buff + 1\<rparr>)"
proof -
  have "pb_set_ind buff < 2147483" using assms(1,2) length_pb_log [of buff] by (simp add: LOG_LIMIT_def)
  from tx_take_packet(1) [OF assms(1) this assms(3)] show ?thesis
    by (simp add: tx_round_def send_count_def PACKET_SIZE_def)
qed

text \<open>Where \<open>send\<close> keeps failing, the connection thread tries for ever: it neither gives the packet
  back nor closes.\<close>

lemma send_fill_errors: "sent_count < n \<Longrightarrow> send_fill close0 n buf sent_count (replicate k (-1)) = (Stalled, [], [])"
  by (induction k) (simp_all add: send_count_def)

lemma tx_round_stuck:
  assumes "pb_inv buff" and "length (pb_log buff) \<le> LOG_LIMIT" and "pb_get_ind buff \<le> pb_set_ind buff"
  shows "tx_round be 0 0 state (replicate k (-1)) buff = Some (Waiting, [], buff\<lparr>pb_get_ind := pb_get_ind buff + 1\<rparr>)"
proof -
  have "pb_set_ind buff < 2147483" using assms(1,2) length_pb_log [of buff] by (simp add: LOG_LIMIT_def)
  from tx_take_packet(1) [OF assms(1) this assms(3)] show ?thesis
    by (simp add: tx_round_def send_fill_errors PACKET_SIZE_def)
qed

section \<open>The assertion after \<open>accept\<close>\<close>

text \<open>
  \<open>poll\<close> ignores an entry with a negative descriptor, so with no other entry it never reports an
  event (a timeout is 0, an error -1).
\<close>

definition poll_ignores :: "int \<Rightarrow> (int \<times> int \<times> int \<times> int) list \<Rightarrow> bool" where
  "poll_ignores fd polls \<longleftrightarrow> (fd = -1 \<longrightarrow> (\<forall>(r, _)\<in>set polls. r \<le> 0))"

lemma split_polls_silent: "\<forall>(r, _)\<in>set polls. r \<le> 0 \<Longrightarrow> split_polls polls es buff = Some (Waiting, buff)"
  by (induction polls) auto

lemma get_payload_silent:
  assumes "poll_ignores accept polls"
    and "get_payload getaddrinfo addr_set sockfd setsockopt bind_ret listen accept their_addr polls es split = Some (e, buff)"
  shows "buff = sa_buff split" and "e = Exited EXIT_FAILURE \<or> e = Waiting"
  using assms
  by (auto simp: get_payload_def split_loop_def poll_ignores_def split_polls_silent LOG_ASSERT_def
      split: run.splits if_splits Option.bind_splits)

text \<open>The connection threads find nothing in a buffer that stays as it is.\<close>

lemma tx_chain_empty:
  assumes "pb_inv buff" and "pb_log buff = []" and "\<forall>x\<in>set rounds. fst x = id"
  shows "\<exists>e. tx_chain be rounds buff = Some (e, [], buff)"
  using assms(3)
proof (induction rounds)
  case (Cons x rounds)
  obtain others lock unlock state rs where x: "x = (others, lock, unlock, state, rs)" by (cases x)
  then have others: "others buff = buff" using Cons.prems by simp
  have "pb_set_ind buff = -1" "0 \<le> pb_get_ind buff" using assms(1,2) length_pb_log [of buff] by (simp_all add: pb_inv_def)
  then have take: "tx_take buff = Some (if pb_fin_flag buff then TxFin else TxWait, buff)"
    using assms(1) by (intro tx_take_none) simp_all
  obtain e where e: "tx_round be lock unlock state rs buff = Some (e, [], buff)"
    by (cases "lock = 0"; cases "pb_fin_flag buff") (simp_all add: tx_round_def take)
  obtain e' where "tx_chain be rounds buff = Some (e', [], buff)" using Cons by auto
  with e show ?case by (auto simp: x others split: run.split bool.split)
qed simp

text \<open>C20: the transmitter proxy as it is written carries nothing. The assertion after \<open>accept\<close> is
  the negation of the one meant: a connection that is accepted ends the process, and without
  one \<open>poll\<close> ignores the descriptor -1. So whatever the system calls return and whatever the
  socket would deliver, when \<open>get_payload\<close> has a defined result the process has exited with
  failure or the thread is still waiting, no block was added to the buffer, and a connection
  thread that runs on it sends no byte.\<close>

theorem nothing_intercepted:
  assumes "set_split_args mutex_init local_port = Some (Returned split)" and "poll_ignores accept polls"
    and "get_payload getaddrinfo addr_set sockfd setsockopt bind_ret listen accept their_addr polls es split = Some (e, buff)"
    and "\<forall>x\<in>set rounds. fst x = id"
  shows "(e = Exited EXIT_FAILURE \<or> e = Waiting) \<and> pb_log buff = [] \<and> \<not> pb_fin_flag buff \<and>
    (\<exists>e'. tx_chain be rounds buff = Some (e', [], buff))"
proof -
  have "mutex_init = 0" using assms(1) by (auto simp: set_split_args_def split: if_splits)
  then obtain s where "set_split_args mutex_init local_port = Some (Returned s)" "pb_inv (sa_buff s)"
    "pb_log (sa_buff s) = []" "\<not> pb_fin_flag (sa_buff s)" using pb_inv_init [of local_port] by blast
  with assms(1) get_payload_silent [OF assms(2,3)] tx_chain_empty [OF _ _ assms(4), of buff be] show ?thesis by auto
qed

end
