(* ===== verification/Proxy_System.thy ===== *)
theory Proxy_System
  imports Forward Block_Log
begin

text \<open>
  The two proxies together, as a step relation: the splitting thread appends blocks, a
  connection thread sends one packet over its connection, a receiving thread takes one packet
  from a connection into the pool, the forwarding thread writes what is in order. Each step
  is what the code does under a mutex, with the socket calls that follow it; the steps of all
  threads interleave freely. The connections deliver their bytes in order.
\<close>

section \<open>The system\<close>

record sys =
  s_buff :: proxy_buff
  s_chans :: "byte arr list"
  s_pl :: pool_t
  s_h :: "node_t nheap"
  s_fq :: fqueue_t
  s_out :: "byte arr"

text \<open>
  The steps. Their guards are what the environment provides: connections that do not break,
  memory for nodes and for the queue, writes to the destination that accept whole blocks, and
  a forward queue whose buffer suffices.
\<close>

inductive sys_step :: "bool \<Rightarrow> sys \<Rightarrow> sys \<Rightarrow> bool" for be where
  split: "length raw_buf = BLOCKSIZE \<Longrightarrow> 0 < recv_count \<Longrightarrow> recv_count \<le> int BLOCKSIZE \<Longrightarrow>
    add2buff 0 0 (s_buff s) raw_buf recv_count = Some (Returned d, buff') \<Longrightarrow>
    sys_step be s (s\<lparr>s_buff := buff'\<rparr>)"
| fin: "sys_step be s (s\<lparr>s_buff := (s_buff s)\<lparr>pb_fin_flag := True\<rparr>\<rparr>)"
| tx: "c < length (s_chans s) \<Longrightarrow>
    tx_round be 0 0 state rs (s_buff s) = Some (Returned True, wire, buff') \<Longrightarrow>
    sys_step be s (s\<lparr>s_buff := buff', s_chans := (s_chans s)[c := s_chans s ! c @ wire]\<rparr>)"
| rx: "c < length (s_chans s) \<Longrightarrow> PACKET_SIZE \<le> length (s_chans s ! c) \<Longrightarrow>
    s_h s ns = None \<Longrightarrow> pl_pq (s_pl s) = Ref q \<Longrightarrow> pq_room ok q \<Longrightarrow>
    add2queue be ok (s_pl s) (s_h s) ns (take PACKET_SIZE (s_chans s ! c)) = Some (pl', h') \<Longrightarrow>
    sys_step be s (s\<lparr>s_chans := (s_chans s)[c := drop PACKET_SIZE (s_chans s ! c)], s_pl := pl', s_h := h'\<rparr>)"
| fwd: "pl_pq (s_pl s) = Ref q \<Longrightarrow> fill_room (s_fq s) (card (pool_items q (s_h s))) \<Longrightarrow>
    whole_sends rs \<Longrightarrow> card (pool_items q (s_h s)) \<le> accepts rs \<Longrightarrow>
    forward_round r 0 rs (s_pl s) (s_h s) (s_fq s) = Some (Returned (), wire, pl', h', fq') \<Longrightarrow>
    sys_step be s (s\<lparr>s_pl := pl', s_h := h', s_fq := fq', s_out := s_out s @ wire\<rparr>)"

inductive sys_reach :: "bool \<Rightarrow> sys \<Rightarrow> sys \<Rightarrow> bool" for be s0 where
  start: "sys_reach be s0 s0"
| step: "sys_reach be s0 s \<Longrightarrow> sys_step be s s' \<Longrightarrow> sys_reach be s0 s'"

definition sys_init :: "int \<Rightarrow> sys" where
  "sys_init sockfd =
     (case set_split_args 0 [] of
        Some (Returned split) \<Rightarrow>
          \<lparr>s_buff = sa_buff split, s_chans = replicate (nat CONN_NUMBER) [], s_pl = pool_init True True,
           s_h = (\<lambda>_. None), s_fq = wait2forward_fq sockfd, s_out = []\<rparr>)"

section \<open>The invariant\<close>

definition pkt_item :: "encaps_packet_t \<Rightarrow> nat \<times> byte arr" where
  "pkt_item p = (unat (ep_seq p), ep_raw_packet p)"

text \<open>The blocks of the log numbered n to g - 1.\<close>

definition log_items :: "byte arr list \<Rightarrow> nat \<Rightarrow> nat \<Rightarrow> (nat \<times> byte arr) multiset" where
  "log_items log n g = mset (map (\<lambda>i. (i, log ! i)) [n..<g])"

text \<open>
  With n blocks forwarded: the output is their concatenation, and every block taken from the
  log and not yet forwarded is once in the pool or once on a connection.
\<close>

definition sys_at :: "bool \<Rightarrow> sys \<Rightarrow> node_t pqueue_t \<Rightarrow> nat \<Rightarrow> encaps_packet_t list list \<Rightarrow> bool" where
  "sys_at be s q n flight \<longleftrightarrow>
     pb_inv (s_buff s) \<and> pl_pq (s_pl s) = Ref q \<and> rx_queue q (s_h s) \<and> counters_ok (s_pl s) \<and>
     pl_sent_min_seq (s_pl s) = int n \<and> fq_ok (s_fq s) n \<and> int n \<le> pb_get_ind (s_buff s) \<and>
     s_out s = concat (take n (pb_log (s_buff s))) \<and>
     s_chans s = map (\<lambda>ps. concat (map (packet_bytes be) ps)) flight \<and>
     mset_set (pool_items q (s_h s)) + image_mset pkt_item (mset (concat flight)) =
       log_items (pb_log (s_buff s)) n (nat (pb_get_ind (s_buff s)))"

text \<open>Sequence numbers have 16 bits, so the invariant is stated for logs that fit.\<close>

definition sys_inv :: "bool \<Rightarrow> sys \<Rightarrow> bool" where
  "sys_inv be s \<longleftrightarrow> (length (pb_log (s_buff s)) \<le> 65536 \<longrightarrow> (\<exists>q n flight. sys_at be s q n flight))"

subsection \<open>Log items\<close>

lemma set_log_items: "set_mset (log_items log n g) = (\<lambda>i. (i, log ! i)) ` {n..<g}"
  by (simp add: log_items_def)

lemma log_items_Suc: "n \<le> g \<Longrightarrow> log_items log n (Suc g) = add_mset (g, log ! g) (log_items log n g)"
  by (simp add: log_items_def)

lemma log_items_append: "g \<le> length log \<Longrightarrow> log_items (log @ xs) n g = log_items log n g"
  unfolding log_items_def by (intro arg_cong [where f = mset] map_cong) (auto simp: nth_append)

lemma log_items_split: "n \<le> m \<Longrightarrow> m \<le> g \<Longrightarrow> log_items log n g = log_items log n m + log_items log m g"
  using upt_add_eq_append [of n m "g - m"] by (simp add: log_items_def)

lemma mset_set_log_items: "mset_set (set_mset (log_items log n g)) = log_items log n g"
  unfolding log_items_def set_mset_mset by (rule mset_set_set) (simp add: distinct_map inj_on_def)

text \<open>A number occurs on one side only.\<close>

lemma log_items_disjoint:
  assumes "A + B = log_items log n g" and "x \<in># A" and "y \<in># B"
  shows "fst x \<noteq> fst y"
proof
  assume eq: "fst x = fst y"
  have "image_mset fst (log_items log n g) = mset [n..<g]"
    unfolding log_items_def by (simp only: mset_map [symmetric] map_map comp_def fst_conv map_ident)
  then have sum: "image_mset fst A + image_mset fst B = mset [n..<g]"
    using arg_cong [OF assms(1), of "image_mset fst"] by simp
  have "count (mset [n..<g]) (fst x) \<le> 1" using distinct_count_atmost_1 [of "[n..<g]"] by auto
  moreover have "0 < count (image_mset fst A) (fst x)" using assms(2) by simp
  moreover have "0 < count (image_mset fst B) (fst x)" using assms(3) by (simp add: eq)
  ultimately show False using count_union [of "image_mset fst A" "image_mset fst B" "fst x"] unfolding sum by linarith
qed

lemma mset_concat_update:
  assumes "c < length xs"
  shows "mset (concat (xs[c := y])) + mset (xs ! c) = mset (concat xs) + mset y"
proof -
  have "mset (concat xs) = mset (concat (take c xs)) + mset (xs ! c) + mset (concat (drop (Suc c) xs))"
    by (subst id_take_nth_drop [OF assms]) simp
  then show ?thesis using assms by (simp add: upd_conv_take_nth_drop)
qed

subsection \<open>The steps keep it\<close>

lemma sys_at_items:
  assumes "sys_at be s q n flight"
  shows "x \<in> pool_items q (s_h s) \<or> x \<in> pkt_item ` set (concat flight) \<longleftrightarrow>
    (\<exists>i. n \<le> i \<and> i < nat (pb_get_ind (s_buff s)) \<and> x = (i, pb_log (s_buff s) ! i))"
proof -
  have "set_mset (mset_set (pool_items q (s_h s)) + image_mset pkt_item (mset (concat flight))) =
      set_mset (log_items (pb_log (s_buff s)) n (nat (pb_get_ind (s_buff s))))"
    using assms unfolding sys_at_def by presburger
  then have "x \<in> pool_items q (s_h s) \<union> pkt_item ` set (concat flight) \<longleftrightarrow>
      x \<in> (\<lambda>i. (i, pb_log (s_buff s) ! i)) ` {n..<nat (pb_get_ind (s_buff s))}"
    by (simp only: set_log_items set_mset_union set_image_mset set_mset_mset finite_set_mset_mset_set finite_pool_items)
  then show ?thesis by (simp only: Un_iff image_iff Bex_def atLeastLessThan_iff conj_assoc)
qed

lemma sys_at_bounds:
  assumes "sys_at be s q n flight"
  shows "nat (pb_get_ind (s_buff s)) \<le> length (pb_log (s_buff s))" and "n \<le> nat (pb_get_ind (s_buff s))"
  using assms length_pb_log [of "s_buff s"] by (auto simp: sys_at_def pb_inv_def)

lemma sys_at_block:
  assumes "sys_at be s q n flight" and "x \<in> pool_items q (s_h s) \<or> x \<in> pkt_item ` set (concat flight)"
  shows "n \<le> fst x" and "fst x < nat (pb_get_ind (s_buff s))" and "snd x = pb_log (s_buff s) ! fst x"
    and "length (snd x) = BLOCKSIZE"
proof -
  obtain i where i: "n \<le> i" "i < nat (pb_get_ind (s_buff s))" "x = (i, pb_log (s_buff s) ! i)"
    using assms sys_at_items [OF assms(1), of x] by blast
  moreover have "length (pb_log (s_buff s) ! i) = BLOCKSIZE"
    using assms(1) i sys_at_bounds(1) [OF assms(1)] by (intro pb_log_block) (auto simp: sys_at_def)
  ultimately show "n \<le> fst x" "fst x < nat (pb_get_ind (s_buff s))" "snd x = pb_log (s_buff s) ! fst x"
    "length (snd x) = BLOCKSIZE" by simp_all
qed

lemma arr_fill_length: "arr_fill a i k x = Some b \<Longrightarrow> length b = length a"
  by (induction k arbitrary: a i) (auto simp: arr_set_def split: Option.bind_splits if_splits)

lemma step_split:
  assumes at: "sys_at be s q n flight" and raw: "length raw_buf = BLOCKSIZE" "0 < recv_count" "recv_count \<le> int BLOCKSIZE"
    and lim: "length (pb_log (s_buff s)) \<le> 65536"
    and add: "add2buff 0 0 (s_buff s) raw_buf recv_count = Some (Returned d, buff')"
  shows "sys_at be (s\<lparr>s_buff := buff'\<rparr>) q n flight" and "length (pb_log (s_buff s)) \<le> length (pb_log buff')"
proof -
  have inv: "pb_inv (s_buff s)" using at by (simp add: sys_at_def)
  have set_ind: "pb_set_ind (s_buff s) < 2147482" using lim length_pb_log [OF inv] by simp
  obtain raw' where raw': "zero_residue raw_buf recv_count = Some raw'"
    using add by (auto simp: add2buff_def split: Option.bind_splits)
  have len: "length raw' = BLOCKSIZE" using raw' raw(1) by (auto simp: zero_residue_def dest: arr_fill_length split: if_splits)
  have new: "pb_inv buff'" "pb_log buff' = pb_log (s_buff s) @ [raw']" "pb_get_ind buff' = pb_get_ind (s_buff s)"
    using add2buff_correct [OF inv set_ind raw' len] add by auto
  show "sys_at be (s\<lparr>s_buff := buff'\<rparr>) q n flight"
    using at sys_at_bounds [OF at] new by (simp add: sys_at_def log_items_append)
  show "length (pb_log (s_buff s)) \<le> length (pb_log buff')" using new by simp
qed

lemma of_int_seq: "0 \<le> i \<Longrightarrow> i < 65536 \<Longrightarrow> unat (of_int i :: ushort) = nat i"
  by (simp add: unat_eq_nat_uint uint_word_of_int)

lemma step_tx:
  assumes at: "sys_at be s q n flight" and c: "c < length (s_chans s)" and lim: "length (pb_log (s_buff s)) \<le> 65536"
    and tx: "tx_round be 0 0 state rs (s_buff s) = Some (Returned True, wire, buff')"
  shows "\<exists>flight'. sys_at be (s\<lparr>s_buff := buff', s_chans := (s_chans s)[c := s_chans s ! c @ wire]\<rparr>) q n flight'"
    and "pb_log buff' = pb_log (s_buff s)"
proof -
  let ?b = "s_buff s" and ?g = "nat (pb_get_ind (s_buff s))"
  have inv: "pb_inv ?b" and chans: "s_chans s = map (\<lambda>ps. concat (map (packet_bytes be) ps)) flight"
    using at by (simp_all add: sys_at_def)
  have lim': "length (pb_log ?b) \<le> LOG_LIMIT" using lim by (simp add: LOG_LIMIT_def)
  have g0: "0 \<le> pb_get_ind ?b" using inv by (simp add: pb_inv_def)
  have "(\<exists>flight'. sys_at be (s\<lparr>s_buff := buff', s_chans := (s_chans s)[c := s_chans s ! c @ wire]\<rparr>) q n flight') \<and>
      pb_log buff' = pb_log ?b"
  proof (cases "pb_get_ind ?b \<le> pb_set_ind ?b")
    case False
    then have "tx_take ?b = Some (if pb_fin_flag ?b then TxFin else TxWait, ?b)"
      using inv lim length_pb_log [OF inv] by (intro tx_take_none) auto
    then have "wire = []" "buff' = ?b" using tx by (auto simp: tx_round_def split: if_splits)
    then show ?thesis using at by (auto simp: sys_at_def)
  next
    case True
    let ?p = "\<lparr>ep_seq = of_int (pb_get_ind ?b), ep_raw_packet = pb_log ?b ! ?g\<rparr>"
    have g: "?g < length (pb_log ?b)" using True g0 length_pb_log [OF inv] by linarith
    have len: "length (packet_bytes be ?p) = PACKET_SIZE" using pb_log_block [OF inv g] by (simp add: length_packet_bytes)
    have wire: "wire = packet_bytes be ?p" "buff' = ?b\<lparr>pb_get_ind := pb_get_ind ?b + 1\<rparr>"
      using tx_round_sends [OF inv lim' True tx] len by auto
    have item: "pkt_item ?p = (?g, pb_log ?b ! ?g)" using g g0 lim by (simp add: pkt_item_def of_int_seq)
    let ?flight = "flight[c := flight ! c @ [?p]]"
    have "mset (concat ?flight) = add_mset ?p (mset (concat flight))"
      using mset_concat_update [of c flight "flight ! c @ [?p]"] c chans by simp
    moreover have "nat (pb_get_ind ?b + 1) = Suc ?g" using g0 by simp
    moreover have log': "pb_log buff' = pb_log ?b" by (simp add: wire pb_log_def)
    moreover have "pb_inv buff'" unfolding wire(2) using inv True by (auto simp: pb_inv_def)
    moreover have "(s_chans s)[c := s_chans s ! c @ wire] = map (\<lambda>ps. concat (map (packet_bytes be) ps)) ?flight"
      using c by (simp add: chans map_update wire)
    ultimately have "sys_at be (s\<lparr>s_buff := buff', s_chans := (s_chans s)[c := s_chans s ! c @ wire]\<rparr>) q n ?flight"
      using at sys_at_bounds [OF at] item by (simp add: sys_at_def wire(2) log_items_Suc)
    then show ?thesis using log' by blast
  qed
  then show "\<exists>flight'. sys_at be (s\<lparr>s_buff := buff', s_chans := (s_chans s)[c := s_chans s ! c @ wire]\<rparr>) q n flight'"
    and "pb_log buff' = pb_log ?b" by auto
qed

text \<open>The first packet of a connection that holds one, and that its number is not in the pool.\<close>

lemma flight_head:
  assumes at: "sys_at be s q n flight" and c: "c < length (s_chans s)" "PACKET_SIZE \<le> length (s_chans s ! c)"
  obtains p ps where "flight ! c = p # ps" and "take PACKET_SIZE (s_chans s ! c) = packet_bytes be p"
    and "drop PACKET_SIZE (s_chans s ! c) = concat (map (packet_bytes be) ps)"
    and "unat (ep_seq p) \<notin> fst ` pool_items q (s_h s)"
proof -
  have chans: "s_chans s = map (\<lambda>ps. concat (map (packet_bytes be) ps)) flight"
    and items: "mset_set (pool_items q (s_h s)) + image_mset pkt_item (mset (concat flight)) =
      log_items (pb_log (s_buff s)) n (nat (pb_get_ind (s_buff s)))"
    using at by (simp_all add: sys_at_def)
  have cf: "c < length flight" using c(1) chans by simp
  obtain p ps where fl: "flight ! c = p # ps"
    using c chans cf by (cases "flight ! c") (auto simp: PACKET_SIZE_def)
  have p: "p \<in> set (concat flight)" using fl nth_mem [OF cf] by (auto intro!: bexI [of _ "p # ps"])
  have len: "length (packet_bytes be p) = PACKET_SIZE"
    using sys_at_block(4) [OF at, of "pkt_item p"] p by (simp add: pkt_item_def length_packet_bytes)
  have "unat (ep_seq p) \<notin> fst ` pool_items q (s_h s)"
  proof
    assume "unat (ep_seq p) \<in> fst ` pool_items q (s_h s)"
    then obtain x where "x \<in># mset_set (pool_items q (s_h s))" "fst x = fst (pkt_item p)" by (auto simp: pkt_item_def)
    with log_items_disjoint [OF items, of x "pkt_item p"] p show False by auto
  qed
  then show thesis using fl cf len by (intro that [of p ps]) (simp_all add: chans)
qed

lemma step_rx:
  assumes at: "sys_at be s q n flight" and c: "c < length (s_chans s)" "PACKET_SIZE \<le> length (s_chans s ! c)"
    and fresh: "s_h s ns = None" and room: "pq_room ok q"
    and add: "add2queue be ok (s_pl s) (s_h s) ns (take PACKET_SIZE (s_chans s ! c)) = Some (pl', h')"
  shows "\<exists>q' flight'. sys_at be
    (s\<lparr>s_chans := (s_chans s)[c := drop PACKET_SIZE (s_chans s ! c)], s_pl := pl', s_h := h'\<rparr>) q' n flight'"
proof -
  have pq: "pl_pq (s_pl s) = Ref q" and rx: "rx_queue q (s_h s)" and cnt: "counters_ok (s_pl s)"
    and chans: "s_chans s = map (\<lambda>ps. concat (map (packet_bytes be) ps)) flight"
    and items: "mset_set (pool_items q (s_h s)) + image_mset pkt_item (mset (concat flight)) =
      log_items (pb_log (s_buff s)) n (nat (pb_get_ind (s_buff s)))"
    using at by (simp_all add: sys_at_def)
  have cf: "c < length flight" using c(1) chans by simp
  obtain p ps where fl: "flight ! c = p # ps" and head: "take PACKET_SIZE (s_chans s ! c) = packet_bytes be p"
    "drop PACKET_SIZE (s_chans s ! c) = concat (map (packet_bytes be) ps)"
    and new: "unat (ep_seq p) \<notin> fst ` pool_items q (s_h s)" by (rule flight_head [OF at c])
  have rng: "int_range (pl_avail_min_seq (s_pl s) + 1)" "int_range (pl_sent_min_seq (s_pl s) + 1)"
    using cnt by (simp_all add: counters_ok_def)
  obtain q' where pl': "pl' = add2queue_counters (s_pl s) (ep_seq p) (Ref q')" and rx': "rx_queue q' h'"
    and items': "pool_items q' h' = insert (pkt_item p) (pool_items q (s_h s))"
    using add2queue_correct [OF pq rx fresh new room rng, of be] add head(1) by (auto simp: pkt_item_def)
  let ?flight = "flight[c := ps]"
  have "mset (concat flight) = add_mset p (mset (concat ?flight))"
    using mset_concat_update [OF cf, of ps] fl by simp
  moreover have "pkt_item p \<notin> pool_items q (s_h s)" using new by (force simp: pkt_item_def)
  ultimately have "mset_set (pool_items q' h') + image_mset pkt_item (mset (concat ?flight)) =
      log_items (pb_log (s_buff s)) n (nat (pb_get_ind (s_buff s)))"
    using items by (simp add: items' del: mset_concat)
  moreover have "(s_chans s)[c := drop PACKET_SIZE (s_chans s ! c)] = map (\<lambda>ps. concat (map (packet_bytes be) ps)) ?flight"
    unfolding head(2) by (simp add: chans map_update)
  ultimately have "sys_at be (s\<lparr>s_chans := (s_chans s)[c := drop PACKET_SIZE (s_chans s ! c)], s_pl := pl', s_h := h'\<rparr>) q' n ?flight"
    using at rx' counters_ok_step [OF cnt, of "ep_seq p" "Ref q'"]
    by (simp add: sys_at_def pl' add2queue_counters_def del: mset_concat)
  then show ?thesis by blast
qed

lemma numbered_log:
  assumes "numbered n raws \<subseteq> (\<lambda>i. (i, log ! i)) ` {n..<g}"
  shows "set_mset (log_items log n (n + length raws)) = numbered n raws" and "raws = map ((!) log) [n..<n + length raws]"
proof -
  have eq: "raws ! i = log ! (n + i)" if "i < length raws" for i
    using assms that by (auto simp: numbered_def)
  show raws: "raws = map ((!) log) [n..<n + length raws]" by (rule nth_equalityI) (simp_all add: eq)
  have "{n..<n + length raws} = (+) n ` {..<length raws}" by (simp add: lessThan_atLeast0 add.commute)
  then show "set_mset (log_items log n (n + length raws)) = numbered n raws"
    unfolding set_log_items numbered_def by (simp add: image_image eq cong: image_cong_simp)
qed

lemma forward_round_at:
  assumes at: "sys_at be s q n flight" and lim: "length (pb_log (s_buff s)) \<le> 65536"
    and room: "fill_room (s_fq s) (card (pool_items q (s_h s)))"
    and rs: "whole_sends rs" "card (pool_items q (s_h s)) \<le> accepts rs"
  shows "\<exists>wire pl' h' fq' q' m. forward_round r 0 rs (s_pl s) (s_h s) (s_fq s) = Some (Returned (), wire, pl', h', fq') \<and>
    sys_at be (s\<lparr>s_pl := pl', s_h := h', s_fq := fq', s_out := s_out s @ wire\<rparr>) q' m flight \<and>
    n \<le> m \<and> m \<notin> fst ` pool_items q (s_h s)"
proof -
  let ?log = "pb_log (s_buff s)" and ?g = "nat (pb_get_ind (s_buff s))" and ?P = "pool_items q (s_h s)"
  note b = sys_at_bounds [OF at]
  have pq: "pl_pq (s_pl s) = Ref q" and rx: "rx_queue q (s_h s)" and fq: "fq_ok (s_fq s) n"
    and sm: "pl_sent_min_seq (s_pl s) = int n" and out: "s_out s = concat (take n ?log)"
    and items: "mset_set ?P + image_mset pkt_item (mset (concat flight)) = log_items ?log n ?g"
    using at by (simp_all add: sys_at_def)
  have fromn: "seqs_from n ?P" and blk: "\<forall>(j, raw)\<in>?P. length raw = BLOCKSIZE"
    using sys_at_block [OF at] b lim by (fastforce simp: seqs_from_def)+
  have n: "n \<le> 65536" using b lim by simp
  have sm0: "0 \<le> pl_sent_min_seq (s_pl s)" "pl_sent_min_seq (s_pl s) \<le> int n" using sm by simp_all
  obtain raws q' h' fq' where f: "forward_round r 0 rs (s_pl s) (s_h s) (s_fq s) = Some (Returned (), concat raws,
        (s_pl s)\<lparr>pl_pq := Ref q', pl_sent_min_seq := pl_sent_min_seq (s_pl s) + int (length raws)\<rparr>, h', fq')"
      "rx_queue q' h'" "numbered n raws \<subseteq> ?P" "pool_items q' h' = ?P - numbered n raws"
      "n + length raws \<notin> fst ` ?P" "fq_ok fq' (n + length raws)"
    using forward_round_correct [OF pq rx fromn blk fq room n rs sm0, of r] by blast
  have sub: "?P \<subseteq> (\<lambda>i. (i, ?log ! i)) ` {n..<?g}"
  proof
    fix x assume "x \<in> ?P"
    then obtain i where "n \<le> i" "i < ?g" "x = (i, ?log ! i)" using sys_at_items [OF at, of x] by blast
    then show "x \<in> (\<lambda>i. (i, ?log ! i)) ` {n..<?g}" by simp
  qed
  note raws = numbered_log [OF subset_trans [OF f(3) sub]]
  let ?m = "n + length raws" and ?pl = "(s_pl s)\<lparr>pl_pq := Ref q', pl_sent_min_seq := pl_sent_min_seq (s_pl s) + int (length raws)\<rparr>"
  have m: "?m \<le> ?g"
  proof (cases raws rule: rev_cases)
    case (snoc ys y)
    then have "(n + length ys, y) \<in> ?P" using f(3) by (force simp: numbered_def nth_append)
    with sub snoc show ?thesis by auto
  qed (use b in simp)
  have "mset_set ?P = mset_set (numbered n raws) + mset_set (?P - numbered n raws)"
    using f(3) by (metis mset_set_Union Diff_disjoint Un_Diff_cancel Un_absorb1 finite_pool_items finite_subset finite_Diff)
  moreover have "mset_set (numbered n raws) = log_items ?log n ?m" using mset_set_log_items [of ?log n ?m] raws(1) by simp
  ultimately have "mset_set (pool_items q' h') + image_mset pkt_item (mset (concat flight)) = log_items ?log ?m ?g"
    using items log_items_split [OF _ m, of n ?log] unfolding f(4) by (simp add: add.assoc)
  moreover have "concat (take n ?log) @ concat raws = concat (take ?m ?log)"
  proof -
    have "take ?m ?log = take n ?log @ map ((!) ?log) [n..<?m]"
      using m b by (intro nth_equalityI) (auto simp: nth_append)
    then show ?thesis using raws(2) by (metis concat_append)
  qed
  ultimately have "sys_at be (s\<lparr>s_pl := ?pl, s_h := h', s_fq := fq', s_out := s_out s @ concat raws\<rparr>) q' ?m flight"
    using at f(2,6) m b lim sm out by (auto simp: sys_at_def counters_ok_def int_range_def)
  then show ?thesis using f(1,5) by (intro exI [of _ "concat raws"] exI [of _ ?pl] exI) (auto)
qed

section \<open>Reachable states\<close>

lemma length_log: "length (pb_log b) = nat (pb_set_ind b + 1)"
  by (simp add: pb_log_def)

lemma extend_buff_set_ind: "extend_buff b = Some b' \<Longrightarrow> pb_set_ind b' = pb_set_ind b"
  by (auto simp: extend_buff_def split: Option.bind_splits if_splits)

lemma add2buff_set_ind:
  assumes "add2buff 0 0 b raw_buf recv_count = Some (Returned d, b')"
  shows "pb_set_ind b' = pb_set_ind b + 1"
  using assms by (auto simp: add2buff_def Let_def cint_eq_Some_iff dest!: extend_buff_set_ind split: Option.bind_splits)

lemma tx_take_set_ind: "tx_take b = Some (x, b') \<Longrightarrow> pb_set_ind b' = pb_set_ind b"
  by (auto simp: tx_take_def split: Option.bind_splits if_splits)

lemma tx_round_set_ind: "tx_round be 0 0 state rs b = Some (e, wire, b') \<Longrightarrow> pb_set_ind b' = pb_set_ind b"
  by (auto simp: tx_round_def dest!: tx_take_set_ind split: Option.bind_splits tx_next.splits prod.splits fill_end.splits)

text \<open>The log only grows.\<close>

lemma sys_step_log: "sys_step be s s' \<Longrightarrow> length (pb_log (s_buff s)) \<le> length (pb_log (s_buff s'))"
  by (induction rule: sys_step.induct) (auto simp: length_log dest!: add2buff_set_ind tx_round_set_ind)

lemma sys_inv_step:
  assumes step: "sys_step be s s'" and inv: "sys_inv be s"
  shows "sys_inv be s'"
  unfolding sys_inv_def
proof
  assume "length (pb_log (s_buff s')) \<le> 65536"
  then have lim: "length (pb_log (s_buff s)) \<le> 65536" using sys_step_log [OF step] by simp
  with inv obtain q n flight where at: "sys_at be s q n flight" by (auto simp: sys_inv_def)
  have pq: "pl_pq (s_pl s) = Ref q" using at by (simp add: sys_at_def)
  from step show "\<exists>q n flight. sys_at be s' q n flight"
  proof cases
    case (split raw_buf recv_count d buff')
    then show ?thesis using step_split(1) [OF at _ _ _ lim] by blast
  next
    case fin
    have "pb_inv (b\<lparr>pb_fin_flag := True\<rparr>) = pb_inv b" "pb_log (b\<lparr>pb_fin_flag := True\<rparr>) = pb_log b" for b
      by (simp_all add: pb_inv_def pb_log_def)
    then have "sys_at be s' q n flight" using at fin by (simp add: sys_at_def)
    then show ?thesis by blast
  next
    case (tx c state rs wire buff')
    then show ?thesis using step_tx(1) [OF at _ lim] by blast
  next
    case (rx c ns q1 ok pl' h')
    then have "q1 = q" using pq by simp
    with rx obtain q' flight' where "sys_at be s' q' n flight'" using step_rx [OF at] by blast
    then show ?thesis by blast
  next
    case (fwd q1 rs r wire pl' h' fq')
    then show ?thesis using forward_round_at [OF at lim, of rs r] pq by auto
  qed
qed

lemma sys_init_facts:
  "pb_inv (s_buff (sys_init sockfd)) \<and> pb_log (s_buff (sys_init sockfd)) = [] \<and> pb_get_ind (s_buff (sys_init sockfd)) = 0 \<and>
   s_chans (sys_init sockfd) = [[], []] \<and> s_pl (sys_init sockfd) = pool_init True True \<and> s_h (sys_init sockfd) = (\<lambda>_. None) \<and>
   s_fq (sys_init sockfd) = wait2forward_fq sockfd \<and> s_out (sys_init sockfd) = []"
proof -
  obtain split where "set_split_args 0 [] = Some (Returned split)" "pb_inv (sa_buff split)" "pb_log (sa_buff split) = []"
    "pb_get_ind (sa_buff split) = 0" using pb_inv_init [of "[]"] by blast
  then show ?thesis by (simp add: sys_init_def CONN_NUMBER_def numeral_2_eq_2)
qed

lemma sys_at_init: "\<exists>q. sys_at be (sys_init sockfd) q 0 [[], []]"
proof -
  obtain q where q: "pl_pq (pool_init True True) = Ref q" "rx_queue q (\<lambda>_. None)" "pool_items q (\<lambda>_. None) = {}"
    by (rule pool_init_queue)
  have "counters_ok (pool_init True True)" "pl_sent_min_seq (pool_init True True) = 0"
    by (simp_all add: counters_ok_def pool_init_def int_range_def)
  with q have "sys_at be (sys_init sockfd) q 0 [[], []]"
    using sys_init_facts [of sockfd] by (simp add: sys_at_def fq_ok_init log_items_def)
  then show ?thesis by blast
qed

lemma sys_inv_reach: "sys_reach be (sys_init sockfd) s \<Longrightarrow> sys_inv be s"
proof (induction rule: sys_reach.induct)
  case start
  show ?case using sys_at_init [of be sockfd] by (auto simp: sys_inv_def)
next
  case (step s s')
  then show ?case by (blast intro: sys_inv_step)
qed

lemma sys_reach_at:
  assumes "sys_reach be (sys_init sockfd) s" and "length (pb_log (s_buff s)) \<le> 65536"
  obtains q n flight where "sys_at be s q n flight"
  using sys_inv_reach [OF assms(1)] assms(2) by (auto simp: sys_inv_def)

section \<open>What the destination receives\<close>

text \<open>C1: in every state the two proxies can reach, whatever the interleaving of
  their threads and the distribution of packets over the connections, what the destination
  has received is the concatenation of the first n blocks of the log, for some n: nothing is
  lost, duplicated, invented or reordered, as long as the log has at most 65536 blocks and the
  sequence numbers do not wrap. The guards of the steps ask for connections that do not break,
  memory, \<open>fill_room\<close> and whole writes to the destination.\<close>

theorem sys_output_prefix:
  assumes "sys_reach be (sys_init sockfd) s" and "length (pb_log (s_buff s)) \<le> 65536"
  shows "\<exists>n. int n \<le> pb_get_ind (s_buff s) \<and> s_out s = concat (take n (pb_log (s_buff s)))"
proof -
  obtain q n flight where "sys_at be s q n flight" by (rule sys_reach_at [OF assms])
  then show ?thesis by (auto simp: sys_at_def)
qed

text \<open>Once every block was sent and every connection is drained, the pool has what is left.\<close>

lemma drained_pool:
  assumes at: "sys_at be s q n flight" and sent: "pb_get_ind (s_buff s) = pb_set_ind (s_buff s) + 1"
    and drained: "\<forall>ch\<in>set (s_chans s). ch = []"
  shows "pool_items q (s_h s) = (\<lambda>i. (i, pb_log (s_buff s) ! i)) ` {n..<length (pb_log (s_buff s))}"
proof -
  let ?log = "pb_log (s_buff s)" and ?P = "pool_items q (s_h s)"
  have inv: "pb_inv (s_buff s)" and chans: "s_chans s = map (\<lambda>ps. concat (map (packet_bytes be) ps)) flight"
    using at by (simp_all add: sys_at_def)
  have g: "nat (pb_get_ind (s_buff s)) = length ?log" using length_pb_log [OF inv] sent by simp
  have "ps = []" if "ps \<in> set flight" for ps
    using drained that by (cases ps) (auto simp: chans packet_bytes_nonempty)
  then have flight: "concat flight = []" by simp
  have "mset_set ?P + image_mset pkt_item (mset (concat flight)) = log_items ?log n (nat (pb_get_ind (s_buff s)))"
    using at by (simp add: sys_at_def)
  then have P: "mset_set ?P = log_items ?log n (length ?log)" unfolding flight g by simp
  show ?thesis using arg_cong [OF P, of set_mset] by (simp only: set_log_items finite_set_mset_mset_set finite_pool_items)
qed

text \<open>C2: once every block of a log of at most 65536 was sent and every connection is drained, one
  round of the forwarding thread writes everything that is left: the destination then has the
  whole log. The round needs room in the buffer of the forward queue (\<open>fill_room\<close>; C17 shows what
  happens without), and writes to the destination that accept whole blocks (C18 shows what a
  partial one does), as many as the log has blocks.\<close>

theorem sys_output_complete:
  assumes reach: "sys_reach be (sys_init sockfd) s" and lim: "length (pb_log (s_buff s)) \<le> 65536"
    and sent: "pb_get_ind (s_buff s) = pb_set_ind (s_buff s) + 1" and drained: "\<forall>ch\<in>set (s_chans s). ch = []"
    and room: "fill_room (s_fq s) (length (pb_log (s_buff s)))"
    and rs: "whole_sends rs" "length (pb_log (s_buff s)) \<le> accepts rs"
  shows "\<exists>wire pl' h' fq'. forward_round r 0 rs (s_pl s) (s_h s) (s_fq s) = Some (Returned (), wire, pl', h', fq') \<and>
    s_out s @ wire = concat (pb_log (s_buff s))"
proof -
  obtain q n flight where at: "sys_at be s q n flight" by (rule sys_reach_at [OF reach lim])
  let ?log = "pb_log (s_buff s)" and ?P = "pool_items q (s_h s)"
  have set_P: "?P = (\<lambda>i. (i, ?log ! i)) ` {n..<length ?log}" by (rule drained_pool [OF at sent drained])
  have card: "card ?P \<le> length ?log" unfolding set_P using card_image_le [of "{n..<length ?log}" "\<lambda>i. (i, ?log ! i)"] by simp
  have room': "fill_room (s_fq s) (card ?P)" using room card by (auto simp: fill_room_def)
  have rs': "card ?P \<le> accepts rs" using rs(2) card by simp
  obtain wire pl' h' fq' q' m where f: "forward_round r 0 rs (s_pl s) (s_h s) (s_fq s) = Some (Returned (), wire, pl', h', fq')"
    "sys_at be (s\<lparr>s_pl := pl', s_h := h', s_fq := fq', s_out := s_out s @ wire\<rparr>) q' m flight" "n \<le> m" "m \<notin> fst ` ?P"
    using forward_round_at [OF at lim room' rs(1) rs', of r] by blast
  have "m \<ge> length ?log" using f(3,4) by (force simp: set_P)
  then have "s_out s @ wire = concat ?log" using f(2) by (simp add: sys_at_def)
  with f(1) show ?thesis by blast
qed

end
