(* ===== verification/Simulation.thy ===== *)
theory Simulation
  imports Main
begin

text \<open>
  Refinement between two step systems, the interface between the model of the proxies at the
  grain of system calls and the one at the grain of critical sections. A concrete step
  matches one abstract step or none. The bound is a condition on concrete states that, once
  it fails, does not hold again, so that it need only be asked of the last state of a run.
\<close>

locale bounded_simulation =
  fixes abs_step :: "'a \<Rightarrow> 'a \<Rightarrow> bool" and step :: "'c \<Rightarrow> 'c \<Rightarrow> bool"
    and match :: "'a \<Rightarrow> 'c \<Rightarrow> bool" and lim :: "'c \<Rightarrow> bool"
  assumes lim_back: "step b b' \<Longrightarrow> lim b' \<Longrightarrow> lim b"
    and simulation: "match s b \<Longrightarrow> lim b' \<Longrightarrow> step b b' \<Longrightarrow> match s b' \<or> (\<exists>s'. abs_step s s' \<and> match s' b')"
begin

lemma lim_run: "step\<^sup>*\<^sup>* b b' \<Longrightarrow> lim b' \<Longrightarrow> lim b"
  by (induction rule: rtranclp_induct) (blast intro: lim_back)+

lemma simulate:
  assumes "step\<^sup>*\<^sup>* b b'" and "match s b" and "lim b'"
  shows "\<exists>s'. abs_step\<^sup>*\<^sup>* s s' \<and> match s' b'"
  using assms(1,3)
proof (induction rule: rtranclp_induct)
  case base
  show ?case using assms(2) by blast
next
  case (step b1 b2)
  then obtain s1 where s1: "abs_step\<^sup>*\<^sup>* s s1" "match s1 b1" using lim_back by blast
  from simulation [OF s1(2) step.prems step.hyps(2)] s1(1) show ?case
    by (blast intro: rtranclp.rtrancl_into_rtrancl)
qed

text \<open>An invariant of the abstract system holds of what every concrete run is matched by.\<close>

lemma simulate_invariant:
  assumes "step\<^sup>*\<^sup>* b b'" and "match s b" and "lim b'" and "I s" and "\<And>x y. I x \<Longrightarrow> abs_step x y \<Longrightarrow> I y"
  obtains s' where "match s' b'" and "I s'"
proof -
  obtain s' where s': "abs_step\<^sup>*\<^sup>* s s'" "match s' b'" using simulate [OF assms(1-3)] by blast
  from s'(1) have "I s'" by (induction rule: rtranclp_induct) (use assms(4,5) in blast)+
  with s'(2) show thesis by (rule that)
qed

end

end
