(* ===== verification/Proxy_Bytes.thy ===== *)
theory Proxy_Bytes
  imports Proxy_System Simulation
begin

text \<open>
  The two proxies at the grain of single system calls. Where \<open>Proxy_System\<close> runs a critical
  section and the socket calls that follow it as one step, here every \<open>recv\<close>, and every \<open>send\<close> on
  a connection between the proxies, is a step of its own, with its own number of bytes, and the
  threads interleave between them. A \<open>send\<close> to the destination is a step of its own too, but it
  moves a whole block (C18 shows what \<open>forward_data\<close> does otherwise). The state adds what each thread keeps in its local variables. The theory
  shows that this system refines the coarser one; \<open>Proxy_Progress\<close> shows that it does not run
  for ever and does not get stuck.
\<close>

section \<open>The system\<close>

text \<open>
  For each connection: the packet \<open>tx_chain\<close> is sending and its \<open>sent_count\<close> (nothing at the
  head of its loop), the bytes in transit, and \<open>raw_buf\<close> and \<open>recv_count\<close> of \<open>rx_chain\<close>. For the
  forwarding thread: \<open>pack_cnt\<close> and \<open>count\<close> of \<open>forward_data\<close> while it runs.
\<close>

record bsys =
  b_buff :: proxy_buff
  b_tx :: "(byte arr \<times> nat) option list"
  b_chans :: "byte arr list"
  b_rx :: "(byte arr \<times> nat) list"
  b_pl :: pool_t
  b_h :: "node_t nheap"
  b_fq :: fqueue_t
  b_fwd :: "(nat \<times> nat) option"
  b_out :: "byte arr"

text \<open>
  The steps that carry data towards the destination. The guards are those of
  \<open>Proxy_System\<close>: connections that do not break, memory, a buffer of the forward queue that
  suffices, and writes to the destination that accept whole blocks.
\<close>

inductive b_work :: "bool \<Rightarrow> bsys \<Rightarrow> bsys \<Rightarrow> bool" for be where
  take: "c < length (b_tx b) \<Longrightarrow> b_tx b ! c = None \<Longrightarrow> tx_take (b_buff b) = Some (TxPacket p, buff') \<Longrightarrow>
    b_work be b (b\<lparr>b_buff := buff', b_tx := (b_tx b)[c := Some (packet_bytes be p, 0)]\<rparr>)"
| send: "c < length (b_tx b) \<Longrightarrow> b_tx b ! c = Some (buf, sent_count) \<Longrightarrow> sent_count < PACKET_SIZE \<Longrightarrow>
    0 < r \<Longrightarrow> numbytes = nat (send_count r (PACKET_SIZE - sent_count)) \<Longrightarrow>
    b_work be b (b\<lparr>b_tx := (b_tx b)[c := Some (buf, sent_count + numbytes)],
      b_chans := (b_chans b)[c := b_chans b ! c @ List.take numbytes (drop sent_count buf)]\<rparr>)"
| sent: "c < length (b_tx b) \<Longrightarrow> b_tx b ! c = Some (buf, PACKET_SIZE) \<Longrightarrow>
    b_work be b (b\<lparr>b_tx := (b_tx b)[c := None]\<rparr>)"
| recv: "c < length (b_rx b) \<Longrightarrow> b_rx b ! c = (raw_buf, recv_count) \<Longrightarrow> 0 < numbytes \<Longrightarrow>
    numbytes \<le> PACKET_SIZE - recv_count \<Longrightarrow> numbytes \<le> length (b_chans b ! c) \<Longrightarrow>
    b_work be b (b\<lparr>b_chans := (b_chans b)[c := drop numbytes (b_chans b ! c)],
      b_rx := (b_rx b)[c := (List.take recv_count raw_buf @ List.take numbytes (b_chans b ! c) @
        drop (recv_count + numbytes) raw_buf, recv_count + numbytes)]\<rparr>)"
| add: "c < length (b_rx b) \<Longrightarrow> b_rx b ! c = (raw_buf, PACKET_SIZE) \<Longrightarrow>
    b_h b ns = None \<Longrightarrow> pl_pq (b_pl b) = Ref q \<Longrightarrow> pq_room ok q \<Longrightarrow>
    add2queue be ok (b_pl b) (b_h b) ns raw_buf = Some (pl', h') \<Longrightarrow>
    b_work be b (b\<lparr>b_rx := (b_rx b)[c := (arr_new PACKET_SIZE, 0)], b_pl := pl', b_h := h'\<rparr>)"
| fill: "b_fwd b = None \<Longrightarrow> pl_pq (b_pl b) = Ref q \<Longrightarrow> fill_room (b_fq b) (card (pool_items q (b_h b))) \<Longrightarrow>
    fill_queue r (Ref q) (b_h b) (b_fq b) = Some (pack_cnt, pq', h', fq') \<Longrightarrow> pack_cnt \<noteq> -1 \<Longrightarrow>
    b_work be b (b\<lparr>b_pl := (b_pl b)\<lparr>pl_pq := pq'\<rparr>, b_h := h', b_fq := fq', b_fwd := Some (nat pack_cnt, 0)\<rparr>)"
| forward: "b_fwd b = Some (pack_cnt, cnt) \<Longrightarrow> cnt < pack_cnt \<Longrightarrow>
    arr_get (fq_buffer (b_fq b)) cnt = Some raw \<Longrightarrow> send_block raw 0 [r] = (Filled, wire, []) \<Longrightarrow>
    cint (fq_sent (b_fq b) + 1) = Some sent \<Longrightarrow>
    b_work be b (b\<lparr>b_fq := (b_fq b)\<lparr>fq_sent := sent\<rparr>, b_fwd := Some (pack_cnt, Suc cnt), b_out := b_out b @ wire\<rparr>)"
| forwarded: "b_fwd b = Some (pack_cnt, pack_cnt) \<Longrightarrow>
    cint (pl_sent_min_seq (b_pl b) + int pack_cnt) = Some s \<Longrightarrow>
    b_work be b (b\<lparr>b_fq := (b_fq b)\<lparr>fq_buffer := []\<rparr>, b_fwd := None, b_pl := (b_pl b)\<lparr>pl_sent_min_seq := s\<rparr>\<rparr>)"

text \<open>The other steps: new data, the end of the stream, and a round that finds nothing to forward.\<close>

inductive b_other :: "bsys \<Rightarrow> bsys \<Rightarrow> bool" where
  split: "length raw_buf = BLOCKSIZE \<Longrightarrow> 0 < recv_count \<Longrightarrow> recv_count \<le> int BLOCKSIZE \<Longrightarrow>
    add2buff 0 0 (b_buff b) raw_buf recv_count = Some (Returned d, buff') \<Longrightarrow>
    b_other b (b\<lparr>b_buff := buff'\<rparr>)"
| fin: "b_other b (b\<lparr>b_buff := (b_buff b)\<lparr>pb_fin_flag := True\<rparr>\<rparr>)"
| idle: "b_fwd b = None \<Longrightarrow> pl_pq (b_pl b) = Ref q \<Longrightarrow> fill_room (b_fq b) (card (pool_items q (b_h b))) \<Longrightarrow>
    fill_queue r (Ref q) (b_h b) (b_fq b) = Some (-1, pq', h', fq') \<Longrightarrow>
    b_other b (b\<lparr>b_pl := (b_pl b)\<lparr>pl_pq := pq'\<rparr>, b_h := h', b_fq := fq'\<rparr>)"

definition b_step :: "bool \<Rightarrow> bsys \<Rightarrow> bsys \<Rightarrow> bool" where
  "b_step be b b' \<longleftrightarrow> b_work be b b' \<or> b_other b b'"

definition b_init :: "int \<Rightarrow> bsys" where
  "b_init sockfd =
     (let s = sys_init sockfd; n = length (s_chans s) in
      \<lparr>b_buff = s_buff s, b_tx = replicate n None, b_chans = s_chans s, b_rx = replicate n (arr_new PACKET_SIZE, 0),
       b_pl = s_pl s, b_h = s_h s, b_fq = s_fq s, b_fwd = None, b_out = s_out s\<rparr>)"

abbreviation b_reach :: "bool \<Rightarrow> int \<Rightarrow> bsys \<Rightarrow> bool" where
  "b_reach be sockfd b \<equiv> (b_step be)\<^sup>*\<^sup>* (b_init sockfd) b"

text \<open>Sequence numbers have 16 bits.\<close>

definition b_lim :: "bsys \<Rightarrow> bool" where
  "b_lim b \<longleftrightarrow> length (pb_log (b_buff b)) \<le> 65536"

section \<open>The state seen at the coarser grain\<close>

definition tx_rest :: "(byte arr \<times> nat) option \<Rightarrow> byte arr" where
  "tx_rest t = (case t of None \<Rightarrow> [] | Some (buf, sent_count) \<Rightarrow> drop sent_count buf)"

definition rx_done :: "byte arr \<times> nat \<Rightarrow> byte arr" where
  "rx_done x = (case x of (raw_buf, recv_count) \<Rightarrow> take recv_count raw_buf)"

text \<open>A connection: what was received of the next packet, what is in transit, what is still to be sent.\<close>

definition conn_bytes :: "bsys \<Rightarrow> nat \<Rightarrow> byte arr" where
  "conn_bytes b c = rx_done (b_rx b ! c) @ b_chans b ! c @ tx_rest (b_tx b ! c)"

text \<open>The payloads \<open>forward_data\<close> still has to send.\<close>

definition fwd_rest :: "bsys \<Rightarrow> byte arr list" where
  "fwd_rest b = (case b_fwd b of None \<Rightarrow> []
     | Some (pack_cnt, cnt) \<Rightarrow> map (\<lambda>i. the (fq_buffer (b_fq b) ! i)) [cnt..<pack_cnt])"

text \<open>
  The coarser state: the packet being sent is on its connection, the payloads being forwarded
  are written. Between these two moments \<open>sent_min_seq\<close> lags behind, so \<open>add2queue\<close> may count a
  different number k of signals.
\<close>

definition b_abs :: "nat \<Rightarrow> bsys \<Rightarrow> sys" where
  "b_abs k b =
     \<lparr>s_buff = b_buff b, s_chans = map (conn_bytes b) [0..<length (b_chans b)],
      s_pl = (b_pl b)\<lparr>pl_cond := k, pl_sent_min_seq := pl_sent_min_seq (b_pl b) +
        (case b_fwd b of None \<Rightarrow> 0 | Some (pack_cnt, cnt) \<Rightarrow> int pack_cnt)\<rparr>,
      s_h = b_h b,
      s_fq = (case b_fwd b of None \<Rightarrow> b_fq b
        | Some (pack_cnt, cnt) \<Rightarrow> (b_fq b)\<lparr>fq_sent := fq_sent (b_fq b) + int (pack_cnt - cnt), fq_buffer := []\<rparr>),
      s_out = b_out b @ concat (fwd_rest b)\<rparr>"

text \<open>The local variables of the threads are in range.\<close>

definition tx_wf :: "(byte arr \<times> nat) option \<Rightarrow> bool" where
  "tx_wf t = (case t of None \<Rightarrow> True | Some (buf, sent_count) \<Rightarrow> length buf = PACKET_SIZE \<and> sent_count \<le> PACKET_SIZE)"

definition rx_wf :: "byte arr \<times> nat \<Rightarrow> bool" where
  "rx_wf x = (case x of (raw_buf, recv_count) \<Rightarrow> length raw_buf = PACKET_SIZE \<and> recv_count \<le> PACKET_SIZE)"

definition fwd_wf :: "bsys \<Rightarrow> bool" where
  "fwd_wf b = (case b_fwd b of None \<Rightarrow> True
     | Some (pack_cnt, cnt) \<Rightarrow> cnt \<le> pack_cnt \<and> -1 \<le> fq_sent (b_fq b) \<and>
         (\<forall>i<pack_cnt. \<exists>raw. arr_get (fq_buffer (b_fq b)) i = Some raw \<and> length raw = BLOCKSIZE))"

definition b_wf :: "bsys \<Rightarrow> bool" where
  "b_wf b \<longleftrightarrow> length (b_tx b) = length (b_chans b) \<and> length (b_rx b) = length (b_chans b) \<and>
     (\<forall>t\<in>set (b_tx b). tx_wf t) \<and> (\<forall>x\<in>set (b_rx b). rx_wf x) \<and> fwd_wf b"


section \<open>The steps that do not change it\<close>

lemma b_wfD:
  assumes "b_wf b" and "c < length (b_chans b)"
  shows "length (b_tx b) = length (b_chans b)" and "length (b_rx b) = length (b_chans b)"
    and "tx_wf (b_tx b ! c)" and "rx_wf (b_rx b ! c)" and "fwd_wf b"
  using assms by (auto simp: b_wf_def)

lemma fwd_wf_upd [simp]:
  "fwd_wf (b\<lparr>b_buff := v1\<rparr>) = fwd_wf b" "fwd_wf (b\<lparr>b_tx := v2\<rparr>) = fwd_wf b" "fwd_wf (b\<lparr>b_chans := v3\<rparr>) = fwd_wf b"
  "fwd_wf (b\<lparr>b_rx := v4\<rparr>) = fwd_wf b" "fwd_wf (b\<lparr>b_pl := v5\<rparr>) = fwd_wf b" "fwd_wf (b\<lparr>b_h := v6\<rparr>) = fwd_wf b"
  by (simp_all add: fwd_wf_def split: option.split)

lemma b_wf_upd:
  "length chans = length (b_chans b) \<Longrightarrow> b_wf (b\<lparr>b_chans := chans\<rparr>) = b_wf b"
  "b_wf b \<Longrightarrow> tx_wf t \<Longrightarrow> b_wf (b\<lparr>b_tx := (b_tx b)[c := t]\<rparr>)"
  "b_wf b \<Longrightarrow> rx_wf x \<Longrightarrow> b_wf (b\<lparr>b_rx := (b_rx b)[c := x]\<rparr>)"
  "b_wf (b\<lparr>b_buff := buff\<rparr>) = b_wf b" "b_wf (b\<lparr>b_pl := pl\<rparr>) = b_wf b" "b_wf (b\<lparr>b_h := h\<rparr>) = b_wf b"
  by (auto simp: b_wf_def dest: set_update_subset_insert [THEN subsetD])

lemma b_abs_cong:
  assumes "\<And>c. c < length (b_chans b) \<Longrightarrow> conn_bytes b' c = conn_bytes b c" and "length (b_chans b') = length (b_chans b)"
    and "b_buff b' = b_buff b" and "b_pl b' = b_pl b" and "b_h b' = b_h b" and "b_fq b' = b_fq b" and "b_fwd b' = b_fwd b"
    and "b_out b' = b_out b"
  shows "b_abs k b' = b_abs k b"
  using assms by (cases "b_fwd b") (auto simp: b_abs_def fwd_rest_def)

lemma sim_send:
  assumes wf: "b_wf b" and c: "c < length (b_tx b)" "b_tx b ! c = Some (buf, sent_count)" "sent_count < PACKET_SIZE"
    and r: "0 < r" "numbytes = nat (send_count r (PACKET_SIZE - sent_count))"
  defines "b' \<equiv> b\<lparr>b_tx := (b_tx b)[c := Some (buf, sent_count + numbytes)],
      b_chans := (b_chans b)[c := b_chans b ! c @ take numbytes (drop sent_count buf)]\<rparr>"
  shows "b_wf b' \<and> b_abs k b' = b_abs k b"
proof -
  have len: "length (b_tx b) = length (b_chans b)" using wf by (simp add: b_wf_def)
  have buf: "length buf = PACKET_SIZE" using wf c nth_mem [OF c(1)] by (auto simp: b_wf_def tx_wf_def)
  have n: "sent_count + numbytes \<le> PACKET_SIZE" using r c(3) by (auto simp: send_count_def)
  have "conn_bytes b' c' = conn_bytes b c'" if "c' < length (b_chans b)" for c'
    using that c len by (cases "c' = c") (auto simp: conn_bytes_def b'_def tx_rest_def add.commute simp flip: drop_drop)
  then have "b_abs k b' = b_abs k b" by (rule b_abs_cong) (simp_all add: b'_def)
  moreover have "b_wf b'"
    using b_wf_upd(2) [OF wf, of "Some (buf, sent_count + numbytes)" c] n buf by (simp add: b'_def b_wf_upd(1) tx_wf_def)
  ultimately show ?thesis by blast
qed

lemma sim_sent:
  assumes wf: "b_wf b" and c: "c < length (b_tx b)" "b_tx b ! c = Some (buf, PACKET_SIZE)"
  defines "b' \<equiv> b\<lparr>b_tx := (b_tx b)[c := None]\<rparr>"
  shows "b_wf b' \<and> b_abs k b' = b_abs k b"
proof -
  have buf: "length buf = PACKET_SIZE" using wf c nth_mem [OF c(1)] by (auto simp: b_wf_def tx_wf_def)
  have "conn_bytes b' c' = conn_bytes b c'" if "c' < length (b_chans b)" for c'
    using that c buf wf by (cases "c' = c") (auto simp: conn_bytes_def b'_def tx_rest_def b_wf_def)
  then have "b_abs k b' = b_abs k b" by (rule b_abs_cong) (simp_all add: b'_def)
  moreover have "b_wf b'" using b_wf_upd(2) [OF wf, of None c] by (simp add: b'_def tx_wf_def)
  ultimately show ?thesis by blast
qed

lemma sim_recv:
  assumes wf: "b_wf b" and c: "c < length (b_rx b)" "b_rx b ! c = (raw_buf, recv_count)"
    and n: "0 < numbytes" "numbytes \<le> PACKET_SIZE - recv_count" "numbytes \<le> length (b_chans b ! c)"
  defines "b' \<equiv> b\<lparr>b_chans := (b_chans b)[c := drop numbytes (b_chans b ! c)],
      b_rx := (b_rx b)[c := (take recv_count raw_buf @ take numbytes (b_chans b ! c) @
        drop (recv_count + numbytes) raw_buf, recv_count + numbytes)]\<rparr>"
  shows "b_wf b' \<and> b_abs k b' = b_abs k b"
proof -
  have len: "length (b_rx b) = length (b_chans b)" using wf by (simp add: b_wf_def)
  have raw: "length raw_buf = PACKET_SIZE" "recv_count \<le> PACKET_SIZE"
    using wf c nth_mem [OF c(1)] by (auto simp: b_wf_def rx_wf_def)
  have "conn_bytes b' c' = conn_bytes b c'" if "c' < length (b_chans b)" for c'
    using that c len raw n by (cases "c' = c") (auto simp: conn_bytes_def b'_def rx_done_def)
  then have "b_abs k b' = b_abs k b" by (rule b_abs_cong) (simp_all add: b'_def)
  moreover have "b_wf (b\<lparr>b_chans := (b_chans b)[c := drop numbytes (b_chans b ! c)]\<rparr>)" using wf by (simp add: b_wf_upd)
  then have "b_wf b'" using raw n b_wf_upd(3) [of _ "(_, recv_count + numbytes)" c] by (force simp: b'_def rx_wf_def)
  ultimately show ?thesis by blast
qed

lemma send_block_once:
  assumes "send_block raw 0 [r] = (Filled, wire, [])" and "length raw = BLOCKSIZE"
  shows "wire = raw"
  using assms by (auto simp: send_count_def Let_def split: if_splits)

lemma sim_forward:
  assumes wf: "b_wf b" and fwd: "b_fwd b = Some (pack_cnt, cnt)" "cnt < pack_cnt"
    and raw: "arr_get (fq_buffer (b_fq b)) cnt = Some raw" "send_block raw 0 [r] = (Filled, wire, [])"
    and sent: "cint (fq_sent (b_fq b) + 1) = Some sent"
  defines "b' \<equiv> b\<lparr>b_fq := (b_fq b)\<lparr>fq_sent := sent\<rparr>, b_fwd := Some (pack_cnt, Suc cnt), b_out := b_out b @ wire\<rparr>"
  shows "b_wf b' \<and> b_abs k b' = b_abs k b"
proof -
  have s: "sent = fq_sent (b_fq b) + 1" using sent by (simp add: cint_eq_Some_iff)
  have "length raw = BLOCKSIZE" using wf fwd raw(1) by (auto simp: b_wf_def fwd_wf_def)
  then have wire: "wire = raw" by (rule send_block_once [OF raw(2)])
  have nth: "fq_buffer (b_fq b) ! cnt = Some raw" using raw(1) by (auto simp: arr_get_def split: if_splits)
  have "[cnt..<pack_cnt] = cnt # [Suc cnt..<pack_cnt]" using fwd(2) by (rule upt_conv_Cons)
  then have "fwd_rest b = raw # fwd_rest b'" by (simp add: fwd_rest_def b'_def fwd nth)
  moreover have "int (pack_cnt - cnt) = 1 + int (pack_cnt - Suc cnt)" using fwd(2) by simp
  ultimately have "b_abs k b' = b_abs k b"
    by (simp add: b_abs_def conn_bytes_def b'_def fwd wire s)
  moreover have "b_wf b'" using wf fwd s by (auto simp: b_wf_def b'_def fwd_wf_def)
  ultimately show ?thesis by blast
qed

lemma sim_forwarded:
  assumes wf: "b_wf b" and fwd: "b_fwd b = Some (pack_cnt, pack_cnt)"
    and s: "cint (pl_sent_min_seq (b_pl b) + int pack_cnt) = Some s"
  defines "b' \<equiv> b\<lparr>b_fq := (b_fq b)\<lparr>fq_buffer := []\<rparr>, b_fwd := None, b_pl := (b_pl b)\<lparr>pl_sent_min_seq := s\<rparr>\<rparr>"
  shows "b_wf b' \<and> b_abs k b' = b_abs k b"
  using wf fwd s by (simp add: b'_def b_wf_def fwd_wf_def b_abs_def conn_bytes_def fwd_rest_def cint_eq_Some_iff)

section \<open>The steps that change it\<close>

lemma tx_take_packet_length: "tx_take b = Some (TxPacket p, b') \<Longrightarrow> length (ep_raw_packet p) = BLOCKSIZE"
  by (auto simp: tx_take_def split: Option.bind_splits if_splits)

lemma conn_bytes_map:
  assumes "\<And>c'. c' < n \<Longrightarrow> c' \<noteq> c \<Longrightarrow> f' c' = f c'" and "c < n"
  shows "map f' [0..<n] = (map f [0..<n])[c := f' c]"
  using assms by (auto intro!: nth_equalityI simp: nth_list_update)

lemma sim_take:
  fixes be :: bool
  assumes wf: "b_wf b" and c: "c < length (b_tx b)" "b_tx b ! c = None" and tk: "tx_take (b_buff b) = Some (TxPacket p, buff')"
  defines "b' \<equiv> b\<lparr>b_buff := buff', b_tx := (b_tx b)[c := Some (packet_bytes be p, 0)]\<rparr>"
  shows "b_wf b' \<and> sys_step be (b_abs k b) (b_abs k b')"
proof -
  let ?w = "packet_bytes be p"
  have len: "length ?w = PACKET_SIZE" using tx_take_packet_length [OF tk] by (rule length_packet_bytes)
  have cl: "c < length (b_chans b)" using wf c(1) by (simp add: b_wf_def)
  have "send_fill True PACKET_SIZE ?w 0 [int PACKET_SIZE] = (Filled, ?w, [])"
    using len by (simp add: send_count_def PACKET_SIZE_def)
  then have tx: "tx_round be 0 0 link_ACTIVE [int PACKET_SIZE] (s_buff (b_abs k b)) = Some (Returned True, ?w, buff')"
    using tk by (simp add: tx_round_def b_abs_def link_ACTIVE_def link_PASSIVE_def)
  have "conn_bytes b' c' = conn_bytes b c'" if "c' \<noteq> c" for c' using that by (simp add: conn_bytes_def b'_def)
  moreover have "conn_bytes b' c = conn_bytes b c @ ?w" using c by (simp add: conn_bytes_def b'_def tx_rest_def)
  ultimately have "map (conn_bytes b') [0..<length (b_chans b)] =
      (map (conn_bytes b) [0..<length (b_chans b)])[c := conn_bytes b c @ ?w]"
    using conn_bytes_map [of "length (b_chans b)" c "conn_bytes b'" "conn_bytes b"] cl by simp
  then have "b_abs k b' = (b_abs k b)\<lparr>s_buff := buff', s_chans := (s_chans (b_abs k b))[c := s_chans (b_abs k b) ! c @ ?w]\<rparr>"
    using cl by (simp add: b_abs_def b'_def fwd_rest_def split: option.split)
  then have "sys_step be (b_abs k b) (b_abs k b')" using sys_step.tx [OF _ tx, of c] cl by (simp add: b_abs_def)
  moreover have "b_wf b'" using b_wf_upd(2) [OF wf, of "Some (?w, 0)" c] len by (simp add: b'_def b_wf_def tx_wf_def)
  ultimately show ?thesis by blast
qed

text \<open>The lag of \<open>sent_min_seq\<close> changes at most the number of signals.\<close>

lemma add2queue_lag:
  assumes "add2queue be ok pl h ns raw = Some (pl', h')" and "int_range (x + 1)"
  shows "\<exists>k'. add2queue be ok (pl\<lparr>pl_cond := k, pl_sent_min_seq := x\<rparr>) h ns raw =
    Some (pl'\<lparr>pl_cond := k', pl_sent_min_seq := x\<rparr>, h') \<and> pl_sent_min_seq pl' = pl_sent_min_seq pl"
  using assms by (cases pl) (auto simp: add2queue_def Let_def cint_eq_Some_iff split: Option.bind_splits if_splits)

lemma sim_add:
  assumes wf: "b_wf b" and c: "c < length (b_rx b)" "b_rx b ! c = (raw_buf, PACKET_SIZE)"
    and mem: "b_h b ns = None" "pl_pq (b_pl b) = Ref q" "pq_room ok q"
    and add: "add2queue be ok (b_pl b) (b_h b) ns raw_buf = Some (pl', h')"
    and cnt: "counters_ok (s_pl (b_abs k b))"
  defines "b' \<equiv> b\<lparr>b_rx := (b_rx b)[c := (arr_new PACKET_SIZE, 0)], b_pl := pl', b_h := h'\<rparr>"
  shows "b_wf b' \<and> (\<exists>k'. sys_step be (b_abs k b) (b_abs k' b'))"
proof -
  have raw: "length raw_buf = PACKET_SIZE" using wf c nth_mem [OF c(1)] by (auto simp: b_wf_def rx_wf_def)
  have cl: "c < length (b_chans b)" using wf c(1) by (simp add: b_wf_def)
  let ?lag = "case b_fwd b of None \<Rightarrow> 0 | Some (pack_cnt, cnt) \<Rightarrow> int pack_cnt"
  obtain k' where add': "add2queue be ok (s_pl (b_abs k b)) (b_h b) ns raw_buf =
      Some (pl'\<lparr>pl_cond := k', pl_sent_min_seq := pl_sent_min_seq (b_pl b) + ?lag\<rparr>, h')"
    and same: "pl_sent_min_seq pl' = pl_sent_min_seq (b_pl b)"
    using add2queue_lag [OF add, of "pl_sent_min_seq (b_pl b) + ?lag" k] cnt by (auto simp: counters_ok_def b_abs_def)
  have chan: "s_chans (b_abs k b) ! c = raw_buf @ b_chans b ! c @ tx_rest (b_tx b ! c)"
    using cl c raw by (simp add: b_abs_def conn_bytes_def rx_done_def)
  have "conn_bytes b' c' = conn_bytes b c'" if "c' \<noteq> c" for c' using that by (simp add: conn_bytes_def b'_def)
  moreover have "conn_bytes b' c = drop PACKET_SIZE (s_chans (b_abs k b) ! c)"
    using c cl raw by (simp add: chan conn_bytes_def b'_def rx_done_def)
  ultimately have chans: "map (conn_bytes b') [0..<length (b_chans b)] =
      (s_chans (b_abs k b))[c := drop PACKET_SIZE (s_chans (b_abs k b) ! c)]"
    using conn_bytes_map [of "length (b_chans b)" c "conn_bytes b'" "conn_bytes b"] cl by (simp add: b_abs_def)
  have "sys_step be (b_abs k b) ((b_abs k b)\<lparr>s_chans := (s_chans (b_abs k b))[c := drop PACKET_SIZE (s_chans (b_abs k b) ! c)],
      s_pl := pl'\<lparr>pl_cond := k', pl_sent_min_seq := pl_sent_min_seq (b_pl b) + ?lag\<rparr>, s_h := h'\<rparr>)"
    using add' raw chan cl mem by (intro sys_step.rx [where q = q and ns = ns and ok = ok]) (simp_all add: b_abs_def)
  also have "(b_abs k b)\<lparr>s_chans := (s_chans (b_abs k b))[c := drop PACKET_SIZE (s_chans (b_abs k b) ! c)],
      s_pl := pl'\<lparr>pl_cond := k', pl_sent_min_seq := pl_sent_min_seq (b_pl b) + ?lag\<rparr>, s_h := h'\<rparr> = b_abs k' b'"
    unfolding chans [symmetric] using same by (simp add: b_abs_def b'_def fwd_rest_def split: option.split)
  finally have "sys_step be (b_abs k b) (b_abs k' b')" .
  moreover have "b_wf b'" using b_wf_upd(3) [OF wf, of "(arr_new PACKET_SIZE, 0)" c]
    by (simp add: b'_def rx_wf_def b_wf_def)
  ultimately show ?thesis by blast
qed

lemma numbered_card: "card (numbered n raws) = length raws"
  by (simp add: numbered_def card_image inj_on_def)

text \<open>What \<open>fill_queue\<close> does in a state of the system, and the round of the coarser system it starts.\<close>

lemma fill_at:
  assumes at: "sys_at be (b_abs k b) q n flight" and lim: "b_lim b" and idle: "b_fwd b = None"
    and room: "fill_room (b_fq b) (card (pool_items q (b_h b)))"
  obtains raws q' h' fq' where
    "fill_queue r (Ref q) (b_h b) (b_fq b) = Some (if raws = [] then -1 else int (length raws), Ref q', h', fq')"
    and "numbered n raws \<subseteq> pool_items q (b_h b)" and "pool_items q' h' = pool_items q (b_h b) - numbered n raws"
    and "n + length raws \<notin> fst ` pool_items q (b_h b)" and "buffered fq' raws" and "fq_sent fq' = fq_sent (b_fq b)"
    and "-1 \<le> fq_sent fq'" and "\<forall>raw\<in>set raws. length raw = BLOCKSIZE"
    and "forward_round r 0 (replicate (card (pool_items q (b_h b))) (int BLOCKSIZE)) (s_pl (b_abs k b)) (b_h b) (b_fq b) =
      Some (Returned (), concat raws, (s_pl (b_abs k b))\<lparr>pl_pq := Ref q',
        pl_sent_min_seq := pl_sent_min_seq (b_pl b) + int (length raws)\<rparr>, h',
        if raws = [] then fq' else fq'\<lparr>fq_sent := fq_sent fq' + int (length raws), fq_buffer := []\<rparr>)"
proof -
  let ?s = "b_abs k b" and ?P = "pool_items q (b_h b)"
  let ?rs = "replicate (card ?P) (int BLOCKSIZE)"
  have s: "s_h ?s = b_h b" "s_fq ?s = b_fq b" "s_buff ?s = b_buff b" "pl_sent_min_seq (s_pl ?s) = pl_sent_min_seq (b_pl b)"
    by (simp_all add: b_abs_def idle)
  have rx: "rx_queue q (b_h b)" and fq: "fq_ok (b_fq b) n" and pq: "pl_pq (s_pl ?s) = Ref q"
    and sm: "pl_sent_min_seq (b_pl b) = int n" using at by (auto simp: sys_at_def s)
  note bounds = sys_at_bounds [OF at] and block = sys_at_block [OF at]
  have fromn: "seqs_from n ?P" and blk: "\<forall>(j, raw)\<in>?P. length raw = BLOCKSIZE"
    using block bounds lim by (fastforce simp: seqs_from_def s b_lim_def)+
  obtain raws q' h' fq' where f:
    "fill_queue r (Ref q) (b_h b) (b_fq b) = Some (if raws = [] then -1 else int (length raws), Ref q', h', fq')"
    "numbered n raws \<subseteq> ?P" "pool_items q' h' = ?P - numbered n raws" "n + length raws \<notin> fst ` ?P" "buffered fq' raws"
    "fq_sent fq' = fq_sent (b_fq b)"
    using fill_queue_correct [OF rx fromn fq room, of r] by blast
  have raws: "\<forall>raw\<in>set raws. length raw = BLOCKSIZE" using blk f(2) by (fastforce simp: numbered_def in_set_conv_nth)
  have len: "length raws \<le> card ?P" using card_mono [OF finite_pool_items f(2)] by (simp add: numbered_card)
  have last: "n + length raws \<le> 65536"
  proof (cases raws rule: rev_cases)
    case (snoc ys y)
    then have "(n + length ys, y) \<in> ?P" using f(2) by (force simp: numbered_def nth_append)
    with fromn snoc show ?thesis by (auto simp: seqs_from_def)
  qed (use bounds lim in \<open>simp add: b_lim_def s\<close>)
  have sent: "fq_sent fq' = int n - 1" using fq f(6) by (simp add: fq_ok_def)
  have rng: "int_range (fq_sent fq')" "int_range (fq_sent fq' + int (length raws))" "int_range (int n + int (length raws))"
    using last by (auto simp: sent int_range_def)
  have rs: "whole_sends ?rs" "length raws \<le> accepts ?rs"
    using len BLOCKSIZE_pos by (auto simp: whole_sends_def accepts_def)
  obtain rs' where d: "forward_data fq' (int (length raws)) ?rs =
      Some (Filled, concat raws, fq'\<lparr>fq_sent := fq_sent fq' + int (length raws), fq_buffer := []\<rparr>, rs')"
    using forward_data_whole [OF rs raws f(5) rng(1,2)] by blast
  have "forward_round r 0 ?rs (s_pl ?s) (b_h b) (b_fq b) = Some (Returned (), concat raws, (s_pl ?s)\<lparr>pl_pq := Ref q',
      pl_sent_min_seq := pl_sent_min_seq (b_pl b) + int (length raws)\<rparr>, h',
      if raws = [] then fq' else fq'\<lparr>fq_sent := fq_sent fq' + int (length raws), fq_buffer := []\<rparr>)"
    using f(1) d rng(3) pq s(4) sm by (cases "s_pl ?s") (simp add: forward_round_def forward_unlocked_def Let_def)
  moreover have "-1 \<le> fq_sent fq'" by (simp add: sent)
  ultimately show thesis using f raws by (intro that)
qed

lemma fill_steps:
  assumes at: "sys_at be (b_abs k b) q n flight" and wf: "b_wf b" and lim: "b_lim b" and idle: "b_fwd b = None"
    and pq: "pl_pq (b_pl b) = Ref q" and room: "fill_room (b_fq b) (card (pool_items q (b_h b)))"
    and fill: "fill_queue r (Ref q) (b_h b) (b_fq b) = Some (pack_cnt, pq', h', fq')"
  defines "b' \<equiv> b\<lparr>b_pl := (b_pl b)\<lparr>pl_pq := pq'\<rparr>, b_h := h', b_fq := fq',
    b_fwd := if pack_cnt = -1 then None else Some (nat pack_cnt, 0)\<rparr>"
  shows "b_wf b' \<and> sys_step be (b_abs k b) (b_abs k b')"
proof -
  let ?P = "pool_items q (b_h b)"
  obtain raws q' where f: "pack_cnt = (if raws = [] then -1 else int (length raws))" "pq' = Ref q'" "buffered fq' raws"
    and sent: "-1 \<le> fq_sent fq'" and raws: "\<forall>raw\<in>set raws. length raw = BLOCKSIZE"
    and round: "forward_round r 0 (replicate (card ?P) (int BLOCKSIZE)) (s_pl (b_abs k b)) (b_h b) (b_fq b) =
      Some (Returned (), concat raws, (s_pl (b_abs k b))\<lparr>pl_pq := Ref q',
        pl_sent_min_seq := pl_sent_min_seq (b_pl b) + int (length raws)\<rparr>, h',
        if raws = [] then fq' else fq'\<lparr>fq_sent := fq_sent fq' + int (length raws), fq_buffer := []\<rparr>)"
    by (rule fill_at [OF at lim idle room, of r]) (use fill in auto)
  have cell: "arr_get (fq_buffer fq') i = Some (raws ! i)" "fq_buffer fq' ! i = Some (raws ! i)" if "i < length raws" for i
    using f(3) that by (auto simp: buffered_def arr_get_def split: if_splits)
  have "fwd_wf b'" using f(1) sent raws cell(1) by (auto simp: fwd_wf_def b'_def idle)
  then have wf': "b_wf b'" using wf by (simp add: b_wf_def b'_def)
  have rest: "fwd_rest b' = raws"
    using f(1) cell(2) by (auto simp: fwd_rest_def b'_def idle intro!: nth_equalityI)
  let ?s = "b_abs k b" and ?rs = "replicate (card ?P) (int BLOCKSIZE)"
  have s: "s_h ?s = b_h b" "s_fq ?s = b_fq b" "pl_pq (s_pl ?s) = Ref q" "s_out ?s = b_out b"
    by (simp_all add: b_abs_def idle pq fwd_rest_def)
  have rs: "whole_sends ?rs" "card ?P \<le> accepts ?rs" using BLOCKSIZE_pos by (auto simp: whole_sends_def accepts_def)
  note step = sys_step.fwd [of ?s q ?rs r, unfolded s, OF refl room rs round, where be = be]
  also have "?s\<lparr>s_pl := (s_pl ?s)\<lparr>pl_pq := Ref q', pl_sent_min_seq := pl_sent_min_seq (b_pl b) + int (length raws)\<rparr>, s_h := h',
      s_fq := if raws = [] then fq' else fq'\<lparr>fq_sent := fq_sent fq' + int (length raws), fq_buffer := []\<rparr>,
      s_out := b_out b @ concat raws\<rparr> = b_abs k b'"
    using rest f(1,2) by (auto simp: b_abs_def b'_def idle conn_bytes_def fwd_rest_def)
  finally show ?thesis using wf' by blast
qed

section \<open>Refinement\<close>

inductive_cases b_workE: "b_work be b b'"
inductive_cases b_otherE: "b_other b b'"

definition b_match :: "bool \<Rightarrow> sys \<Rightarrow> bsys \<Rightarrow> bool" where
  "b_match be s b \<longleftrightarrow> sys_inv be s \<and> b_wf b \<and> (\<exists>k. s = b_abs k b)"

lemma b_matchE:
  assumes "b_match be s b" and "b_lim b"
  obtains k q n flight where "s = b_abs k b" and "b_wf b" and "sys_at be (b_abs k b) q n flight" and "pl_pq (b_pl b) = Ref q"
    and "counters_ok (s_pl (b_abs k b))"
proof -
  obtain k where k: "s = b_abs k b" "b_wf b" using assms by (auto simp: b_match_def)
  moreover obtain q n flight where at: "sys_at be (b_abs k b) q n flight"
    using assms k by (auto simp: b_match_def sys_inv_def b_lim_def b_abs_def)
  moreover have "pl_pq (b_pl b) = Ref q" "counters_ok (s_pl (b_abs k b))" using at by (auto simp: sys_at_def b_abs_def)
  ultimately show thesis by (rule that)
qed

lemma tx_take_next:
  "tx_take b = Some (TxPacket p, b') \<Longrightarrow> pb_get_ind b \<le> pb_set_ind b \<and> b' = b\<lparr>pb_get_ind := pb_get_ind b + 1\<rparr>"
  by (auto simp: tx_take_def cint_eq_Some_iff split: Option.bind_splits if_splits)

lemma b_work_log: "b_work be b b' \<Longrightarrow> pb_log (b_buff b') = pb_log (b_buff b)"
  by (erule b_workE) (simp_all, drule tx_take_next, simp add: pb_log_def)

lemma b_other_log: "b_other b b' \<Longrightarrow> length (pb_log (b_buff b)) \<le> length (pb_log (b_buff b'))"
  by (erule b_otherE) (auto simp: length_log dest!: add2buff_set_ind)

lemma b_step_log: "b_step be b b' \<Longrightarrow> length (pb_log (b_buff b)) \<le> length (pb_log (b_buff b'))"
  using b_work_log [of be b b'] b_other_log [of b b'] by (auto simp: b_step_def)

lemma b_lim_back: "b_step be b b' \<Longrightarrow> b_lim b' \<Longrightarrow> b_lim b"
  using b_step_log [of be b b'] by (simp add: b_lim_def)

lemma work_simulates:
  assumes m: "b_match be s b" and lim: "b_lim b" and step: "b_work be b b'"
  shows "b_match be s b' \<or> (\<exists>s'. sys_step be s s' \<and> b_match be s' b')"
proof -
  obtain k q n flight where s: "s = b_abs k b" and wf: "b_wf b" and at: "sys_at be (b_abs k b) q n flight"
    and pq: "pl_pq (b_pl b) = Ref q" and cnt: "counters_ok (s_pl (b_abs k b))" by (rule b_matchE [OF m lim])
  have stutter: "b_match be s b'" if "b_wf b' \<and> b_abs k b' = b_abs k b" using m that s by (metis b_match_def)
  have advance: ?thesis if "b_wf b' \<and> sys_step be (b_abs k b) (b_abs k' b')" for k'
    using m that s sys_inv_step by (metis b_match_def)
  from step show ?thesis
  proof cases
    case (take c p buff')
    then show ?thesis using sim_take [OF wf take(2-4), of be k] advance [of k] by simp
  next
    case (send c buf sent_count r numbytes)
    then show ?thesis using sim_send [OF wf send(2-6)] stutter by simp
  next
    case (sent c buf)
    then show ?thesis using sim_sent [OF wf sent(2,3)] stutter by simp
  next
    case (recv c raw_buf recv_count numbytes)
    then show ?thesis using sim_recv [OF wf recv(2-6)] stutter by simp
  next
    case (add c raw_buf ns q1 ok pl' h')
    then show ?thesis using sim_add [OF wf add(2-7) cnt] advance by blast
  next
    case (fill q1 r pack_cnt pq' h' fq')
    then show ?thesis using fill_steps [OF at wf lim fill(2) pq, of r pack_cnt pq' h' fq'] pq advance [of k] by simp
  next
    case (forward pack_cnt cnt raw r wire sent)
    then show ?thesis using sim_forward [OF wf forward(2-6)] stutter by simp
  next
    case (forwarded pack_cnt)
    then show ?thesis using sim_forwarded [OF wf forwarded(2,3)] stutter by simp
  qed
qed

lemma other_simulates:
  assumes m: "b_match be s b" and lim: "b_lim b" and step: "b_other b b'"
  shows "\<exists>s'. sys_step be s s' \<and> b_match be s' b'"
proof -
  obtain k q n flight where s: "s = b_abs k b" and wf: "b_wf b" and at: "sys_at be (b_abs k b) q n flight"
    and pq: "pl_pq (b_pl b) = Ref q" and "counters_ok (s_pl (b_abs k b))" by (rule b_matchE [OF m lim])
  have advance: ?thesis if "b_wf b' \<and> sys_step be (b_abs k b) (b_abs k b')"
    using m that s sys_inv_step by (metis b_match_def)
  have buff: "b_abs k (b\<lparr>b_buff := x\<rparr>) = (b_abs k b)\<lparr>s_buff := x\<rparr>" "s_buff (b_abs k b) = b_buff b" for x
    by (auto simp: b_abs_def conn_bytes_def fwd_rest_def split: option.split)
  from step show ?thesis
  proof cases
    case (split raw_buf recv_count d buff')
    then show ?thesis using sys_step.split [of raw_buf recv_count "b_abs k b" d buff' be] wf advance by (simp add: buff b_wf_upd)
  next
    case fin
    then show ?thesis using sys_step.fin [of be "b_abs k b"] wf advance by (simp add: buff b_wf_upd)
  next
    case (idle q1 r pq' h' fq')
    have b': "b' = b\<lparr>b_pl := (b_pl b)\<lparr>pl_pq := pq'\<rparr>, b_h := h', b_fq := fq', b_fwd := None\<rparr>" using idle(1,2) by (cases b) simp
    have "b_wf b' \<and> sys_step be (b_abs k b) (b_abs k b')"
      unfolding b' using fill_steps [OF at wf lim idle(2) pq, of r "-1" pq' h' fq'] idle(3-5) pq by simp
    then show ?thesis by (rule advance)
  qed
qed

interpretation bytes: bounded_simulation "sys_step be" "b_step be" "b_match be" b_lim
proof
  fix b b' assume step: "b_step be b b'"
  show "b_lim b" if "b_lim b'" using b_lim_back [OF step that] .
  show "b_match be s b' \<or> (\<exists>s'. sys_step be s s' \<and> b_match be s' b')" if "b_match be s b" "b_lim b'" for s
    using that step b_lim_back [OF step that(2)] work_simulates other_simulates unfolding b_step_def by blast
qed

lemma b_match_init: "b_match be (sys_init sockfd) (b_init sockfd)"
proof -
  note init = sys_init_facts [of sockfd]
  have "b_wf (b_init sockfd)" using init by (simp add: b_wf_def b_init_def Let_def tx_wf_def rx_wf_def fwd_wf_def)
  moreover have "conn_bytes (b_init sockfd) c = s_chans (sys_init sockfd) ! c" if "c < 2" for c
    using that init by (auto simp: conn_bytes_def b_init_def Let_def rx_done_def tx_rest_def less_2_cases_iff)
  then have "sys_init sockfd = b_abs 0 (b_init sockfd)"
    using init by (cases "sys_init sockfd") (simp add: b_abs_def b_init_def Let_def fwd_rest_def pool_init_def numeral_2_eq_2)
  moreover have "sys_inv be (sys_init sockfd)" using sys_inv_reach sys_reach.start by blast
  ultimately show ?thesis by (auto simp: b_match_def)
qed

lemma b_reach_match:
  assumes "b_reach be sockfd b" and "b_lim b"
  obtains s where "b_match be s b" and "(sys_step be)\<^sup>*\<^sup>* (sys_init sockfd) s"
  using bytes.simulate [OF assms(1) b_match_init assms(2)] by blast

section \<open>What the destination receives\<close>

text \<open>C38: every state the two proxies reach with each \<open>recv\<close>, and each \<open>send\<close> on a connection between
  them, as a step of its own, whatever amounts these calls move and however the threads
  interleave between them, is matched by a state reached by whole critical sections, with the
  same log, and the destination has received a prefix of the bytes of the log. This is for
  logs of at most 65536 blocks, so that the sequence numbers do not wrap, and for writes to the
  destination that accept their whole block in one call; C18 shows what a partial one does.\<close>

theorem bytes_refine_sections:
  assumes "b_reach be sockfd b" and "length (pb_log (b_buff b)) \<le> 65536"
  shows "\<exists>s. (sys_step be)\<^sup>*\<^sup>* (sys_init sockfd) s \<and> s_buff s = b_buff b \<and> prefix (b_out b) (s_out s) \<and>
    prefix (b_out b) (concat (pb_log (b_buff b)))"
proof -
  have lim: "b_lim b" using assms(2) by (simp add: b_lim_def)
  obtain s where m: "b_match be s b" and run: "(sys_step be)\<^sup>*\<^sup>* (sys_init sockfd) s"
    by (rule b_reach_match [OF assms(1) lim])
  obtain k q n flight where s: "s = b_abs k b" and "sys_at be (b_abs k b) q n flight" by (rule b_matchE [OF m lim])
  then have "s_out s = concat (take n (pb_log (b_buff b)))" by (simp add: sys_at_def b_abs_def)
  moreover have "concat (pb_log (b_buff b)) = concat (take n (pb_log (b_buff b))) @ concat (drop n (pb_log (b_buff b)))"
    by (metis append_take_drop_id concat_append)
  moreover have "prefix (b_out b) (s_out s)" by (simp add: s b_abs_def)
  ultimately show ?thesis using run s by (intro exI [of _ s]) (auto simp: b_abs_def)
qed

end
