(* ===== verification/PQueue_Frame.thy ===== *)
theory PQueue_Frame
  imports PQueue
begin

text \<open>
  What the operations of \<open>pqueue.c\<close> never change, in any state of the queue, valid or not: which
  nodes are allocated, the growth step and the callbacks. (\<open>PQueue_Correct\<close> needs a valid queue.)
\<close>

definition allocated :: "'n nheap \<Rightarrow> nptr set" where
  "allocated h = dom h"

definition step_of :: "'n pqueue_t ref \<Rightarrow> nat" where
  "step_of qp = (case qp of Null \<Rightarrow> 0 | Ref q \<Rightarrow> q_step q)"

lemma step_of_simps [simp]: "step_of Null = 0" "step_of (Ref q) = q_step q"
  by (simp_all add: step_of_def)

text \<open>The fields that are set by \<open>pqueue_init\<close> only.\<close>

definition fixed :: "'n pqueue_t \<Rightarrow> nat \<times> (ulonglong \<Rightarrow> ulonglong \<Rightarrow> bool) \<times> ('n \<Rightarrow> ulonglong) \<times>
    ('n \<Rightarrow> ulonglong \<Rightarrow> 'n) \<times> ('n \<Rightarrow> nat) \<times> ('n \<Rightarrow> nat \<Rightarrow> 'n)" where
  "fixed q = (q_step q, q_cmppri q, q_getpri q, q_setpri q, q_getpos q, q_setpos q)"

lemma fixed_upd [simp]:
  "fixed (q\<lparr>q_d := d\<rparr>) = fixed q" "fixed (q\<lparr>q_size := s\<rparr>) = fixed q" "fixed (q\<lparr>q_avail := a\<rparr>) = fixed q"
  by (simp_all add: fixed_def)

lemma step_of_fixed: "map_ref fixed qp' = map_ref fixed qp \<Longrightarrow> step_of qp' = step_of qp"
  by (cases qp; cases qp') (simp_all add: fixed_def)

lemma call_setpos_frame: "call_setpos q h p i = Some h' \<Longrightarrow> allocated h' = allocated h"
  by (auto simp: allocated_def call_setpos_def split: option.splits if_splits)

lemma call_setpri_frame: "call_setpri q h p v = Some h' \<Longrightarrow> allocated h' = allocated h"
  by (auto simp: allocated_def call_setpri_def split: option.splits if_splits)

lemma bubble_up_loop_frame:
  "bubble_up_loop q h m i = Some (q', h', k) \<Longrightarrow> allocated h' = allocated h \<and> fixed q' = fixed q"
proof (induction q h m i rule: bubble_up_loop.induct)
  case (1 q h m i)
  from "1.prems" show ?case
    by (subst (asm) bubble_up_loop.simps)
      (auto simp del: One_nat_def split: Option.bind_splits if_splits dest: "1.IH" call_setpos_frame)
qed

lemma percolate_down_loop_frame:
  "percolate_down_loop q h m i = Some (q', h', k) \<Longrightarrow> allocated h' = allocated h \<and> fixed q' = fixed q"
proof (induction q h m i rule: percolate_down_loop.induct)
  case (1 q h m i)
  from "1.prems" show ?case
    by (subst (asm) percolate_down_loop.simps)
      (auto simp del: One_nat_def split: Option.bind_splits if_splits dest: "1.IH" call_setpos_frame)
qed

lemma bubble_up_frame: "bubble_up q h i = Some (q', h') \<Longrightarrow> allocated h' = allocated h \<and> fixed q' = fixed q"
  by (clarsimp simp: bubble_up_def split: Option.bind_splits)
    (metis bubble_up_loop_frame call_setpos_frame)

lemma percolate_down_frame: "percolate_down q h i = Some (q', h') \<Longrightarrow> allocated h' = allocated h \<and> fixed q' = fixed q"
  by (clarsimp simp: percolate_down_def split: Option.bind_splits)
    (metis percolate_down_loop_frame call_setpos_frame)

lemma pqueue_insert_frame:
  "pqueue_insert r qp h p = Some (e, qp', h') \<Longrightarrow> allocated h' = allocated h \<and> map_ref fixed qp' = map_ref fixed qp"
  by (auto simp: pqueue_insert_def Let_def split: ref.splits Option.bind_splits if_splits dest!: bubble_up_frame)

lemma pqueue_pop_frame:
  "pqueue_pop qp h = Some (e, qp', h') \<Longrightarrow> allocated h' = allocated h \<and> map_ref fixed qp' = map_ref fixed qp"
  by (auto simp: pqueue_pop_def Let_def split: ref.splits Option.bind_splits if_splits dest!: percolate_down_frame)

lemma pqueue_remove_frame: "pqueue_remove q h p = Some (e, q', h') \<Longrightarrow> allocated h' = allocated h \<and> fixed q' = fixed q"
  by (auto simp: pqueue_remove_def Let_def split: Option.bind_splits if_splits dest!: bubble_up_frame percolate_down_frame)

lemma pqueue_change_priority_frame:
  "pqueue_change_priority q h v p = Some (q', h') \<Longrightarrow> allocated h' = allocated h \<and> fixed q' = fixed q"
  by (auto simp: pqueue_change_priority_def split: Option.bind_splits if_splits dest!: call_setpri_frame bubble_up_frame percolate_down_frame)

text \<open>The same as one relation, for clients that chain operations.\<close>

definition framed :: "'n pqueue_t ref \<Rightarrow> 'n nheap \<Rightarrow> 'n pqueue_t ref \<Rightarrow> 'n nheap \<Rightarrow> bool" where
  "framed qp h qp' h' \<longleftrightarrow> allocated h' = allocated h \<and> map_ref fixed qp' = map_ref fixed qp"

lemma framed_step: "framed qp h qp' h' \<Longrightarrow> step_of qp' = step_of qp"
  unfolding framed_def by (blast intro: step_of_fixed)

lemma framed_allocated: "framed qp h qp' h' \<Longrightarrow> allocated h' = allocated h"
  by (simp add: framed_def)

lemma framed_trans: "framed qp h qp1 h1 \<Longrightarrow> framed qp1 h1 qp2 h2 \<Longrightarrow> framed qp h qp2 h2"
  by (simp add: framed_def)

lemma pqueue_insert_framed: "pqueue_insert r qp h p = Some (e, qp', h') \<Longrightarrow> framed qp h qp' h'"
  by (simp add: framed_def pqueue_insert_frame)

lemma pqueue_pop_framed: "pqueue_pop qp h = Some (e, qp', h') \<Longrightarrow> framed qp h qp' h'"
  by (simp add: framed_def pqueue_pop_frame)

section \<open>What the nodes keep\<close>

text \<open>Whatever a client's \<open>setpos\<close> keeps of a node is kept of every node, in any state of the queue.\<close>

definition all_nodes :: "('n \<Rightarrow> bool) \<Rightarrow> 'n nheap \<Rightarrow> bool" where
  "all_nodes P h \<longleftrightarrow> (\<forall>p n. h p = Some n \<longrightarrow> P n)"

definition keeps :: "('n \<Rightarrow> bool) \<Rightarrow> 'n pqueue_t \<Rightarrow> bool" where
  "keeps P q \<longleftrightarrow> (\<forall>n i. P n \<longrightarrow> P (q_setpos q n i))"

lemma keeps_fixed: "fixed q' = fixed q \<Longrightarrow> keeps P q' \<longleftrightarrow> keeps P q"
  by (simp add: keeps_def fixed_def)

lemma keeps_upd [simp]: "keeps P (q\<lparr>q_d := d\<rparr>) = keeps P q" "keeps P (q\<lparr>q_size := s\<rparr>) = keeps P q" "keeps P (q\<lparr>q_avail := a\<rparr>) = keeps P q"
  by (simp_all add: keeps_def)

lemma call_setpos_nodes: "call_setpos q h p i = Some h' \<Longrightarrow> keeps P q \<Longrightarrow> all_nodes P h \<Longrightarrow> all_nodes P h'"
  by (auto simp: call_setpos_def keeps_def all_nodes_def split: option.splits if_splits)

lemma bubble_up_loop_nodes: "bubble_up_loop q h m i = Some (q', h', k) \<Longrightarrow> keeps P q \<Longrightarrow> all_nodes P h \<Longrightarrow> all_nodes P h'"
proof (induction q h m i rule: bubble_up_loop.induct)
  case (1 q h m i)
  from "1.prems" show ?case
    by (subst (asm) bubble_up_loop.simps)
      (auto simp del: One_nat_def split: Option.bind_splits if_splits dest: "1.IH" call_setpos_nodes)
qed

lemma percolate_down_loop_nodes: "percolate_down_loop q h m i = Some (q', h', k) \<Longrightarrow> keeps P q \<Longrightarrow> all_nodes P h \<Longrightarrow> all_nodes P h'"
proof (induction q h m i rule: percolate_down_loop.induct)
  case (1 q h m i)
  from "1.prems" show ?case
    by (subst (asm) percolate_down_loop.simps)
      (auto simp del: One_nat_def split: Option.bind_splits if_splits dest: "1.IH" call_setpos_nodes)
qed

lemma bubble_up_nodes: "bubble_up q h i = Some (q', h') \<Longrightarrow> keeps P q \<Longrightarrow> all_nodes P h \<Longrightarrow> all_nodes P h'"
  by (clarsimp simp: bubble_up_def split: Option.bind_splits)
    (metis bubble_up_loop_nodes bubble_up_loop_frame keeps_fixed call_setpos_nodes)

lemma percolate_down_nodes: "percolate_down q h i = Some (q', h') \<Longrightarrow> keeps P q \<Longrightarrow> all_nodes P h \<Longrightarrow> all_nodes P h'"
  by (clarsimp simp: percolate_down_def split: Option.bind_splits)
    (metis percolate_down_loop_nodes percolate_down_loop_frame keeps_fixed call_setpos_nodes)

lemma pqueue_insert_nodes: "pqueue_insert r (Ref q) h p = Some (e, qp', h') \<Longrightarrow> keeps P q \<Longrightarrow> all_nodes P h \<Longrightarrow> all_nodes P h'"
  by (auto simp: pqueue_insert_def Let_def split: Option.bind_splits if_splits dest!: bubble_up_nodes)

lemma pqueue_pop_nodes: "pqueue_pop (Ref q) h = Some (e, qp', h') \<Longrightarrow> keeps P q \<Longrightarrow> all_nodes P h \<Longrightarrow> all_nodes P h'"
  by (auto simp: pqueue_pop_def Let_def split: Option.bind_splits if_splits dest!: percolate_down_nodes)

lemma framed_queue:
  assumes "framed (Ref q) h qp' h'"
  obtains q' where "qp' = Ref q'" and "fixed q' = fixed q"
  using assms by (cases qp') (auto simp: framed_def)

end
