(* ===== verification/Proxy_Progress.thy ===== *)
theory Proxy_Progress
  imports Proxy_Bytes PQueue_Frame
begin

text \<open>
  Progress of the proxies at the grain of single calls: the steps that carry data terminate
  (they decrease the measure \<open>b_rank\<close>), and where none of them is possible everything has been
  delivered. The second part needs memory to be available, which it is in every reachable
  state: only finitely many nodes are allocated and the queue stays small.
\<close>

section \<open>Memory\<close>

text \<open>One iteration of the loop of \<open>fill_queue\<close>.\<close>

lemma fill_loop_cases:
  assumes "fill_loop r pq h fq c = Some (n, pq', h', fq')"
  obtains (stop) fq1 e where "fill_extend fq = Some fq1" and "pqueue_pop pq h = Some (e, pq', h')" and "n = c" and "fq' = fq1"
  | (put_back) fq1 p pq1 h1 i where "fill_extend fq = Some fq1" and "pqueue_pop pq h = Some (Ref p, pq1, h1)"
      and "pqueue_insert r pq1 h1 p = Some (i, pq', h')" and "n = c" and "fq' = fq1"
  | (again) fq1 p pq1 h1 nd buf b where "fill_extend fq = Some fq1" and "pqueue_pop pq h = Some (Ref p, pq1, h1)"
      and "h1 p = Some nd" and "pri_int (n_pri nd) = fq_sent fq1 + c + 1"
      and "arr_set (fq_buffer fq1) (nat c) (n_raw_packet nd) = Some buf"
      and "fill_loop r pq1 h1 (fq1\<lparr>fq_buffer := buf, fq_byte_count := b\<rparr>) (c + 1) = Some (n, pq', h', fq')"
  using assms
  by (subst (asm) fill_loop.simps) (auto split: Option.bind_splits ref.splits if_splits simp: cint_eq_Some_iff)

lemma fill_loop_frame: "fill_loop r pq h fq c = Some (n, pq', h', fq') \<Longrightarrow> framed pq h pq' h'"
proof (induction "pop_rank pq" arbitrary: pq h fq c rule: less_induct)
  case less
  from less.prems show ?case
  proof (cases rule: fill_loop_cases)
    case (stop fq1 e)
    then show ?thesis by (blast intro: pqueue_pop_framed)
  next
    case (put_back fq1 p pq1 h1 i)
    then show ?thesis by (blast intro: framed_trans pqueue_pop_framed pqueue_insert_framed)
  next
    case (again fq1 p pq1 h1 nd buf b)
    then show ?thesis using less.hyps [OF pqueue_pop_rank] by (blast intro: framed_trans pqueue_pop_framed)
  qed
qed

lemma fill_queue_frame: "fill_queue r pq h fq = Some (n, pq', h', fq') \<Longrightarrow> framed pq h pq' h'"
  by (auto simp: fill_queue_def Let_def split: Option.bind_splits ref.splits if_splits
      dest!: pqueue_pop_framed pqueue_insert_framed fill_loop_frame elim: framed_trans)

lemma add2queue_frame:
  assumes "add2queue be ok pl h ns raw = Some (pl', h')"
  shows "allocated h' = insert ns (allocated h)" and "step_of (pl_pq pl') = step_of (pl_pq pl)"
proof -
  obtain n e pq where ins: "pqueue_insert ok (pl_pq pl) (h(ns \<mapsto> n)) ns = Some (e, pq, h')" and "pl_pq pl' = pq"
    using assms by (auto simp: add2queue_def Let_def split: Option.bind_splits if_splits)
  with framed_allocated [OF pqueue_insert_framed [OF ins]] framed_step [OF pqueue_insert_framed [OF ins]]
  show "allocated h' = insert ns (allocated h)" "step_of (pl_pq pl') = step_of (pl_pq pl)" by (auto simp: allocated_def)
qed

lemma add2queue_ranges:
  assumes "add2queue be ok pl h ns raw = Some (pl', h')"
  shows "int_range (pl_avail_min_seq pl + 1)" and "int_range (pl_sent_min_seq pl + 1)" and "pl_sent_min_seq pl' = pl_sent_min_seq pl"
  using assms by (auto simp: add2queue_def Let_def cint_eq_Some_iff split: Option.bind_splits if_splits)

definition b_mem :: "bsys \<Rightarrow> bool" where
  "b_mem b \<longleftrightarrow> finite (allocated (b_h b)) \<and> step_of (pl_pq (b_pl b)) = 11 \<and> 0 \<le> pl_sent_min_seq (b_pl b)"

lemma b_mem_step: "b_step be b b' \<Longrightarrow> b_mem b \<Longrightarrow> b_mem b'"
  unfolding b_step_def
  by (elim disjE b_workE b_otherE) (auto simp: b_mem_def cint_eq_Some_iff dest: add2queue_frame add2queue_ranges(3) fill_queue_frame [THEN framed_step] fill_queue_frame [THEN framed_allocated])

lemma b_mem_reach: "b_reach be sockfd b \<Longrightarrow> b_mem b"
proof (induction rule: rtranclp_induct)
  case base
  obtain q where q: "pl_pq (pool_init True True) = Ref q" and "q_step q = 11" by (rule pool_init_queue)
  then show ?case using sys_init_facts [of sockfd] by (simp add: b_mem_def b_init_def Let_def allocated_def pool_init_def)
next
  case (step b b')
  then show ?case by (blast intro: b_mem_step)
qed

section \<open>Termination\<close>

text \<open>
  What is left to do: every block not yet taken, every byte of a packet not yet sent, in
  transit or received, every packet in the pool and every payload being forwarded.
\<close>

definition tx_rank :: "(byte arr \<times> nat) option \<Rightarrow> nat" where
  "tx_rank t = (case t of None \<Rightarrow> 0 | Some (buf, sent_count) \<Rightarrow> 1 + 3 * (PACKET_SIZE - sent_count))"

definition b_rank :: "bsys \<Rightarrow> nat" where
  "b_rank b = (3 * PACKET_SIZE + 2) * (length (pb_log (b_buff b)) - nat (pb_get_ind (b_buff b))) +
     sum_list (map tx_rank (b_tx b)) + 2 * sum_list (map length (b_chans b)) + sum_list (map snd (b_rx b)) +
     3 * card (pool_items (the_ref (pl_pq (b_pl b))) (b_h b)) +
     (case b_fwd b of None \<Rightarrow> 0 | Some (pack_cnt, cnt) \<Rightarrow> 1 + (pack_cnt - cnt))"

lemma sum_list_map_update:
  fixes f :: "'a \<Rightarrow> nat"
  assumes "c < length xs"
  shows "sum_list (map f (xs[c := y])) + f (xs ! c) = sum_list (map f xs) + f y"
  using assms
proof (induction xs arbitrary: c)
  case (Cons x xs)
  then show ?case by (cases c) (auto simp: add.commute add.left_commute)
qed simp

lemma rank_take:
  assumes inv: "pb_inv (b_buff b)" and c: "c < length (b_tx b)" "b_tx b ! c = None"
    and tk: "tx_take (b_buff b) = Some (TxPacket p, buff')"
  shows "b_rank (b\<lparr>b_buff := buff', b_tx := (b_tx b)[c := Some (packet_bytes be p, 0)]\<rparr>) < b_rank b"
proof -
  note nx = tx_take_next [OF tk]
  have g: "0 \<le> pb_get_ind (b_buff b)" using inv by (simp add: pb_inv_def)
  have log: "length (pb_log buff') = length (pb_log (b_buff b))" using nx by (simp add: length_log)
  have "length (pb_log (b_buff b)) - nat (pb_get_ind (b_buff b)) = Suc (length (pb_log buff') - nat (pb_get_ind buff'))"
    unfolding log using nx g length_log [of "b_buff b"] by (simp add: nat_add_distrib Suc_diff_le nat_mono)
  moreover have "sum_list (map tx_rank ((b_tx b)[c := Some (packet_bytes be p, 0)])) =
      sum_list (map tx_rank (b_tx b)) + 1 + 3 * PACKET_SIZE"
    using sum_list_map_update [OF c(1), of tx_rank "Some (packet_bytes be p, 0)"] c(2) by (simp add: tx_rank_def)
  ultimately show ?thesis by (simp add: b_rank_def)
qed

lemma rank_send:
  assumes wf: "b_wf b" and c: "c < length (b_tx b)" "b_tx b ! c = Some (buf, sent_count)" "sent_count < PACKET_SIZE"
    and r: "0 < r" "numbytes = nat (send_count r (PACKET_SIZE - sent_count))"
  shows "b_rank (b\<lparr>b_tx := (b_tx b)[c := Some (buf, sent_count + numbytes)],
      b_chans := (b_chans b)[c := b_chans b ! c @ take numbytes (drop sent_count buf)]\<rparr>) < b_rank b"
proof -
  have buf: "length buf = PACKET_SIZE" using wf c nth_mem [OF c(1)] by (auto simp: b_wf_def tx_wf_def)
  have n: "0 < numbytes" "sent_count + numbytes \<le> PACKET_SIZE" using r c(3) by (auto simp: send_count_def)
  have "sum_list (map tx_rank ((b_tx b)[c := Some (buf, sent_count + numbytes)])) + 3 * numbytes = sum_list (map tx_rank (b_tx b))"
    using sum_list_map_update [OF c(1), of tx_rank "Some (buf, sent_count + numbytes)"] c(2) n by (simp add: tx_rank_def)
  moreover have "sum_list (map length ((b_chans b)[c := b_chans b ! c @ take numbytes (drop sent_count buf)])) =
      sum_list (map length (b_chans b)) + numbytes"
    using sum_list_map_update [of c "b_chans b" length "b_chans b ! c @ take numbytes (drop sent_count buf)"] wf c(1) n buf
    by (simp add: b_wf_def)
  ultimately show ?thesis using n by (simp add: b_rank_def)
qed

lemma rank_recv:
  assumes wf: "b_wf b" and c: "c < length (b_rx b)" "b_rx b ! c = (raw_buf, recv_count)"
    and n: "0 < numbytes" "numbytes \<le> length (b_chans b ! c)"
  shows "b_rank (b\<lparr>b_chans := (b_chans b)[c := drop numbytes (b_chans b ! c)],
      b_rx := (b_rx b)[c := (raw', recv_count + numbytes)]\<rparr>) < b_rank b"
proof -
  have "sum_list (map snd ((b_rx b)[c := (raw', recv_count + numbytes)])) = sum_list (map snd (b_rx b)) + numbytes"
    using sum_list_map_update [OF c(1), of snd "(raw', recv_count + numbytes)"] c(2) by simp
  moreover have "sum_list (map length ((b_chans b)[c := drop numbytes (b_chans b ! c)])) + numbytes = sum_list (map length (b_chans b))"
    using sum_list_map_update [of c "b_chans b" length "drop numbytes (b_chans b ! c)"] wf c(1) n by (simp add: b_wf_def)
  ultimately show ?thesis using n by (simp add: b_rank_def)
qed

text \<open>A full buffer holds the first packet of its connection, whose number is not in the pool.\<close>

lemma rx_full:
  assumes at: "sys_at be (b_abs k b) q n flight" and wf: "b_wf b" and c: "c < length (b_rx b)" "b_rx b ! c = (raw_buf, PACKET_SIZE)"
  obtains p where "raw_buf = packet_bytes be p" and "unat (ep_seq p) \<notin> fst ` pool_items q (b_h b)"
proof -
  have cl: "c < length (b_chans b)" using wf c(1) by (simp add: b_wf_def)
  have raw: "length raw_buf = PACKET_SIZE" using wf c nth_mem [OF c(1)] by (auto simp: b_wf_def rx_wf_def)
  then have chan: "s_chans (b_abs k b) ! c = raw_buf @ b_chans b ! c @ tx_rest (b_tx b ! c)"
    using cl c by (simp add: b_abs_def conn_bytes_def rx_done_def)
  obtain p where "take PACKET_SIZE (s_chans (b_abs k b) ! c) = packet_bytes be p"
    and "unat (ep_seq p) \<notin> fst ` pool_items q (s_h (b_abs k b))"
    using cl raw chan by (auto intro: flight_head [OF at, of c] simp: b_abs_def)
  then show thesis using raw chan by (intro that [of p]) (simp_all add: b_abs_def)
qed

lemma rank_add:
  assumes at: "sys_at be (b_abs k b) q n flight" and wf: "b_wf b" and c: "c < length (b_rx b)" "b_rx b ! c = (raw_buf, PACKET_SIZE)"
    and mem: "b_h b ns = None" "pl_pq (b_pl b) = Ref q" "pq_room ok q"
    and add: "add2queue be ok (b_pl b) (b_h b) ns raw_buf = Some (pl', h')"
  shows "b_rank (b\<lparr>b_rx := (b_rx b)[c := (arr_new PACKET_SIZE, 0)], b_pl := pl', b_h := h'\<rparr>) < b_rank b"
proof -
  obtain p where p: "raw_buf = packet_bytes be p" "unat (ep_seq p) \<notin> fst ` pool_items q (b_h b)" by (rule rx_full [OF at wf c])
  have rx: "rx_queue q (b_h b)" using at by (simp add: sys_at_def b_abs_def)
  obtain q' where "pl_pq pl' = Ref q'" "pool_items q' h' = insert (unat (ep_seq p), ep_raw_packet p) (pool_items q (b_h b))"
    using add2queue_correct [OF mem(2) rx mem(1) p(2) mem(3) add2queue_ranges(1,2) [OF add], of be] add p(1) by (auto simp: add2queue_counters_def)
  then have "card (pool_items (the_ref (pl_pq pl')) h') \<le> Suc (card (pool_items q (b_h b)))" by (simp add: card_insert_if)
  moreover have "sum_list (map snd ((b_rx b)[c := (arr_new PACKET_SIZE, 0)])) + PACKET_SIZE = sum_list (map snd (b_rx b))"
    using sum_list_map_update [OF c(1), of snd "(arr_new PACKET_SIZE, 0)"] c(2) by simp
  moreover have "3 < PACKET_SIZE" by (simp add: PACKET_SIZE_def BLOCKSIZE_def)
  ultimately show ?thesis using mem(2) by (simp add: b_rank_def)
qed

lemma rank_fill:
  assumes at: "sys_at be (b_abs k b) q n flight" and lim: "b_lim b" and idle: "b_fwd b = None"
    and pq: "pl_pq (b_pl b) = Ref q" and room: "fill_room (b_fq b) (card (pool_items q (b_h b)))"
    and fill: "fill_queue r (Ref q) (b_h b) (b_fq b) = Some (pack_cnt, pq', h', fq')" "pack_cnt \<noteq> -1"
  shows "b_rank (b\<lparr>b_pl := (b_pl b)\<lparr>pl_pq := pq'\<rparr>, b_h := h', b_fq := fq', b_fwd := Some (nat pack_cnt, 0)\<rparr>) < b_rank b"
proof -
  obtain raws q' where f: "pack_cnt = (if raws = [] then -1 else int (length raws))" "pq' = Ref q'"
    "numbered n raws \<subseteq> pool_items q (b_h b)" "pool_items q' h' = pool_items q (b_h b) - numbered n raws"
    by (rule fill_at [OF at lim idle room, of r]) (use fill(1) in auto)
  then have "card (pool_items q' h') = card (pool_items q (b_h b)) - length raws"
    by (simp add: card_Diff_subset finite_subset [OF _ finite_pool_items] numbered_card)
  moreover have "length raws \<le> card (pool_items q (b_h b))"
    using card_mono [OF finite_pool_items f(3)] by (simp add: numbered_card)
  moreover have "raws \<noteq> []" using f(1) fill(2) by auto
  ultimately show ?thesis using f(1,2) idle pq by (cases raws) (auto simp: b_rank_def)
qed

lemma work_rank:
  assumes m: "b_match be s b" and lim: "b_lim b" and step: "b_work be b b'"
  shows "b_rank b' < b_rank b"
proof -
  obtain k q n flight where wf: "b_wf b" and at: "sys_at be (b_abs k b) q n flight" and pq: "pl_pq (b_pl b) = Ref q"
    by (rule b_matchE [OF m lim])
  have inv: "pb_inv (b_buff b)" using at by (simp add: sys_at_def b_abs_def)
  from step show ?thesis
  proof cases
    case (take c p buff')
    then show ?thesis using rank_take [OF inv take(2-4)] by simp
  next
    case (send c buf sent_count r numbytes)
    then show ?thesis using rank_send [OF wf send(2-6)] by simp
  next
    case (sent c buf)
    then show ?thesis
      using sum_list_map_update [OF sent(2), of tx_rank None] by (simp add: b_rank_def tx_rank_def)
  next
    case (recv c raw_buf recv_count numbytes)
    then show ?thesis using rank_recv [OF wf recv(2-4,6)] by simp
  next
    case (add c raw_buf ns q1 ok pl' h')
    then show ?thesis using rank_add [OF at wf add(2-4) pq] pq by simp
  next
    case (fill q1 r pack_cnt pq' h' fq')
    then show ?thesis using rank_fill [OF at lim fill(2) pq] pq by simp
  next
    case (forward pack_cnt cnt raw r wire sent)
    then have "pack_cnt - Suc cnt < pack_cnt - cnt" by linarith
    then show ?thesis unfolding forward(1) b_rank_def by (simp add: forward(2) del: add_diff_assoc)
  next
    case (forwarded pack_cnt s)
    then show ?thesis by (simp add: b_rank_def)
  qed
qed

text \<open>C39: with at most 65536 blocks in the log, the steps that carry data cannot go on for ever
  without new data: each of them decreases a measure of what is left to do, so a run of them
  from a reachable state has at most as many steps as the measure of its first state. (Beyond
  65536 blocks packets of equal number and content would count once in the measure.)\<close>

theorem work_terminates:
  assumes "b_reach be sockfd b" and "length (pb_log (b_buff b)) \<le> 65536" and "(b_work be ^^ n) b b'"
  shows "n + b_rank b' \<le> b_rank b"
  using assms(3)
proof (induction n arbitrary: b')
  case (Suc n)
  then obtain b1 where b1: "(b_work be ^^ n) b b1" "b_work be b1 b'" by auto
  have run: "(b_work be)\<^sup>*\<^sup>* b b1" using b1(1) by (metis relpowp_imp_rtranclp)
  then have "pb_log (b_buff b1) = pb_log (b_buff b)"
    by (induction rule: rtranclp_induct) (simp_all add: b_work_log)
  then have lim: "b_lim b1" using assms(2) by (simp add: b_lim_def)
  have "(b_step be)\<^sup>*\<^sup>* b b1" using run by (rule rtranclp_mono [THEN predicate2D, rotated]) (auto simp: b_step_def)
  then have "b_reach be sockfd b1" using assms(1) by simp
  then obtain s where "b_match be s b1" by (rule b_reach_match [OF _ lim])
  from work_rank [OF this lim b1(2)] Suc.IH [OF b1(1)] show ?case by simp
qed simp

text \<open>From every reachable state some run of these steps leads to a state where none is possible.\<close>

lemma work_settles:
  assumes "b_reach be sockfd b" and "b_lim b"
  shows "\<exists>b'. (b_work be)\<^sup>*\<^sup>* b b' \<and> b_reach be sockfd b' \<and> pb_log (b_buff b') = pb_log (b_buff b) \<and>
    \<not> (\<exists>b''. b_work be b' b'')"
  using assms
proof (induction "b_rank b" arbitrary: b rule: less_induct)
  case less
  show ?case
  proof (cases "\<exists>b1. b_work be b b1")
    case True
    then obtain b1 where b1: "b_work be b b1" by blast
    obtain s where "b_match be s b" by (rule b_reach_match [OF less.prems])
    then have "b_rank b1 < b_rank b" using b1 by (rule work_rank [OF _ less.prems(2)])
    moreover have "b_reach be sockfd b1" using less.prems(1) b1 by (auto simp: b_step_def intro: rtranclp.rtrancl_into_rtrancl)
    moreover have "b_lim b1" using less.prems(2) b_work_log [OF b1] by (simp add: b_lim_def)
    ultimately show ?thesis using less.hyps b1 b_work_log [OF b1] by (metis converse_rtranclp_into_rtranclp)
  next
    case False
    with less.prems show ?thesis by blast
  qed
qed

section \<open>Progress\<close>

lemma b_step_conns: "b_step be b b' \<Longrightarrow> length (b_chans b') = length (b_chans b)"
  unfolding b_step_def by (elim disjE b_workE b_otherE) simp_all

lemma b_reach_conns: "b_reach be sockfd b \<Longrightarrow> length (b_chans b) = 2"
proof (induction rule: rtranclp_induct)
  case base
  show ?case using sys_init_facts [of sockfd] by (simp add: b_init_def Let_def)
next
  case (step b b')
  then show ?case by (simp add: b_step_conns)
qed

lemma fresh_node: "b_mem b \<Longrightarrow> \<exists>ns. b_h b ns = None"
  using ex_new_if_finite [of "allocated (b_h b)"] by (auto simp: b_mem_def allocated_def infinite_UNIV_nat)

lemma quiet_tx:
  assumes quiet: "\<not> (\<exists>b'. b_work be b b')" and wf: "b_wf b" and c: "c < length (b_tx b)"
  shows "b_tx b ! c = None"
proof (cases "b_tx b ! c")
  case (Some x)
  obtain buf sent_count where x: "b_tx b ! c = Some (buf, sent_count)" using Some by (cases x) auto
  then have "sent_count \<le> PACKET_SIZE" using wf nth_mem [OF c] by (auto simp: b_wf_def tx_wf_def)
  then consider "sent_count < PACKET_SIZE" | "sent_count = PACKET_SIZE" by linarith
  then show ?thesis using quiet x c b_work.send [OF c x, of 1] b_work.sent [OF c] by cases (simp, blast)+
qed simp

text \<open>The pool holds no more packets than the log has blocks.\<close>

lemma pool_card:
  assumes "sys_at be s q n flight"
  shows "card (pool_items q (s_h s)) \<le> length (pb_log (s_buff s))"
proof -
  have "fst x < length (pb_log (s_buff s)) \<and> x = (fst x, pb_log (s_buff s) ! fst x)" if "x \<in> pool_items q (s_h s)" for x
    using that sys_at_block [OF assms, of x] sys_at_bounds(1) [OF assms] by (cases x) simp
  then have "pool_items q (s_h s) \<subseteq> (\<lambda>i. (i, pb_log (s_buff s) ! i)) ` {..<length (pb_log (s_buff s))}" by blast
  from card_mono [OF _ this] card_image_le [of "{..<length (pb_log (s_buff s))}" "\<lambda>i. (i, pb_log (s_buff s) ! i)"]
  show ?thesis by simp
qed

text \<open>Packets have a fixed size, so a connection with fewer bytes has none.\<close>

lemma short_chan:
  assumes at: "sys_at be s q n flight" and c: "c < length (s_chans s)" "length (s_chans s ! c) < PACKET_SIZE"
  shows "s_chans s ! c = []"
proof -
  have chans: "s_chans s = map (\<lambda>ps. concat (map (packet_bytes be) ps)) flight" using at by (simp add: sys_at_def)
  then have cf: "c < length flight" using c(1) by simp
  show ?thesis
  proof (cases "flight ! c")
    case (Cons p ps)
    then have "p \<in> set (concat flight)" using nth_mem [OF cf] by (auto intro!: bexI [of _ "p # ps"])
    then have "length (packet_bytes be p) = PACKET_SIZE"
      using sys_at_block(4) [OF at, of "pkt_item p"] by (simp add: pkt_item_def length_packet_bytes)
    then show ?thesis using c(2) cf Cons by (simp add: chans)
  qed (use cf in \<open>simp add: chans\<close>)
qed

lemma quiet_rx:
  assumes quiet: "\<not> (\<exists>b'. b_work be b b')" and wf: "b_wf b" and at: "sys_at be (b_abs k b) q n flight" and mem: "b_mem b"
    and lim: "b_lim b" and c: "c < length (b_chans b)"
  shows "b_chans b ! c = []" and "snd (b_rx b ! c) < PACKET_SIZE"
proof -
  obtain raw_buf recv_count where x: "b_rx b ! c = (raw_buf, recv_count)" by (cases "b_rx b ! c")
  have cr: "c < length (b_rx b)" using wf c by (simp add: b_wf_def)
  have le: "recv_count \<le> PACKET_SIZE" using wf x nth_mem [OF cr] by (auto simp: b_wf_def rx_wf_def)
  have "recv_count \<noteq> PACKET_SIZE"
  proof
    assume full: "recv_count = PACKET_SIZE"
    then obtain p where p: "raw_buf = packet_bytes be p" "unat (ep_seq p) \<notin> fst ` pool_items q (b_h b)"
      using rx_full [OF at wf cr] x by blast
    obtain ns where ns: "b_h b ns = None" using fresh_node [OF mem] by blast
    have pq: "pl_pq (b_pl b) = Ref q" and rx: "rx_queue q (b_h b)" and cnt: "counters_ok (s_pl (b_abs k b))"
      and sm: "pl_sent_min_seq (s_pl (b_abs k b)) = int n" using at by (auto simp: sys_at_def b_abs_def)
    have le_log: "card (pool_items q (b_h b)) \<le> 65536" using pool_card [OF at] lim by (simp add: b_abs_def b_lim_def)
    have "q_size q - 1 = card (pool_items q (b_h b))"
      using rx rx_queue_card [OF rx] card_pq_ptrs [of q "b_h b"] by (simp add: rx_queue_def pq_ok_def pq_valid_def)
    moreover have "q_step q = 11" using mem pq by (simp add: b_mem_def)
    ultimately have room: "pq_room True q" using le_log by (auto simp: pq_room_def)
    have rng: "int_range (pl_avail_min_seq (b_pl b) + 1)" "int_range (pl_sent_min_seq (b_pl b) + 1)"
      using cnt sm mem sys_at_bounds [OF at] lim
      by (auto simp: counters_ok_def b_abs_def b_mem_def int_range_def b_lim_def split: option.splits)
    obtain pl' h' where "add2queue be True (b_pl b) (b_h b) ns raw_buf = Some (pl', h')"
      using add2queue_correct [OF pq rx ns p(2) room rng, of be] p(1) by auto
    then show False using quiet b_work.add [OF cr _ ns pq room] x full by blast
  qed
  with le x show "snd (b_rx b ! c) < PACKET_SIZE" by simp
  show "b_chans b ! c = []"
  proof (rule ccontr)
    assume "b_chans b ! c \<noteq> []"
    then show False using quiet b_work.recv [OF cr x, of 1] \<open>recv_count \<noteq> PACKET_SIZE\<close> le by (auto simp: Suc_le_eq)
  qed
qed

lemma quiet_forward:
  assumes quiet: "\<not> (\<exists>b'. b_work be b b')" and wf: "b_wf b" and at: "sys_at be (b_abs k b) q n flight" and lim: "b_lim b"
  shows "b_fwd b = None"
proof (cases "b_fwd b")
  case (Some x)
  obtain pack_cnt cnt where fwd: "b_fwd b = Some (pack_cnt, cnt)" using Some by (cases x) auto
  then have w: "cnt \<le> pack_cnt" "-1 \<le> fq_sent (b_fq b)"
    "\<forall>i<pack_cnt. \<exists>raw. arr_get (fq_buffer (b_fq b)) i = Some raw \<and> length raw = BLOCKSIZE"
    using wf by (auto simp: b_wf_def fwd_wf_def)
  have n: "int n \<le> 65536" using sys_at_bounds [OF at] lim by (simp add: b_lim_def b_abs_def)
  have eqs: "fq_sent (b_fq b) + int (pack_cnt - cnt) + 1 = int n" "pl_sent_min_seq (b_pl b) + int pack_cnt = int n"
    using at fwd by (auto simp: sys_at_def b_abs_def fq_ok_def)
  consider "cnt < pack_cnt" | "cnt = pack_cnt" using w(1) by linarith
  then show ?thesis
  proof cases
    case 1
    then obtain raw where raw: "arr_get (fq_buffer (b_fq b)) cnt = Some raw" "length raw = BLOCKSIZE" using w(3) by blast
    have "send_block raw 0 [int BLOCKSIZE] = (Filled, raw, [])" using raw(2) BLOCKSIZE_pos by (simp add: send_count_def)
    moreover have "cint (fq_sent (b_fq b) + 1) = Some (fq_sent (b_fq b) + 1)"
      using eqs(1) n w(2) by (intro cint_in_range) (auto simp: int_range_def)
    ultimately show ?thesis using quiet b_work.forward [OF fwd 1 raw(1)] by blast
  next
    case 2
    have "cint (pl_sent_min_seq (b_pl b) + int pack_cnt) = Some (int n)" using eqs(2) n by (simp add: cint_def int_range_def)
    then show ?thesis using quiet b_work.forwarded [of b pack_cnt] fwd 2 by blast
  qed
qed simp

lemma quiet_delivers:
  assumes reach: "b_reach be sockfd b" and small: "length (pb_log (b_buff b)) \<le> 65536"
    and room: "fill_room (b_fq b) (length (pb_log (b_buff b)))" and quiet: "\<not> (\<exists>b'. b_work be b b')"
  shows "b_out b = concat (pb_log (b_buff b))"
proof -
  let ?log = "pb_log (b_buff b)"
  have lim: "b_lim b" using small by (simp add: b_lim_def)
  have mem: "b_mem b" by (rule b_mem_reach [OF reach])
  obtain s where m: "b_match be s b" and run: "(sys_step be)\<^sup>*\<^sup>* (sys_init sockfd) s" by (rule b_reach_match [OF reach lim])
  obtain k q n flight where s: "s = b_abs k b" and wf: "b_wf b" and at: "sys_at be (b_abs k b) q n flight"
    and pq: "pl_pq (b_pl b) = Ref q" by (rule b_matchE [OF m lim])
  have fwd: "b_fwd b = None" by (rule quiet_forward [OF quiet wf at lim])
  note tx = quiet_tx [OF quiet wf] and rx = quiet_rx [OF quiet wf at mem lim]
  have len: "length (b_tx b) = length (b_chans b)" "length (b_chans b) = 2"
    using wf b_reach_conns [OF reach] by (auto simp: b_wf_def)
  have "s_chans (b_abs k b) ! c = []" if "c < length (b_chans b)" for c
  proof (rule short_chan [OF at])
    show "length (s_chans (b_abs k b) ! c) < PACKET_SIZE"
      using that rx [OF that] tx [of c] len by (auto simp: b_abs_def conn_bytes_def tx_rest_def rx_done_def split: prod.splits)
  qed (use that in \<open>simp add: b_abs_def\<close>)
  then have drained: "\<forall>ch\<in>set (s_chans (b_abs k b)). ch = []" by (auto simp: b_abs_def)
  have inv: "pb_inv (b_buff b)" using at by (simp add: sys_at_def b_abs_def)
  have "\<not> pb_get_ind (b_buff b) \<le> pb_set_ind (b_buff b)"
  proof
    assume more: "pb_get_ind (b_buff b) \<le> pb_set_ind (b_buff b)"
    have "pb_set_ind (b_buff b) < 2147483" using small length_pb_log [OF inv] by simp
    from tx_take_packet(1) [OF inv this more] show False
      using quiet b_work.take [of 0 b] tx [of 0] len by fastforce
  qed
  then have sent: "pb_get_ind (b_buff b) = pb_set_ind (b_buff b) + 1" using inv by (auto simp: pb_inv_def)
  have P: "pool_items q (b_h b) = (\<lambda>i. (i, ?log ! i)) ` {n..<length ?log}"
    using drained_pool [OF at _ drained] sent by (simp add: b_abs_def)
  have room': "fill_room (b_fq b) (card (pool_items q (b_h b)))"
    using room pool_card [OF at] by (auto simp: fill_room_def b_abs_def)
  obtain raws q' h' fq' where
    f: "fill_queue True (Ref q) (b_h b) (b_fq b) = Some (if raws = [] then -1 else int (length raws), Ref q', h', fq')"
      "n + length raws \<notin> fst ` pool_items q (b_h b)" "buffered fq' raws" by (rule fill_at [OF at lim fwd room', of True])
  have "raws = []" using quiet b_work.fill [OF fwd pq room' f(1)] by (cases "raws = []") auto
  then have "length ?log \<le> n" using f(2) by (force simp: P)
  moreover have "b_out b = concat (take n ?log)" using at fwd by (simp add: sys_at_def b_abs_def fwd_rest_def)
  ultimately show ?thesis by simp
qed

text \<open>C40: the proxies do not get stuck: in a reachable state with at most 65536 blocks in the log
  and room for them in the buffer of the forward queue (\<open>fill_room\<close>), in which no thread can carry
  data any further, the destination has received the whole log. C34 and C17 show what happens
  beyond these bounds.\<close>

theorem quiet_complete:
  assumes reach: "b_reach be sockfd b" and small: "length (pb_log (b_buff b)) \<le> 65536"
    and room: "fill_room (b_fq b) (length (pb_log (b_buff b)))" and quiet: "\<not> (\<exists>b'. b_work be b b')"
  shows "b_out b = concat (pb_log (b_buff b))"
  by (rule quiet_delivers [OF assms])

end
