(* ===== verification/Proxy_Types.thy ===== *)
theory Proxy_Types
  imports Proxy_Progress
begin

text \<open>
  What holds of every state the proxies reach by single calls, however long the stream is:
  the types of the data (lengths of buffers and payloads, ranges of numbers), and the bound
  on what is ever delivered that follows from 16-bit sequence numbers. Nothing here needs a
  valid queue.
\<close>

section \<open>Nodes and the forward queue\<close>

definition block_node :: "node_t \<Rightarrow> bool" where
  "block_node n \<longleftrightarrow> unat (n_pri n) < 65536 \<and> length (n_raw_packet n) = BLOCKSIZE"

lemma keeps_block_node: "q_setpos q = set_pos \<Longrightarrow> keeps block_node q"
  by (simp add: keeps_def block_node_def set_pos_def)

lemma block_node_pri: "block_node n \<Longrightarrow> pri_int (n_pri n) < 65536"
proof -
  assume "block_node n"
  then have u: "unat (n_pri n) < 65536" by (simp add: block_node_def)
  then have "pri_int (n_pri n) = int (unat (n_pri n))" by (intro pri_int_small) simp
  moreover have "int (unat (n_pri n)) < int 65536" using u by (simp only: of_nat_less_iff)
  ultimately show "pri_int (n_pri n) < 65536" by (metis of_nat_numeral)
qed

text \<open>The forward queue with \<open>pack_cnt\<close> packets in its buffer.\<close>

definition fill_typed :: "fqueue_t \<Rightarrow> int \<Rightarrow> bool" where
  "fill_typed fq c \<longleftrightarrow> 0 \<le> c \<and> -1 \<le> fq_sent fq \<and> fq_sent fq + c < 65536 \<and> 8000 \<le> fq_byte_capacity fq \<and>
     8 * int (length (fq_buffer fq)) \<le> 2 * fq_byte_capacity fq \<and>
     (\<forall>i<nat c. \<exists>raw. arr_get (fq_buffer fq) i = Some raw \<and> length raw = BLOCKSIZE)"

lemma fill_extend_typed:
  assumes "fill_extend fq = Some fq1" and "fill_typed fq c"
  shows "fill_typed fq1 c \<and> fq_sent fq1 = fq_sent fq"
proof (cases "fq_byte_capacity fq - fq_byte_count fq < 10 * int BLOCKSIZE")
  case True
  then obtain cap where cap: "cap = fq_byte_capacity fq * 2"
    and fq1: "fq1 = fq\<lparr>fq_byte_capacity := cap, fq_buffer := arr_realloc (fq_buffer fq) (nat cap div 8)\<rparr>"
    using assms(1) by (auto simp: fill_extend_def cint_eq_Some_iff split: Option.bind_splits)
  have len: "length (fq_buffer fq) \<le> nat cap div 8" "8 * int (nat cap div 8) \<le> cap"
    using assms(2) cap by (auto simp: fill_typed_def)
  have "arr_get (arr_realloc (fq_buffer fq) (nat cap div 8)) i = Some raw" if "arr_get (fq_buffer fq) i = Some raw" for i raw
    using that len by (auto simp: arr_get_def nth_arr_realloc split: if_splits)
  with assms(2) len cap fq1 show ?thesis by (auto simp: fill_typed_def)
next
  case False
  with assms show ?thesis by (auto simp: fill_extend_def cint_eq_Some_iff split: Option.bind_splits if_splits)
qed

lemma fill_typed_accept:
  assumes "fill_typed fq c" and "arr_set (fq_buffer fq) (nat c) raw = Some buf" and "length raw = BLOCKSIZE" and "fq_sent fq + c + 1 < 65536"
  shows "fill_typed (fq\<lparr>fq_buffer := buf, fq_byte_count := b\<rparr>) (c + 1)"
proof -
  have "\<exists>raw. arr_get buf i = Some raw \<and> length raw = BLOCKSIZE" if "i < nat (c + 1)" for i
  proof (cases "i = nat c")
    case True
    with assms(2,3) show ?thesis by (simp add: arr_set_eq_Some_iff arr_get_def)
  next
    case False
    with that assms(1) have "i < nat c" by (simp add: fill_typed_def)
    with assms(1,2) False show ?thesis by (fastforce simp: fill_typed_def arr_set_eq_Some_iff arr_get_def split: if_splits)
  qed
  with assms show ?thesis by (auto simp: fill_typed_def arr_set_eq_Some_iff)
qed

lemma fill_loop_typed:
  assumes "fill_loop r (Ref q) h fq c = Some (n, pq', h', fq')" and "keeps block_node q" and "all_nodes block_node h" and "fill_typed fq c"
  shows "all_nodes block_node h' \<and> fill_typed fq' n \<and> fq_sent fq' = fq_sent fq"
  using assms
proof (induction "pop_rank (Ref q)" arbitrary: q h fq c rule: less_induct)
  case less
  have popped: "keeps block_node q1 \<and> all_nodes block_node h1" if "pqueue_pop (Ref q) h = Some (e, Ref q1, h1)" for e q1 h1
    using pqueue_pop_nodes [OF that less.prems(2,3)] pqueue_pop_frame [OF that] keeps_fixed [of q1 q] less.prems(2) by simp
  from less.prems(1) show ?case
  proof (cases rule: fill_loop_cases)
    case (stop fq1 e)
    then show ?thesis using fill_extend_typed [OF stop(1) less.prems(4)] pqueue_pop_nodes [OF stop(2) less.prems(2,3)] by simp
  next
    case (put_back fq1 p pq1 h1 i)
    then obtain q1 where "pq1 = Ref q1" using pqueue_pop_Ref [OF put_back(2)] by blast
    with put_back show ?thesis using fill_extend_typed [OF put_back(1) less.prems(4)] pqueue_insert_nodes popped by blast
  next
    case (again fq1 p pq1 h1 nd buf b)
    obtain q1 where q1: "pq1 = Ref q1" using pqueue_pop_Ref [OF again(2)] by blast
    note ext = fill_extend_typed [OF again(1) less.prems(4)] and pop = popped [OF again(2) [unfolded q1]]
    have nd: "block_node nd" using pop again(3) by (simp add: all_nodes_def)
    then have "pri_int (n_pri nd) < 65536" using block_node_pri by blast
    then have "fq_sent fq1 + c + 1 < 65536" by (simp only: again(4))
    then have "fill_typed (fq1\<lparr>fq_buffer := buf, fq_byte_count := b\<rparr>) (c + 1)"
      using fill_typed_accept [OF _ again(5)] ext nd by (simp add: block_node_def)
    with less.hyps [OF pqueue_pop_rank [OF again(2) [unfolded q1]] again(6) [unfolded q1]] pop ext show ?thesis by simp
  qed
qed

lemma fill_queue_typed:
  assumes fill: "fill_queue r (Ref q) h fq = Some (n, pq', h', fq')" and q: "q_setpos q = set_pos" and h: "all_nodes block_node h"
    and fq: "-1 \<le> fq_sent fq" "fq_sent fq < 65536" "8000 \<le> fq_byte_capacity fq"
  shows "all_nodes block_node h' \<and> (\<exists>q'. pq' = Ref q' \<and> q_setpos q' = set_pos) \<and> fq_sent fq' = fq_sent fq \<and>
    8000 \<le> fq_byte_capacity fq' \<and> (n = -1 \<or> fill_typed fq' n)"
proof -
  obtain q' where "pq' = Ref q'" "fixed q' = fixed q" using framed_queue [OF fill_queue_frame [OF fill]] by blast
  then have pq': "\<exists>q'. pq' = Ref q' \<and> q_setpos q' = set_pos" using q by (simp add: fixed_def)
  let ?fq = "fq\<lparr>fq_buffer := arr_new 1250\<rparr>"
  have start: "fill_typed ?fq 0" using fq by (simp add: fill_typed_def)
  obtain e qp1 h1 where pop: "pqueue_pop (Ref q) h = Some (e, qp1, h1)"
    using fill by (auto simp: fill_queue_def Let_def split: Option.bind_splits)
  note nodes = pqueue_pop_nodes [OF pop keeps_block_node [OF q] h]
  show ?thesis
  proof (cases e)
    case Null
    with fill pop nodes pq' fq show ?thesis by (auto simp: fill_queue_def Let_def BLOCKSIZE_def)
  next
    case (Ref p)
    then obtain q1 where q1: "qp1 = Ref q1" using pop pqueue_pop_Ref [of "Ref q" h p qp1 h1] by auto
    have keeps: "keeps block_node q1"
      using pqueue_pop_frame [OF pop] keeps_fixed [of q1 q] keeps_block_node [OF q] by (simp add: q1)
    obtain nd where nd: "h1 p = Some nd" using fill pop Ref by (auto simp: fill_queue_def Let_def split: Option.bind_splits)
    then have block: "block_node nd" using nodes by (simp add: all_nodes_def)
    show ?thesis
    proof (cases "pri_int (n_pri nd) = fq_sent fq + 1")
      case True
      then obtain buf where buf: "arr_set (fq_buffer ?fq) (nat 0) (n_raw_packet nd) = Some buf"
        and loop: "fill_loop r (Ref q1) h1 (?fq\<lparr>fq_buffer := buf\<rparr>) 1 = Some (n, pq', h', fq')"
        using fill pop Ref nd by (auto simp: fill_queue_def Let_def q1 BLOCKSIZE_def cint_eq_Some_iff split: Option.bind_splits)
      have "fill_typed (?fq\<lparr>fq_buffer := buf\<rparr>) 1"
        using fill_typed_accept [OF start buf, of 0] block block_node_pri [OF block] True by (simp add: block_node_def fill_typed_def)
      from fill_loop_typed [OF loop keeps nodes this] pq' show ?thesis by (auto simp: fill_typed_def)
    next
      case False
      then obtain i where "pqueue_insert r (Ref q1) h1 p = Some (i, pq', h')" and "n = -1" "fq' = ?fq"
        using fill pop Ref nd by (auto simp: fill_queue_def Let_def q1 BLOCKSIZE_def cint_eq_Some_iff split: Option.bind_splits)
      with pqueue_insert_nodes [OF _ keeps nodes] pq' fq show ?thesis by simp
    qed
  qed
qed

lemma add2queue_typed:
  assumes add: "add2queue be ok pl h ns raw = Some (pl', h')" and pl: "pl_pq pl = Ref q" "q_setpos q = set_pos"
    and h: "all_nodes block_node h" and raw: "length raw = PACKET_SIZE"
  shows "all_nodes block_node h' \<and> (\<exists>q'. pl_pq pl' = Ref q' \<and> q_setpos q' = set_pos)"
proof -
  obtain pkt e pq where pkt: "cast_packet be raw = Some pkt"
    and ins: "pqueue_insert ok (Ref q) (h(ns \<mapsto> \<lparr>n_pri = ucast (ep_seq pkt), n_raw_packet = ep_raw_packet pkt, n_pos = 0\<rparr>)) ns = Some (e, pq, h')"
    and pq: "pl_pq pl' = pq"
    using add pl by (auto simp: add2queue_def Let_def split: Option.bind_splits if_splits)
  have "unat (ep_seq pkt) < 65536" using unsigned_less [of "ep_seq pkt", where ?'a = nat] by simp
  then have "block_node \<lparr>n_pri = ucast (ep_seq pkt), n_raw_packet = ep_raw_packet pkt, n_pos = 0\<rparr>"
    using pkt raw by (auto simp: block_node_def uint_ushort_nat cast_packet_def PACKET_SIZE_def split: Option.bind_splits)
  then have "all_nodes block_node h'" using h by (intro pqueue_insert_nodes [OF ins keeps_block_node [OF pl(2)]]) (simp add: all_nodes_def)
  moreover obtain q' where "pq = Ref q'" "fixed q' = fixed q" using framed_queue [OF pqueue_insert_framed [OF ins]] by blast
  ultimately show ?thesis using pq pl by (simp add: fixed_def)
qed

section \<open>States\<close>

text \<open>The packets in the buffer of the forward queue that are still to be sent.\<close>

definition pending :: "bsys \<Rightarrow> int" where
  "pending b = (case b_fwd b of None \<Rightarrow> 0 | Some (pack_cnt, cnt) \<Rightarrow> int pack_cnt - int cnt)"

definition b_typed :: "bsys \<Rightarrow> bool" where
  "b_typed b \<longleftrightarrow> b_wf b \<and> (\<exists>q. pl_pq (b_pl b) = Ref q \<and> q_setpos q = set_pos) \<and> all_nodes block_node (b_h b) \<and>
     8000 \<le> fq_byte_capacity (b_fq b) \<and> -1 \<le> fq_sent (b_fq b) \<and> fq_sent (b_fq b) + pending b < 65536 \<and>
     length (b_out b) = nat (fq_sent (b_fq b) + 1) * BLOCKSIZE"

lemma typed_init: "b_typed (b_init sockfd)"
proof -
  obtain q where "pl_pq (pool_init True True) = Ref q" "q_setpos q = set_pos"
    by (simp add: pool_init_def pqueue_init_def)
  then show ?thesis using sys_init_facts [of sockfd]
    by (auto simp: b_typed_def b_init_def Let_def b_wf_def tx_wf_def rx_wf_def fwd_wf_def all_nodes_def pending_def
        wait2forward_fq_def INIT_QUEUE_SIZE_def)
qed

lemma typed_fill:
  assumes "b_typed b" and "b_fwd b = None" and "pl_pq (b_pl b) = Ref q"
    and "fill_queue r (Ref q) (b_h b) (b_fq b) = Some (n, pq', h', fq')"
  shows "n = -1 \<Longrightarrow> b_typed (b\<lparr>b_pl := (b_pl b)\<lparr>pl_pq := pq'\<rparr>, b_h := h', b_fq := fq'\<rparr>)"
    and "n \<noteq> -1 \<Longrightarrow> b_typed (b\<lparr>b_pl := (b_pl b)\<lparr>pl_pq := pq'\<rparr>, b_h := h', b_fq := fq', b_fwd := Some (nat n, 0)\<rparr>)"
proof -
  have t: "all_nodes block_node h' \<and> (\<exists>q'. pq' = Ref q' \<and> q_setpos q' = set_pos) \<and> fq_sent fq' = fq_sent (b_fq b) \<and>
      8000 \<le> fq_byte_capacity fq' \<and> (n = -1 \<or> fill_typed fq' n)"
    using assms(1-3) by (intro fill_queue_typed [OF assms(4)]) (auto simp: b_typed_def pending_def)
  show "b_typed (b\<lparr>b_pl := (b_pl b)\<lparr>pl_pq := pq'\<rparr>, b_h := h', b_fq := fq'\<rparr>)" if "n = -1"
    using t assms(1,2) that by (auto simp: b_typed_def b_wf_def fwd_wf_def pending_def)
  show "b_typed (b\<lparr>b_pl := (b_pl b)\<lparr>pl_pq := pq'\<rparr>, b_h := h', b_fq := fq', b_fwd := Some (nat n, 0)\<rparr>)" if "n \<noteq> -1"
    using t assms(1,2) that by (auto simp: b_typed_def b_wf_def fwd_wf_def pending_def fill_typed_def)
qed

text \<open>Every step keeps it.\<close>

lemma typed_work:
  assumes "b_work be b b'" and t: "b_typed b"
  shows "b_typed b'"
proof -
  have wf: "b_wf b" using t by (simp add: b_typed_def)
  from assms(1) show ?thesis
  proof cases
    case (take c p buff')
    have "tx_wf (Some (packet_bytes be p, 0))" using tx_take_packet_length [OF take(4)] by (simp add: tx_wf_def length_packet_bytes)
    then have "b_wf b'" using b_wf_upd(2) [of "b\<lparr>b_buff := buff'\<rparr>"] wf take(1) by (simp add: b_wf_upd(4))
    then show ?thesis using t take(1) by (simp add: b_typed_def pending_def)
  next
    case (send c buf sent_count r numbytes)
    with sim_send [OF wf send(2,3,4,5,6)] t show ?thesis by (simp add: b_typed_def pending_def)
  next
    case (sent c buf)
    with sim_sent [OF wf sent(2,3)] t show ?thesis by (simp add: b_typed_def pending_def)
  next
    case (recv c raw_buf recv_count numbytes)
    with sim_recv [OF wf recv(2,3,4,5,6)] t show ?thesis by (simp add: b_typed_def pending_def)
  next
    case (add c raw_buf ns q ok pl' h')
    have raw: "length raw_buf = PACKET_SIZE" using wf add(2,3) nth_mem [OF add(2)] by (auto simp: b_wf_def rx_wf_def)
    have "b_wf b'" using b_wf_upd(3) [OF wf, of "(arr_new PACKET_SIZE, 0)" c] add(1) by (simp add: rx_wf_def b_wf_upd(5,6))
    moreover have "all_nodes block_node h' \<and> (\<exists>q'. pl_pq pl' = Ref q' \<and> q_setpos q' = set_pos)"
      using t add(5) by (intro add2queue_typed [OF add(7,5) _ _ raw]) (auto simp: b_typed_def)
    ultimately show ?thesis using t add(1) by (simp add: b_typed_def pending_def)
  next
    case (fill q r pack_cnt pq' h' fq')
    then show ?thesis using typed_fill(2) [OF t fill(2,3,5,6)] by simp
  next
    case (forward pack_cnt cnt raw r wire sent)
    have s: "sent = fq_sent (b_fq b) + 1" using forward(6) by (simp add: cint_eq_Some_iff)
    have len: "length raw = BLOCKSIZE" using wf forward(2,3,4) by (auto simp: b_wf_def fwd_wf_def)
    then have wire: "wire = raw" by (rule send_block_once [OF forward(5)])
    have "b_wf b'" using sim_forward [OF wf forward(2-6)] forward(1) by simp
    moreover have "nat (2 + fq_sent (b_fq b)) = Suc (nat (fq_sent (b_fq b) + 1))" using t unfolding b_typed_def by linarith
    ultimately show ?thesis using t forward(1,2) by (auto simp: b_typed_def pending_def s wire len)
  next
    case (forwarded pack_cnt s)
    with sim_forwarded [OF wf forwarded(2,3)] t show ?thesis by (simp add: b_typed_def pending_def)
  qed
qed

lemma typed_other:
  assumes "b_other b b'" and t: "b_typed b"
  shows "b_typed b'"
  using assms(1)
proof cases
  case (idle q r pq' h' fq')
  then show ?thesis using typed_fill(1) [OF t idle(2,3,5)] by simp
qed (use t in \<open>simp_all add: b_typed_def pending_def b_wf_upd\<close>)

lemma typed_reach: "b_reach be sockfd b \<Longrightarrow> b_typed b"
  by (induction rule: rtranclp_induct) (auto simp: b_step_def intro: typed_init typed_work typed_other)

text \<open>C31: in every state the two proxies reach by single calls, however long the stream is and
  whatever its bytes, the data has the shape its types promise: the packet a connection thread
  is sending and the buffer a receiving thread is filling have the size of a packet, with the
  count of bytes in range; every node of the pool has a 16-bit number and a payload of one
  block; the payloads the forwarding thread is sending are written and have one block each.\<close>

theorem states_typed:
  assumes "b_reach be sockfd b"
  shows "(\<forall>c buf sent_count. c < length (b_tx b) \<longrightarrow> b_tx b ! c = Some (buf, sent_count) \<longrightarrow>
      length buf = PACKET_SIZE \<and> sent_count \<le> PACKET_SIZE) \<and>
    (\<forall>c raw_buf recv_count. c < length (b_rx b) \<longrightarrow> b_rx b ! c = (raw_buf, recv_count) \<longrightarrow>
      length raw_buf = PACKET_SIZE \<and> recv_count \<le> PACKET_SIZE) \<and>
    (\<forall>p n. b_h b p = Some n \<longrightarrow> unat (n_pri n) < 65536 \<and> length (n_raw_packet n) = BLOCKSIZE) \<and>
    (\<forall>pack_cnt cnt i. b_fwd b = Some (pack_cnt, cnt) \<longrightarrow> i < pack_cnt \<longrightarrow>
      (\<exists>raw. arr_get (fq_buffer (b_fq b)) i = Some raw \<and> length raw = BLOCKSIZE))"
proof -
  have t: "b_typed b" by (rule typed_reach [OF assms])
  then have wf: "b_wf b" by (simp add: b_typed_def)
  have "tx_wf (b_tx b ! c)" if "c < length (b_tx b)" for c using wf that by (simp add: b_wf_def)
  moreover have "rx_wf (b_rx b ! c)" if "c < length (b_rx b)" for c using wf that by (simp add: b_wf_def)
  ultimately show ?thesis
    using t wf by (fastforce simp: tx_wf_def rx_wf_def b_typed_def all_nodes_def block_node_def b_wf_def fwd_wf_def)
qed

text \<open>C34: the proxies never deliver more than 65536 blocks, however long the stream is: sequence
  numbers have 16 bits, and the forwarding thread waits for number 65536 for ever.\<close>

theorem output_bounded:
  assumes "b_reach be sockfd b"
  shows "length (b_out b) \<le> 65536 * BLOCKSIZE"
proof -
  have "b_typed b" by (rule typed_reach [OF assms])
  moreover from this have "0 \<le> pending b" by (auto simp: b_typed_def b_wf_def fwd_wf_def pending_def split: option.splits)
  ultimately have "nat (fq_sent (b_fq b) + 1) \<le> 65536" "length (b_out b) = nat (fq_sent (b_fq b) + 1) * BLOCKSIZE"
    by (auto simp: b_typed_def)
  then show ?thesis by simp
qed

end
