(* ===== verification/Proxy_Sections.thy ===== *)
theory Proxy_Sections
  imports Proxy_Progress
begin

text \<open>
  The other direction of \<open>Proxy_Bytes\<close>: whatever the proxies reach by whole critical sections,
  run by the functions \<open>tx_round\<close>, \<open>add2queue\<close> and \<open>forward_round\<close> of the code, they reach by
  single calls too. Every section is a run of steps at the finer grain that starts and ends
  where no thread is inside a loop.
\<close>

section \<open>Between the sections\<close>

definition b_between :: "sys \<Rightarrow> bsys" where
  "b_between s =
     \<lparr>b_buff = s_buff s, b_tx = replicate (length (s_chans s)) None, b_chans = s_chans s,
      b_rx = replicate (length (s_chans s)) (arr_new PACKET_SIZE, 0),
      b_pl = s_pl s, b_h = s_h s, b_fq = s_fq s, b_fwd = None, b_out = s_out s\<rparr>"

lemma b_between_simps [simp]:
  "b_buff (b_between s) = s_buff s" "b_chans (b_between s) = s_chans s" "b_pl (b_between s) = s_pl s"
  "b_h (b_between s) = s_h s" "b_fq (b_between s) = s_fq s" "b_fwd (b_between s) = None" "b_out (b_between s) = s_out s"
  "b_tx (b_between s) = replicate (length (s_chans s)) None"
  "b_rx (b_between s) = replicate (length (s_chans s)) (arr_new PACKET_SIZE, 0)"
  by (simp_all add: b_between_def)

lemma replicate_update_same [simp]: "c < n \<Longrightarrow> (replicate n x)[c := x] = replicate n x"
  using list_update_id [of "replicate n x" c] by simp

lemma b_init_between: "b_init sockfd = b_between (sys_init sockfd)"
  by (simp add: b_init_def b_between_def Let_def)

lemma work_run: "b_work be b b' \<Longrightarrow> (b_step be)\<^sup>*\<^sup>* b b'"
  by (auto simp: b_step_def)

lemma other_run: "b_other b b' \<Longrightarrow> (b_step be)\<^sup>*\<^sup>* b b'"
  by (auto simp: b_step_def)

text \<open>A first and a last step around a run.\<close>

lemma run_between: "b_work be b b1 \<Longrightarrow> (b_step be)\<^sup>*\<^sup>* b1 b2 \<Longrightarrow> b_work be b2 b3 \<Longrightarrow> b3 = b' \<Longrightarrow> (b_step be)\<^sup>*\<^sup>* b b'"
  by (blast intro: rtranclp_trans work_run)

section \<open>Sending\<close>

text \<open>The calls of \<open>send\<close> of one packet; a call that returns an error is no step.\<close>

lemma send_run:
  assumes "send_fill True PACKET_SIZE buf k rs = (Filled, wire, rs')" and "k \<le> PACKET_SIZE"
    and "c < length (b_tx b)" and "c < length (b_chans b)" and "b_tx b ! c = Some (buf, k)"
  shows "(b_step be)\<^sup>*\<^sup>* b (b\<lparr>b_tx := (b_tx b)[c := Some (buf, PACKET_SIZE)], b_chans := (b_chans b)[c := b_chans b ! c @ wire]\<rparr>)"
  using assms
proof (induction rs arbitrary: k wire b)
  case Nil
  then have "k = PACKET_SIZE" "wire = []" by (auto split: if_splits)
  with Nil have "b\<lparr>b_tx := (b_tx b)[c := Some (buf, PACKET_SIZE)], b_chans := (b_chans b)[c := b_chans b ! c @ wire]\<rparr> = b"
    using list_update_id [of "b_tx b" c] by simp
  then show ?case by simp
next
  case (Cons r rs)
  let ?m = "nat (send_count r (PACKET_SIZE - k))"
  consider (full) "k = PACKET_SIZE" | (retry) "k < PACKET_SIZE" "r \<le> 0" | (sent) "k < PACKET_SIZE" "0 < r"
    using Cons.prems(2) by linarith
  then show ?case
  proof cases
    case full
    with Cons.prems have "b\<lparr>b_tx := (b_tx b)[c := Some (buf, PACKET_SIZE)], b_chans := (b_chans b)[c := b_chans b ! c @ wire]\<rparr> = b"
      using list_update_id [of "b_tx b" c] by simp
    then show ?thesis by simp
  next
    case retry
    then have "send_fill True PACKET_SIZE buf k rs = (Filled, wire, rs')"
      using Cons.prems(1) by (auto simp: Let_def send_count_def split: if_splits)
    from Cons.IH [OF this Cons.prems(2-5)] show ?thesis .
  next
    case sent
    then have pos: "0 < send_count r (PACKET_SIZE - k)" and m: "k + ?m \<le> PACKET_SIZE" by (auto simp: send_count_def)
    obtain wire' where w: "send_fill True PACKET_SIZE buf (k + ?m) rs = (Filled, wire', rs')" "wire = take ?m (drop k buf) @ wire'"
      using Cons.prems(1) sent pos by (auto simp: Let_def split: prod.splits)
    let ?b = "b\<lparr>b_tx := (b_tx b)[c := Some (buf, k + ?m)], b_chans := (b_chans b)[c := b_chans b ! c @ take ?m (drop k buf)]\<rparr>"
    have "b_work be b ?b" by (rule b_work.send [OF Cons.prems(3,5) sent refl])
    moreover have "(b_step be)\<^sup>*\<^sup>* ?b (?b\<lparr>b_tx := (b_tx ?b)[c := Some (buf, PACKET_SIZE)], b_chans := (b_chans ?b)[c := b_chans ?b ! c @ wire']\<rparr>)"
      using Cons.prems(3,4) by (intro Cons.IH [OF w(1) m]) simp_all
    ultimately show ?thesis using Cons.prems(4) by (simp add: w(2)) (blast intro: rtranclp_trans work_run)
  qed
qed

lemma tx_run:
  assumes c: "c < length (s_chans s)" and round: "tx_round be 0 0 state rs (s_buff s) = Some (Returned True, wire, buff')"
  shows "(b_step be)\<^sup>*\<^sup>* (b_between s) (b_between (s\<lparr>s_buff := buff', s_chans := (s_chans s)[c := s_chans s ! c @ wire]\<rparr>))"
proof -
  obtain nxt where take: "tx_take (s_buff s) = Some (nxt, buff')" using round by (auto simp: tx_round_def split: Option.bind_splits tx_next.splits prod.splits fill_end.splits)
  show ?thesis
  proof (cases nxt)
    case (TxPacket p)
    then obtain rs' where fill: "send_fill True PACKET_SIZE (packet_bytes be p) 0 rs = (Filled, wire, rs')"
      using round take by (auto simp: tx_round_def split: prod.splits fill_end.splits)
    let ?b1 = "(b_between s)\<lparr>b_buff := buff', b_tx := (b_tx (b_between s))[c := Some (packet_bytes be p, 0)]\<rparr>"
    let ?b2 = "?b1\<lparr>b_tx := (b_tx ?b1)[c := Some (packet_bytes be p, PACKET_SIZE)], b_chans := (b_chans ?b1)[c := b_chans ?b1 ! c @ wire]\<rparr>"
    have "b_work be (b_between s) ?b1" by (rule b_work.take) (use c take TxPacket in simp_all)
    moreover have "(b_step be)\<^sup>*\<^sup>* ?b1 ?b2" by (rule send_run [OF fill]) (use c in simp_all)
    moreover have "b_work be ?b2 (?b2\<lparr>b_tx := (b_tx ?b2)[c := None]\<rparr>)"
      by (rule b_work.sent [where buf = "packet_bytes be p"]) (use c in simp_all)
    moreover have "?b2\<lparr>b_tx := (b_tx ?b2)[c := None]\<rparr> = b_between (s\<lparr>s_buff := buff', s_chans := (s_chans s)[c := s_chans s ! c @ wire]\<rparr>)"
      using c by (simp add: b_between_def)
    ultimately show ?thesis by (rule run_between)
  next
    case TxWait
    then have "buff' = s_buff s" "wire = []" using round take
      by (auto simp: tx_round_def tx_take_def LOG_ASSERT_def split: Option.bind_splits if_splits)
    then show ?thesis by simp
  next
    case TxFin
    with round take show ?thesis by (simp add: tx_round_def)
  qed
qed

section \<open>Receiving\<close>

lemma rx_run:
  assumes c: "c < length (s_chans s)" and bytes: "PACKET_SIZE \<le> length (s_chans s ! c)"
    and add: "s_h s ns = None" "pl_pq (s_pl s) = Ref q" "pq_room ok q"
      "add2queue be ok (s_pl s) (s_h s) ns (take PACKET_SIZE (s_chans s ! c)) = Some (pl', h')"
  shows "(b_step be)\<^sup>*\<^sup>* (b_between s)
    (b_between (s\<lparr>s_chans := (s_chans s)[c := drop PACKET_SIZE (s_chans s ! c)], s_pl := pl', s_h := h'\<rparr>))"
proof -
  let ?raw = "take PACKET_SIZE (s_chans s ! c)"
  let ?b1 = "(b_between s)\<lparr>b_chans := (s_chans s)[c := drop PACKET_SIZE (s_chans s ! c)],
      b_rx := (b_rx (b_between s))[c := (?raw, PACKET_SIZE)]\<rparr>"
  have "b_work be (b_between s) ?b1"
    using b_work.recv [of c "b_between s" "arr_new PACKET_SIZE" 0 PACKET_SIZE be] c bytes
    by (simp add: PACKET_SIZE_def arr_new_def)
  moreover have "b_work be ?b1 (?b1\<lparr>b_rx := (b_rx ?b1)[c := (arr_new PACKET_SIZE, 0)], b_pl := pl', b_h := h'\<rparr>)"
    by (rule b_work.add [where raw_buf = ?raw]) (use c add in simp_all)
  moreover have "?b1\<lparr>b_rx := (b_rx ?b1)[c := (arr_new PACKET_SIZE, 0)], b_pl := pl', b_h := h'\<rparr> =
      b_between (s\<lparr>s_chans := (s_chans s)[c := drop PACKET_SIZE (s_chans s ! c)], s_pl := pl', s_h := h'\<rparr>)"
    using c by (simp add: b_between_def)
  ultimately show ?thesis by (rule run_between [OF _ rtranclp.rtrancl_refl])
qed

section \<open>Forwarding\<close>

text \<open>\<open>fill_queue\<close> returns -1 or a positive count.\<close>

lemma fill_loop_count: "fill_loop r pq h fq c = Some (n, pq', h', fq') \<Longrightarrow> c \<le> n"
proof (induction "pop_rank pq" arbitrary: pq h fq c rule: less_induct)
  case less
  from less.prems show ?case
  proof (cases rule: fill_loop_cases)
    case (again fq1 p pq1 h1 nd buf b)
    from less.hyps [OF pqueue_pop_rank [OF again(2)] again(6)] show ?thesis by simp
  qed simp_all
qed

lemma fill_queue_count: "fill_queue r pq h fq = Some (n, pq', h', fq') \<Longrightarrow> n = -1 \<or> 1 \<le> n"
  by (auto simp: fill_queue_def Let_def split: Option.bind_splits ref.splits if_splits dest: fill_loop_count)

text \<open>With whole sends a block is sent by one call.\<close>

lemma send_block_one:
  assumes "whole_sends rs" and "send_block raw 0 rs = (Filled, wire, rs')"
  shows "send_block raw 0 [int BLOCKSIZE] = (Filled, wire, []) \<and> whole_sends rs'"
  using assms
proof (induction rs)
  case (Cons r rs)
  show ?case
  proof (cases "0 < r")
    case True
    then have "send_count r BLOCKSIZE = int BLOCKSIZE" "send_count (int BLOCKSIZE) BLOCKSIZE = int BLOCKSIZE" "0 < BLOCKSIZE"
      using Cons.prems(1) by (simp_all add: whole_sends_def send_count_def BLOCKSIZE_def)
    with True Cons.prems show ?thesis by (auto simp: whole_sends_def Let_def)
  next
    case False
    then have "send_block raw 0 rs = (Filled, wire, rs')" "whole_sends rs"
      using Cons.prems by (auto simp: whole_sends_def Let_def send_count_def BLOCKSIZE_def split: if_splits)
    then show ?thesis using Cons.IH by simp
  qed
qed (simp add: BLOCKSIZE_def)

lemma forward_run:
  assumes "forward_from k cnt (b_fq b) rs = Some (Filled, wire, fq', rs')" and "whole_sends rs" and "b_fwd b = Some (cnt + k, cnt)"
  shows "(b_step be)\<^sup>*\<^sup>* b (b\<lparr>b_fq := fq', b_fwd := Some (cnt + k, cnt + k), b_out := b_out b @ wire\<rparr>)"
  using assms
proof (induction k arbitrary: cnt b rs wire)
  case 0
  then have "b\<lparr>b_fq := fq', b_fwd := Some (cnt + 0, cnt + 0), b_out := b_out b @ wire\<rparr> = b" by simp
  then show ?case by simp
next
  case (Suc k)
  obtain raw w1 rs1 sent w2 where raw: "arr_get (fq_buffer (b_fq b)) cnt = Some raw" and blk: "send_block raw 0 rs = (Filled, w1, rs1)"
    and sent: "cint (fq_sent (b_fq b) + 1) = Some sent"
    and rest: "forward_from k (Suc cnt) ((b_fq b)\<lparr>fq_sent := sent\<rparr>) rs1 = Some (Filled, w2, fq', rs')" and wire: "wire = w1 @ w2"
    using Suc.prems(1) by (auto split: Option.bind_splits prod.splits if_splits)
  note one = send_block_one [OF Suc.prems(2) blk]
  let ?b = "b\<lparr>b_fq := (b_fq b)\<lparr>fq_sent := sent\<rparr>, b_fwd := Some (cnt + Suc k, Suc cnt), b_out := b_out b @ w1\<rparr>"
  have "b_work be b ?b"
    by (rule b_work.forward [OF Suc.prems(3) _ raw one [THEN conjunct1] sent]) simp
  moreover have "(b_step be)\<^sup>*\<^sup>* ?b (?b\<lparr>b_fq := fq', b_fwd := Some (Suc cnt + k, Suc cnt + k), b_out := b_out ?b @ w2\<rparr>)"
    using rest one [THEN conjunct2] by (intro Suc.IH) simp_all
  ultimately show ?case by (simp add: wire) (blast intro: rtranclp_trans work_run)
qed

lemma fwd_run:
  assumes q: "pl_pq (s_pl s) = Ref q" and room: "fill_room (s_fq s) (card (pool_items q (s_h s)))" and ws: "whole_sends rs"
    and round: "forward_round r 0 rs (s_pl s) (s_h s) (s_fq s) = Some (Returned (), wire, pl', h', fq')"
  shows "(b_step be)\<^sup>*\<^sup>* (b_between s) (b_between (s\<lparr>s_pl := pl', s_h := h', s_fq := fq', s_out := s_out s @ wire\<rparr>))"
proof -
  obtain n pq h1 fq1 where fill: "fill_queue r (Ref q) (s_h s) (s_fq s) = Some (n, pq, h1, fq1)"
    using round by (auto simp: forward_round_def forward_unlocked_def q split: Option.bind_splits)
  show ?thesis
  proof (cases "n = -1")
    case True
    then have "b_other (b_between s) ((b_between s)\<lparr>b_pl := (s_pl s)\<lparr>pl_pq := pq\<rparr>, b_h := h1, b_fq := fq1\<rparr>)"
      using b_other.idle [of "b_between s" q r pq h1 fq1] q room fill by simp
    moreover have "pl' = (s_pl s)\<lparr>pl_pq := pq\<rparr>" "h' = h1" "fq' = fq1" "wire = []"
      using round fill True by (auto simp: forward_round_def forward_unlocked_def q)
    ultimately show ?thesis by (auto simp: b_between_def intro!: other_run)
  next
    case False
    then have n: "1 \<le> n" using fill_queue_count [OF fill] by blast
    obtain fq2 rs' m where data: "forward_from (nat n) 0 fq1 rs = Some (Filled, wire, fq2, rs')"
      and min: "cint (pl_sent_min_seq (s_pl s) + n) = Some m"
      and res: "fq' = fq2\<lparr>fq_buffer := []\<rparr>" "h' = h1" "pl' = (s_pl s)\<lparr>pl_pq := pq, pl_sent_min_seq := m\<rparr>"
      using round fill False by (auto simp: forward_round_def forward_unlocked_def forward_data_def q Let_def split: Option.bind_splits if_splits)
    let ?b1 = "(b_between s)\<lparr>b_pl := (s_pl s)\<lparr>pl_pq := pq\<rparr>, b_h := h1, b_fq := fq1, b_fwd := Some (nat n, 0)\<rparr>"
    let ?b2 = "?b1\<lparr>b_fq := fq2, b_fwd := Some (nat n, nat n), b_out := b_out ?b1 @ wire\<rparr>"
    have "b_work be (b_between s) ?b1" using b_work.fill [of "b_between s" q r n pq h1 fq1] q room fill False by simp
    moreover have "(b_step be)\<^sup>*\<^sup>* ?b1 ?b2" using forward_run [of "nat n" 0 ?b1 rs wire fq2 rs' be] data ws by simp
    moreover have "b_work be ?b2 (?b2\<lparr>b_fq := (b_fq ?b2)\<lparr>fq_buffer := []\<rparr>, b_fwd := None, b_pl := (b_pl ?b2)\<lparr>pl_sent_min_seq := m\<rparr>\<rparr>)"
      by (rule b_work.forwarded [where pack_cnt = "nat n"]) (use min n in simp_all)
    moreover have "?b2\<lparr>b_fq := (b_fq ?b2)\<lparr>fq_buffer := []\<rparr>, b_fwd := None, b_pl := (b_pl ?b2)\<lparr>pl_sent_min_seq := m\<rparr>\<rparr> =
        b_between (s\<lparr>s_pl := pl', s_h := h', s_fq := fq', s_out := s_out s @ wire\<rparr>)"
      by (simp add: b_between_def res)
    ultimately show ?thesis by (rule run_between)
  qed
qed

section \<open>Whole sections as runs of single calls\<close>

lemma section_run: "sys_step be s s' \<Longrightarrow> (b_step be)\<^sup>*\<^sup>* (b_between s) (b_between s')"
proof (induction rule: sys_step.induct)
  case (split raw_buf recv_count s d buff')
  then have "b_other (b_between s) (b_between (s\<lparr>s_buff := buff'\<rparr>))"
    using b_other.split [of raw_buf recv_count "b_between s" d buff'] by (simp add: b_between_def)
  then show ?case by (rule other_run)
next
  case (fin s)
  show ?case using other_run [OF b_other.fin [of "b_between s"]] by (simp add: b_between_def)
qed (blast intro: tx_run rx_run fwd_run)+

text \<open>Every state the two proxies reach by whole critical sections, as the functions of the
  code run them, is reached by single calls of \<open>send\<close> and \<open>recv\<close> too, with the same buffer,
  connections, pool, forward queue and output.\<close>

lemma sections_run:
  assumes "(sys_step be)\<^sup>*\<^sup>* (sys_init sockfd) s"
  shows "\<exists>b. b_reach be sockfd b \<and> b_buff b = s_buff s \<and> b_chans b = s_chans s \<and> b_pl b = s_pl s \<and> b_h b = s_h s \<and>
    b_fq b = s_fq s \<and> b_out b = s_out s"
proof -
  from assms have "b_reach be sockfd (b_between s)"
    unfolding b_init_between by (induction rule: rtranclp_induct) (auto intro: rtranclp_trans section_run)
  then show ?thesis by (intro exI [of _ "b_between s"]) simp
qed

end
