(* ===== verification/Queue_Clients.thy ===== *)
theory Queue_Clients
  imports Queue_Interface PQueue_Frame
begin

text \<open>
  The queue for any client. \<open>pqueue.c\<close> reaches nodes only through the callbacks a client passes
  to \<open>pqueue_init\<close>. The locale \<open>node_callbacks\<close> states what they have to obey; for such
  callbacks every operation commutes with a view of the client's nodes as \<open>node_t\<close>, so that
  what \<open>PQueue_Correct\<close> shows carries over.
\<close>

section \<open>Views\<close>

definition node_view :: "('n \<Rightarrow> ulonglong) \<Rightarrow> ('n \<Rightarrow> nat) \<Rightarrow> ('n \<Rightarrow> byte arr) \<Rightarrow> 'n \<Rightarrow> node_t" where
  "node_view getpri getpos data n = \<lparr>n_pri = getpri n, n_raw_packet = data n, n_pos = getpos n\<rparr>"

definition heap_view :: "('n \<Rightarrow> ulonglong) \<Rightarrow> ('n \<Rightarrow> nat) \<Rightarrow> ('n \<Rightarrow> byte arr) \<Rightarrow> 'n nheap \<Rightarrow> node_t nheap" where
  "heap_view getpri getpos data h p = map_option (node_view getpri getpos data) (h p)"

definition queue_view :: "'n pqueue_t \<Rightarrow> node_t pqueue_t" where
  "queue_view q = \<lparr>q_size = q_size q, q_avail = q_avail q, q_step = q_step q, q_cmppri = q_cmppri q,
     q_getpri = get_pri, q_setpri = set_pri, q_getpos = get_pos, q_setpos = set_pos, q_d = q_d q\<rparr>"

lemma queue_view_simps [simp]:
  "q_size (queue_view q) = q_size q" "q_avail (queue_view q) = q_avail q" "q_step (queue_view q) = q_step q"
  "q_cmppri (queue_view q) = q_cmppri q" "q_d (queue_view q) = q_d q"
  "(queue_view q)\<lparr>q_d := d\<rparr> = queue_view (q\<lparr>q_d := d\<rparr>)" "(queue_view q)\<lparr>q_size := s\<rparr> = queue_view (q\<lparr>q_size := s\<rparr>)"
  "(queue_view q)\<lparr>q_avail := a\<rparr> = queue_view (q\<lparr>q_avail := a\<rparr>)"
  by (simp_all add: queue_view_def)

lemma map_ref_eq_Ref: "map_ref f r = Ref y \<Longrightarrow> \<exists>x. r = Ref x \<and> y = f x"
  by (cases r) auto

section \<open>A client\<close>

text \<open>Insertions one after the other, as the sample makes them; their results are ignored.\<close>

fun put_all :: "bool \<Rightarrow> 'n pqueue_t ref \<Rightarrow> 'n nheap \<Rightarrow> nptr list \<Rightarrow> ('n pqueue_t ref \<times> 'n nheap) option" where
  "put_all r qp h [] = Some (qp, h)"
| "put_all r qp h (p # ps) = do {
     (_, qp', h') \<leftarrow> pqueue_insert r qp h p;
     put_all r qp' h' ps
   }"

lemma put_all_allocated: "put_all r qp h ps = Some (qp', h') \<Longrightarrow> allocated h' = allocated h"
proof (induction ps arbitrary: qp h)
  case (Cons p ps)
  then obtain e qp1 h1 where "pqueue_insert r qp h p = Some (e, qp1, h1)" "put_all r qp1 h1 ps = Some (qp', h')"
    by (auto split: Option.bind_splits)
  with Cons.IH show ?case by (auto dest: pqueue_insert_frame)
qed simp

lemma print_loop_allocated: "print_loop qp h = Some (xs, h') \<Longrightarrow> allocated h' = allocated h"
proof (induction qp h arbitrary: xs rule: print_loop.induct)
  case (1 qp h)
  then obtain e qp1 h1 where pop: "pqueue_pop qp h = Some (e, qp1, h1)"
    by (subst (asm) (2) print_loop.simps) (auto split: Option.bind_splits)
  show ?case
  proof (cases e)
    case Null
    with "1.prems" pop show ?thesis by (subst (asm) print_loop.simps) (auto dest: pqueue_pop_frame)
  next
    case (Ref p)
    with "1.prems" pop obtain ps where "print_loop qp1 h1 = Some (ps, h')"
      by (subst (asm) print_loop.simps) (auto split: Option.bind_splits)
    from "1.IH" [OF pop refl refl Ref this] pqueue_pop_frame [OF pop] show ?thesis by simp
  qed
qed

section \<open>The contract of the callbacks\<close>

text \<open>Setting a field is seen by its getter and by nothing else, \<open>data\<close> being the rest of the node.\<close>

locale node_callbacks =
  fixes getpri :: "'n \<Rightarrow> ulonglong" and setpri :: "'n \<Rightarrow> ulonglong \<Rightarrow> 'n"
    and getpos :: "'n \<Rightarrow> nat" and setpos :: "'n \<Rightarrow> nat \<Rightarrow> 'n" and data :: "'n \<Rightarrow> byte arr"
  assumes getpri_setpri: "getpri (setpri n v) = v" and getpri_setpos: "getpri (setpos n i) = getpri n"
    and getpos_setpos: "getpos (setpos n i) = i" and getpos_setpri: "getpos (setpri n v) = getpos n"
    and data_setpri: "data (setpri n v) = data n" and data_setpos: "data (setpos n i) = data n"
begin

abbreviation view :: "'n nheap \<Rightarrow> node_t nheap" where
  "view \<equiv> heap_view getpri getpos data"

definition uses :: "'n pqueue_t \<Rightarrow> bool" where
  "uses q \<longleftrightarrow> q_getpri q = getpri \<and> q_setpri q = setpri \<and> q_getpos q = getpos \<and> q_setpos q = setpos"

lemma uses_fixed: "fixed q' = fixed q \<Longrightarrow> uses q \<Longrightarrow> uses q'"
  by (simp add: uses_def fixed_def)

lemma uses_upd [simp]: "uses (q\<lparr>q_d := d\<rparr>) = uses q" "uses (q\<lparr>q_size := s\<rparr>) = uses q" "uses (q\<lparr>q_avail := a\<rparr>) = uses q"
  by (simp_all add: uses_def)

lemma call_getpri_view [simp]: "uses q \<Longrightarrow> call_getpri (queue_view q) (view h) p = call_getpri q h p"
  by (cases "h p") (simp_all add: call_getpri_def uses_def queue_view_def heap_view_def node_view_def get_pri_def)

lemma call_getpos_view [simp]: "uses q \<Longrightarrow> call_getpos (queue_view q) (view h) p = call_getpos q h p"
  by (cases "h p") (simp_all add: call_getpos_def uses_def queue_view_def heap_view_def node_view_def get_pos_def)

lemma call_setpos_view [simp]:
  "uses q \<Longrightarrow> call_setpos (queue_view q) (view h) p i = map_option view (call_setpos q h p i)"
  by (cases "h p") (auto simp: call_setpos_def uses_def queue_view_def heap_view_def node_view_def set_pos_def
      getpri_setpos getpos_setpos data_setpos fun_eq_iff)

lemma call_setpri_view [simp]:
  "uses q \<Longrightarrow> call_setpri (queue_view q) (view h) p v = map_option view (call_setpri q h p v)"
  by (cases "h p") (auto simp: call_setpri_def uses_def queue_view_def heap_view_def node_view_def set_pri_def
      getpri_setpri getpos_setpri data_setpri fun_eq_iff)

lemma maxchild_view [simp]: "uses q \<Longrightarrow> maxchild (queue_view q) (view h) i = maxchild q h i"
  by (simp add: maxchild_def Let_def)

text \<open>Every operation commutes with the view.\<close>

lemma bubble_up_loop_view:
  "uses q \<Longrightarrow> bubble_up_loop (queue_view q) (view h) m i =
    map_option (\<lambda>(q', h', k). (queue_view q', view h', k)) (bubble_up_loop q h m i)"
proof (induction q h m i rule: bubble_up_loop.induct)
  case (1 q h m i)
  then show ?case
    by (subst (1 2) bubble_up_loop.simps) (auto split: option.splits Option.bind_splits simp del: One_nat_def)
qed

lemma percolate_down_loop_view:
  "uses q \<Longrightarrow> percolate_down_loop (queue_view q) (view h) m i =
    map_option (\<lambda>(q', h', k). (queue_view q', view h', k)) (percolate_down_loop q h m i)"
proof (induction q h m i rule: percolate_down_loop.induct)
  case (1 q h m i)
  then show ?case
    by (subst (1 2) percolate_down_loop.simps) (auto split: option.splits Option.bind_splits simp del: One_nat_def)
qed

lemma bubble_up_view:
  "uses q \<Longrightarrow> bubble_up (queue_view q) (view h) i = map_option (map_prod queue_view view) (bubble_up q h i)"
  by (auto simp: bubble_up_def bubble_up_loop_view split: Option.bind_splits option.splits
      dest!: bubble_up_loop_frame [THEN conjunct2] dest: uses_fixed)

lemma percolate_down_view:
  "uses q \<Longrightarrow> percolate_down (queue_view q) (view h) i = map_option (map_prod queue_view view) (percolate_down q h i)"
  by (auto simp: percolate_down_def percolate_down_loop_view split: Option.bind_splits option.splits
      dest!: percolate_down_loop_frame [THEN conjunct2] dest: uses_fixed)

lemma pqueue_insert_view:
  "uses q \<Longrightarrow> pqueue_insert r (Ref (queue_view q)) (view h) p =
    map_option (\<lambda>(e, qp, h'). (e, map_ref queue_view qp, view h')) (pqueue_insert r (Ref q) h p)"
  by (auto simp: pqueue_insert_def Let_def bubble_up_view split: Option.bind_splits option.splits)

lemma pqueue_pop_view:
  "uses q \<Longrightarrow> pqueue_pop (Ref (queue_view q)) (view h) =
    map_option (\<lambda>(e, qp, h'). (e, map_ref queue_view qp, view h')) (pqueue_pop (Ref q) h)"
  by (auto simp: pqueue_pop_def Let_def percolate_down_view split: Option.bind_splits option.splits)

lemma pqueue_remove_view:
  "uses q \<Longrightarrow> pqueue_remove (queue_view q) (view h) p =
    map_option (\<lambda>(e, q', h'). (e, queue_view q', view h')) (pqueue_remove q h p)"
  by (auto simp: pqueue_remove_def Let_def bubble_up_view percolate_down_view split: Option.bind_splits option.splits)

lemma pqueue_change_priority_view:
  "uses q \<Longrightarrow> pqueue_change_priority (queue_view q) (view h) v p =
    map_option (map_prod queue_view view) (pqueue_change_priority q h v p)"
  by (auto simp: pqueue_change_priority_def bubble_up_view percolate_down_view split: Option.bind_splits option.splits)

lemma print_loop_view:
  "uses q \<Longrightarrow> print_loop (Ref (queue_view q)) (view h) = map_option (map_prod id view) (print_loop (Ref q) h)"
proof (induction "Ref q" h arbitrary: q rule: print_loop.induct)
  case (1 h)
  show ?case
  proof (cases "pqueue_pop (Ref q) h")
    case None
    then show ?thesis by (simp add: print_loop.simps pqueue_pop_view [OF 1(2)])
  next
    case (Some r)
    obtain e qp h' where r: "r = (e, qp, h')" by (cases r)
    show ?thesis
    proof (cases e)
      case Null
      then show ?thesis using Some r by (simp add: print_loop.simps [of "Ref _"] pqueue_pop_view [OF 1(2)])
    next
      case (Ref p)
      with Some r obtain q' where q': "qp = Ref q'" using pqueue_pop_Ref [of "Ref q" h p qp h'] by auto
      have "uses q'" using pqueue_pop_frame [of "Ref q" h e qp h'] Some r q' 1(2) by (auto dest: uses_fixed)
      then have "print_loop (Ref (queue_view q')) (view h') = map_option (map_prod id view) (print_loop (Ref q') h')"
        using 1(1) [OF Some, of e "(qp, h')" q' h' p] unfolding r q' Ref by simp
      with Some r Ref q' show ?thesis
        by (subst (1 2) print_loop.simps) (auto simp: pqueue_pop_view [OF 1(2)] split: option.splits Option.bind_splits)
    qed
  qed
qed

text \<open>Inserting distinct nodes that are not in the queue adds them all.\<close>

lemma put_all_correct:
  assumes "uses q" and "pq_valid (queue_view q) (view h)" and "distinct ps" and "set ps \<inter> pq_ptrs (queue_view q) = {}"
    and "set ps \<subseteq> dom h" and "q_size q + length ps + q_step q < 2 ^ 61"
  shows "\<exists>q' h'. put_all True (Ref q) h ps = Some (Ref q', h') \<and> uses q' \<and> pq_valid (queue_view q') (view h') \<and>
    pq_ptrs (queue_view q') = pq_ptrs (queue_view q) \<union> set ps \<and> same_nodes (view h) (view h') \<and> q_cmppri q' = q_cmppri q"
  using assms
proof (induction ps arbitrary: q h)
  case (Cons p ps)
  have room: "pq_room True (queue_view q)" using Cons.prems(6) by (simp add: pq_room_def)
  obtain n where n: "h p = Some n" using Cons.prems(5) by auto
  then have "view h p = Some (node_view getpri getpos data n)" by (simp add: heap_view_def)
  from pqueue_insert_correct [OF Cons.prems(2) this _ room] Cons.prems(4)
  obtain v h1 where ins: "pqueue_insert True (Ref (queue_view q)) (view h) p = Some (0, Ref v, h1)" and v: "pq_valid v h1"
      "pq_ptrs v = insert p (pq_ptrs (queue_view q))" "q_size v = Suc (q_size q)" "same_nodes (view h) h1" "same_config (queue_view q) v"
    by auto
  then obtain q1 h' where q1: "pqueue_insert True (Ref q) h p = Some (0, Ref q1, h')" and eq: "v = queue_view q1" "h1 = view h'"
    by (auto simp: pqueue_insert_view [OF Cons.prems(1)] dest!: map_ref_eq_Ref)
  have dom: "dom h' = dom h" and u: "uses q1"
    using pqueue_insert_frame [OF q1] Cons.prems(1) by (auto simp: allocated_def dest: uses_fixed)
  have "\<exists>q' h''. put_all True (Ref q1) h' ps = Some (Ref q', h'') \<and> uses q' \<and> pq_valid (queue_view q') (view h'') \<and>
    pq_ptrs (queue_view q') = pq_ptrs (queue_view q1) \<union> set ps \<and> same_nodes (view h') (view h'') \<and> q_cmppri q' = q_cmppri q1"
    using Cons.prems v by (intro Cons.IH u) (auto simp: eq dom same_config_def)
  with q1 v show ?case by (auto simp: eq same_config_def intro: same_nodes_trans)
qed simp

text \<open>Popping until the queue is empty returns all nodes, in order.\<close>

lemma print_loop_sorts:
  assumes "uses q" and "pq_valid (queue_view q) (view h)"
  shows "\<exists>xs h'. print_loop (Ref q) h = Some (xs, h') \<and> set xs = pq_ptrs (queue_view q) \<and> distinct xs \<and>
    sorted_wrt (\<lambda>x y. \<not> q_cmppri q (prio (view h) x) (prio (view h) y)) xs \<and>
    prio (view h') = prio (view h) \<and> node_raw (view h') = node_raw (view h)"
proof -
  have "pq_ok (q_cmppri q) (queue_view q, view h)" using assms(2) by (simp add: pq_ok_def)
  from pq.drain_sorted [OF this] obtain xs s' where xs: "drains pq_pop (queue_view q, view h) xs s'"
    "set xs = pq_ptrs (queue_view q)" "distinct xs" "prio (snd s') = prio (view h)" "node_raw (snd s') = node_raw (view h)"
    "sorted_wrt (\<lambda>x y. \<not> q_cmppri q (prio (view h) x) (prio (view h) y)) xs" by auto
  from print_loop_drains [OF xs(1)] have "print_loop (Ref (queue_view q)) (view h) = Some (xs, snd s')" by simp
  with xs show ?thesis by (auto simp: print_loop_view [OF assms(1)])
qed

text \<open>Both together, from an empty queue.\<close>

lemma put_print_sorts:
  assumes cmp: "pri_order cmp" and ps: "distinct ps" "set ps \<subseteq> dom h" and n: "n + length ps + n + 2 < 2 ^ 61"
  shows "\<exists>qp h1 xs h2. put_all True (pqueue_init True True n cmp getpri setpri getpos setpos) h ps = Some (qp, h1) \<and>
    print_loop qp h1 = Some (xs, h2) \<and> distinct xs \<and> set xs = set ps \<and>
    sorted_wrt (\<lambda>x y. \<not> cmp (prio (view h) x) (prio (view h) y)) xs \<and>
    dom h2 = dom h \<and> prio (view h2) = prio (view h) \<and> node_raw (view h2) = node_raw (view h)"
proof -
  define q where "q = the_ref (pqueue_init True True n cmp getpri setpri getpos setpos)"
  have init: "pqueue_init True True n cmp getpri setpri getpos setpos = Ref q" by (simp add: q_def pqueue_init_def)
  have std: "pqueue_init True True n cmp get_pri set_pri get_pos set_pos = Ref (queue_view q)"
    by (simp add: q_def pqueue_init_def queue_view_def)
  have v: "pq_valid (queue_view q) (view h)" "pq_ptrs (queue_view q) = {}" and s: "q_size q = 1" "q_step q = n + 1" "q_cmppri q = cmp"
    using pqueue_init_correct [OF cmp _ std] n by auto
  have u: "uses q" by (simp add: uses_def q_def pqueue_init_def)
  obtain q1 h1 where put: "put_all True (Ref q) h ps = Some (Ref q1, h1)" and u1: "uses q1"
    and v1: "pq_valid (queue_view q1) (view h1)" "pq_ptrs (queue_view q1) = set ps" "same_nodes (view h) (view h1)" "q_cmppri q1 = cmp"
    using put_all_correct [OF u v(1) ps(1) _ ps(2)] v(2) s n by auto
  obtain xs h2 where loop: "print_loop (Ref q1) h1 = Some (xs, h2)" and xs: "set xs = set ps" "distinct xs"
      "sorted_wrt (\<lambda>x y. \<not> cmp (prio (view h1) x) (prio (view h1) y)) xs"
      "prio (view h2) = prio (view h1)" "node_raw (view h2) = node_raw (view h1)"
    using print_loop_sorts [OF u1 v1(1)] v1 by auto
  have "dom h2 = dom h" using put_all_allocated [OF put] print_loop_allocated [OF loop] by (simp add: allocated_def)
  with init put loop xs same_nodes_prio_fun [OF v1(3)] same_nodes_raw [OF v1(3)] show ?thesis by auto
qed

end

interpretation std: node_callbacks get_pri set_pri get_pos set_pos n_raw_packet
  by unfold_locales (simp_all add: get_pri_def set_pri_def get_pos_def set_pos_def)

section \<open>Sorting with the queue\<close>

lemma view_facts: "h p = Some n \<Longrightarrow> prio (heap_view getpri getpos data h) p = getpri n \<and> node_raw (heap_view getpri getpos data h) p = data n"
  by (simp add: prio_def node_raw_def heap_view_def node_view_def)

text \<open>C25: for every client whose callbacks read back what they set, and every comparison that
  is a strict weak order, inserting nodes into a new queue and popping until it is empty
  returns each of them once, in order, and changes neither their priorities nor what else
  they hold.\<close>

theorem client_sorts:
  assumes "node_callbacks getpri setpri getpos setpos data" and "pri_order cmp"
    and "distinct ps" and "set ps \<subseteq> dom h" and "n + length ps + n + 2 < 2 ^ 61"
  shows "\<exists>qp h1 xs h2. put_all True (pqueue_init True True n cmp getpri setpri getpos setpos) h ps = Some (qp, h1) \<and>
    print_loop qp h1 = Some (xs, h2) \<and> distinct xs \<and> set xs = set ps \<and>
    sorted_wrt (\<lambda>x y. \<not> cmp (getpri (the (h x))) (getpri (the (h y)))) xs \<and>
    (\<forall>p. map_option (\<lambda>n. (getpri n, data n)) (h2 p) = map_option (\<lambda>n. (getpri n, data n)) (h p))"
proof -
  let ?view = "heap_view getpri getpos data"
  from node_callbacks.put_print_sorts [OF assms] obtain qp h1 xs h2
    where put: "put_all True (pqueue_init True True n cmp getpri setpri getpos setpos) h ps = Some (qp, h1)"
      and loop: "print_loop qp h1 = Some (xs, h2)" and xs: "distinct xs" "set xs = set ps"
      and sorted: "sorted_wrt (\<lambda>x y. \<not> cmp (prio (?view h) x) (prio (?view h) y)) xs"
      and same: "dom h2 = dom h" "prio (?view h2) = prio (?view h)" "node_raw (?view h2) = node_raw (?view h)" by blast
  have "prio (?view h) x = getpri (the (h x))" if "x \<in> set xs" for x
    using that xs(2) assms(4) view_facts [of h x "the (h x)" getpri getpos data] by auto
  with sorted have "sorted_wrt (\<lambda>x y. \<not> cmp (getpri (the (h x))) (getpri (the (h y)))) xs"
    by (elim sorted_wrt_mono_rel [rotated]) simp
  moreover have "map_option (\<lambda>n. (getpri n, data n)) (h2 p) = map_option (\<lambda>n. (getpri n, data n)) (h p)" for p
  proof (cases "h p")
    case None
    with same(1) show ?thesis by auto
  next
    case (Some m)
    with same(1) obtain m2 where "h2 p = Some m2" by blast
    with Some view_facts [of h p m getpri getpos data] view_facts [of h2 p m2 getpri getpos data] same(2,3) show ?thesis by simp
  qed
  ultimately show ?thesis using put loop xs by blast
qed

end
