(* ===== verification/Indeterminate.thy ===== *)
theory Indeterminate
  imports Queue_Clients Proxy_Progress
begin

text \<open>
  Payloads with bytes that were never written. The receiver proxy decides nothing by the
  payload of a packet, so it does the same with a packet that lacks some payload bytes as with
  the complete one: its queue, counters and calls are equal, and what it stores and writes
  agrees in every byte that is not indeterminate.
\<close>

section \<open>Related values\<close>

text \<open>Every byte of the first array is indeterminate or the byte of the second.\<close>

definition agrees :: "byte arr \<Rightarrow> byte arr \<Rightarrow> bool" where
  "agrees xs ys \<longleftrightarrow> list_all2 (\<lambda>x y. x = None \<or> x = y) xs ys"

lemma agrees_refl [simp, intro]: "agrees xs xs"
  by (simp add: agrees_def list.rel_refl)

lemma agrees_append: "agrees xs ys \<Longrightarrow> agrees xs' ys' \<Longrightarrow> agrees (xs @ xs') (ys @ ys')"
  by (simp add: agrees_def list_all2_appendI)

lemma agrees_take: "agrees xs ys \<Longrightarrow> agrees (take n xs) (take n ys)"
  by (simp add: agrees_def list_all2_takeI)

lemma agrees_drop: "agrees xs ys \<Longrightarrow> agrees (drop n xs) (drop n ys)"
  by (simp add: agrees_def list_all2_dropI)

lemma agrees_cut: "k \<le> length ys \<Longrightarrow> agrees (take k ys @ arr_new (length ys - k)) ys"
  by (auto simp: agrees_def list_all2_conv_all_nth arr_new_def nth_append)

text \<open>Stores that differ in payloads only, and there in indeterminate bytes.\<close>

interpretation bare: node_callbacks get_pri set_pri get_pos set_pos "\<lambda>_. []"
  by unfold_locales (simp_all add: get_pri_def set_pri_def get_pos_def set_pos_def)

definition heap_agrees :: "node_t nheap \<Rightarrow> node_t nheap \<Rightarrow> bool" where
  "heap_agrees h g \<longleftrightarrow> bare.view h = bare.view g \<and> (\<forall>p. agrees (node_raw h p) (node_raw g p))"

text \<open>The forward queue: the same fields, and slots that agree.\<close>

definition fq_agrees :: "fqueue_t \<Rightarrow> fqueue_t \<Rightarrow> bool" where
  "fq_agrees fq fg \<longleftrightarrow> fg = fq\<lparr>fq_buffer := fq_buffer fg\<rparr> \<and> list_all2 (rel_option agrees) (fq_buffer fq) (fq_buffer fg)"

section \<open>The queue\<close>

lemma bare_lookup: "bare.view h = bare.view g \<Longrightarrow> h p = Some n \<Longrightarrow> \<exists>m. g p = Some m \<and> n_pri m = n_pri n \<and> n_pos m = n_pos n"
  by (drule fun_cong [of _ _ p], cases "g p") (auto simp: heap_view_def node_view_def get_pri_def get_pos_def)

lemma bare_None: "bare.view h = bare.view g \<Longrightarrow> h p = None \<longleftrightarrow> g p = None"
  by (drule fun_cong [of _ _ p]) (auto simp: heap_view_def)

lemma bare_prio: "bare.view h = bare.view g \<Longrightarrow> prio h = prio g"
proof
  fix p assume v: "bare.view h = bare.view g"
  show "prio h p = prio g p"
    by (cases "h p") (use bare_lookup [OF v, of p] bare_None [OF v, of p] in \<open>auto simp: prio_def\<close>)
qed

lemma bare_slot_ok: "bare.view h = bare.view g \<Longrightarrow> slot_ok q h j \<Longrightarrow> slot_ok q g j"
  by (auto simp: slot_ok_def dest: bare_lookup)

lemma bare_valid: "bare.view h = bare.view g \<Longrightarrow> pq_valid q h \<longleftrightarrow> pq_valid q g"
  using bare_slot_ok [of h g q] bare_slot_ok [of g h q]
  by (auto simp: pq_valid_def pq_inv_def pq_order_def bare_prio [of h g])

lemma bare_rx_queue: "bare.view h = bare.view g \<Longrightarrow> rx_queue q h \<longleftrightarrow> rx_queue q g"
  by (simp add: rx_queue_def pq_ok_def bare_valid [of h g] bare_prio [of h g])

lemma rx_queue_bare: "rx_queue q h \<Longrightarrow> bare.uses q"
  by (simp add: rx_queue_def pq_ok_def pq_valid_def pq_inv_def pq_shape_def std_callbacks_def bare.uses_def)

lemma heap_agrees_same:
  assumes "heap_agrees h g" and "same_nodes h h1" and "same_nodes g g1" and "bare.view h1 = bare.view g1"
  shows "heap_agrees h1 g1"
  using assms by (simp add: heap_agrees_def same_nodes_raw)

text \<open>A queue is determined by its view and the fields that operations do not change.\<close>

lemma queue_view_inj: "fixed q = fixed q' \<Longrightarrow> queue_view q = queue_view q' \<Longrightarrow> q = q'"
  by (cases q; cases q') (simp add: fixed_def queue_view_def)

lemma ref_view_inj:
  "map_ref fixed qp = map_ref fixed qp' \<Longrightarrow> map_ref queue_view qp = map_ref queue_view qp' \<Longrightarrow> qp = qp'"
  by (cases qp; cases qp') (auto intro: queue_view_inj)

lemma pop_bare:
  assumes "bare.view h = bare.view g" and "bare.uses q" and "pqueue_pop (Ref q) h = Some (e, qp, h1)"
  shows "\<exists>g1. pqueue_pop (Ref q) g = Some (e, qp, g1) \<and> bare.view h1 = bare.view g1"
proof -
  have "map_option (\<lambda>(e, qp, h'). (e, map_ref queue_view qp, bare.view h')) (pqueue_pop (Ref q) g) =
      map_option (\<lambda>(e, qp, h'). (e, map_ref queue_view qp, bare.view h')) (pqueue_pop (Ref q) h)"
    by (simp only: bare.pqueue_pop_view [OF assms(2), symmetric] assms(1))
  then obtain qp' g1 where g1: "pqueue_pop (Ref q) g = Some (e, qp', g1)" "map_ref queue_view qp' = map_ref queue_view qp"
    "bare.view g1 = bare.view h1" unfolding assms(3) by auto
  moreover have "qp' = qp"
    by (rule ref_view_inj [OF _ g1(2)]) (simp only: pqueue_pop_frame [OF g1(1)] pqueue_pop_frame [OF assms(3)])
  ultimately show ?thesis by auto
qed

lemma insert_bare:
  assumes "bare.view h = bare.view g" and "bare.uses q" and "pqueue_insert r (Ref q) h p = Some (e, qp, h1)"
  shows "\<exists>g1. pqueue_insert r (Ref q) g p = Some (e, qp, g1) \<and> bare.view h1 = bare.view g1"
proof -
  have "map_option (\<lambda>(e, qp, h'). (e, map_ref queue_view qp, bare.view h')) (pqueue_insert r (Ref q) g p) =
      map_option (\<lambda>(e, qp, h'). (e, map_ref queue_view qp, bare.view h')) (pqueue_insert r (Ref q) h p)"
    by (simp only: bare.pqueue_insert_view [OF assms(2), symmetric] assms(1))
  then obtain qp' g1 where g1: "pqueue_insert r (Ref q) g p = Some (e, qp', g1)" "map_ref queue_view qp' = map_ref queue_view qp"
    "bare.view g1 = bare.view h1" unfolding assms(3) by auto
  moreover have "qp' = qp"
    by (rule ref_view_inj [OF _ g1(2)]) (simp only: pqueue_insert_frame [OF g1(1)] pqueue_insert_frame [OF assms(3)])
  ultimately show ?thesis by auto
qed

text \<open>Inserting changes positions at most, also when there is no room and no memory.\<close>

lemma insert_same_nodes:
  assumes "pq_valid q h" and "h p \<noteq> None" and "p \<notin> pq_ptrs q" and "\<not> r \<or> pq_room r q"
    and "pqueue_insert r (Ref q) h p = Some (e, qp, h1)"
  shows "same_nodes h h1"
proof (cases "pq_room r q")
  case True
  then show ?thesis using pqueue_insert_correct [OF assms(1) _ assms(3) True] assms(2,5) by fastforce
next
  case False
  then show ?thesis using assms(4,5) by (auto simp: pqueue_insert_def pq_room_def)
qed

lemma insert_agrees:
  assumes ag: "heap_agrees h g" and v: "pq_valid q g" and p: "g p \<noteq> None" "p \<notin> pq_ptrs q" and room: "\<not> r \<or> pq_room r q"
    and ins: "pqueue_insert r (Ref q) h p = Some (e, qp, h1)"
  shows "\<exists>g1. pqueue_insert r (Ref q) g p = Some (e, qp, g1) \<and> heap_agrees h1 g1"
proof -
  have vw: "bare.view h = bare.view g" using ag by (simp add: heap_agrees_def)
  have "bare.uses q" using v by (simp add: pq_valid_def pq_inv_def pq_shape_def std_callbacks_def bare.uses_def)
  from insert_bare [OF vw this ins] obtain g1 where g1: "pqueue_insert r (Ref q) g p = Some (e, qp, g1)" "bare.view h1 = bare.view g1"
    by blast
  have "same_nodes g g1" using insert_same_nodes [OF v p room g1(1)] .
  moreover have "same_nodes h h1"
    using insert_same_nodes [OF _ _ p(2) room ins] v p(1) bare_valid [OF vw] bare_None [OF vw] by simp
  ultimately show ?thesis using heap_agrees_same [OF ag] g1 by blast
qed

text \<open>A node in both stores.\<close>

lemma node_agrees:
  assumes "heap_agrees h g" and "h p = Some n"
  obtains m where "g p = Some m" and "n_pri m = n_pri n" and "agrees (n_raw_packet n) (n_raw_packet m)"
proof -
  from assms obtain m where m: "g p = Some m" "n_pri m = n_pri n" using bare_lookup [of h g p n] by (auto simp: heap_agrees_def)
  moreover have "agrees (node_raw h p) (node_raw g p)" using assms(1) by (simp add: heap_agrees_def)
  ultimately show thesis using assms(2) by (intro that) (simp_all add: node_raw_def)
qed

lemma pop_agrees:
  assumes ag: "heap_agrees h g" and rx: "rx_queue q g" and pop: "pqueue_pop (Ref q) h = Some (e, qp, h1)"
  obtains (empty) "e = Null" and "qp = Ref q" and "h1 = h" and "pqueue_pop (Ref q) g = Some (Null, Ref q, g)"
  | (node) p q1 g1 nd md where "e = Ref p" and "qp = Ref q1" and "pqueue_pop (Ref q) g = Some (Ref p, Ref q1, g1)"
      and "heap_agrees h1 g1" and "rx_queue q1 g1" and "q_size q1 < q_avail q1" and "p \<notin> pq_ptrs q1"
      and "h1 p = Some nd" and "g1 p = Some md" and "n_pri md = n_pri nd" and "agrees (n_raw_packet nd) (n_raw_packet md)"
proof -
  have vw: "bare.view h = bare.view g" using ag by (simp add: heap_agrees_def)
  have rxh: "rx_queue q h" using rx bare_rx_queue [OF vw] by simp
  have empty: "pool_items q h = {} \<longleftrightarrow> pool_items q g = {}" by (simp add: pool_items_def)
  obtain g1 where g1: "pqueue_pop (Ref q) g = Some (e, qp, g1)" "bare.view h1 = bare.view g1"
    using pop_bare [OF vw rx_queue_bare [OF rx] pop] by blast
  show thesis
  proof (cases "pool_items q g = {}")
    case True
    then show ?thesis using rx_pop_empty [OF rx] rx_pop_empty [OF rxh] empty pop by (intro that(1)) simp_all
  next
    case False
    obtain p q1 g2 where t: "pqueue_pop (Ref q) g = Some (Ref p, Ref q1, g2)" "rx_queue q1 g2" "same_nodes g g2"
      "q_size q1 < q_avail q1" "g2 p \<noteq> None" "prio g p \<notin> prio g ` pq_ptrs q1" by (rule rx_pop [OF rx False])
    obtain p' q1' h2 where s: "pqueue_pop (Ref q) h = Some (Ref p', Ref q1', h2)" "same_nodes h h2"
      by (rule rx_pop [OF rxh]) (use False empty in auto)
    have ag1: "heap_agrees h1 g1" using heap_agrees_same [OF ag _ _ g1(2)] s t g1(1) pop by auto
    obtain nd where nd: "h1 p = Some nd" using t(1,5) g1 bare_None [OF g1(2), of p] by auto
    obtain md where "g1 p = Some md" "n_pri md = n_pri nd" "agrees (n_raw_packet nd) (n_raw_packet md)"
      by (rule node_agrees [OF ag1 nd])
    then show ?thesis using t g1(1) ag1 nd by (intro that(2) [of p q1 g1 nd md]) auto
  qed
qed

section \<open>The forwarding thread\<close>

lemma fq_agrees_fields:
  assumes "fq_agrees fq fg"
  shows "fq_byte_count fg = fq_byte_count fq" and "fq_byte_capacity fg = fq_byte_capacity fq" and "fq_sent fg = fq_sent fq"
    and "length (fq_buffer fg) = length (fq_buffer fq)"
  using assms unfolding fq_agrees_def
  by (metis fqueue_t.select_convs(2-6) fqueue_t.surjective fqueue_t.update_convs(1) list_all2_lengthD)+

lemma fq_agrees_buffer:
  assumes "fq_agrees fq fg" and "list_all2 (rel_option agrees) buf buf'"
  shows "fq_agrees (fq\<lparr>fq_buffer := buf\<rparr>) (fg\<lparr>fq_buffer := buf'\<rparr>)"
  using assms by (cases fq; cases fg) (simp add: fq_agrees_def)

lemma fq_agrees_upd:
  assumes "fq_agrees fq fg"
  shows "fq_agrees (fq\<lparr>fq_byte_count := b\<rparr>) (fg\<lparr>fq_byte_count := b\<rparr>)"
    and "fq_agrees (fq\<lparr>fq_byte_capacity := b\<rparr>) (fg\<lparr>fq_byte_capacity := b\<rparr>)"
    and "fq_agrees (fq\<lparr>fq_sent := k\<rparr>) (fg\<lparr>fq_sent := k\<rparr>)"
  using assms by (cases fq; cases fg; simp add: fq_agrees_def)+

lemma slots_set:
  assumes "list_all2 (rel_option agrees) buf buf'" and "agrees x y" and "arr_set buf i x = Some buf1"
  shows "\<exists>buf1'. arr_set buf' i y = Some buf1' \<and> list_all2 (rel_option agrees) buf1 buf1'"
  using assms by (auto simp: arr_set_def list_all2_lengthD intro!: list_all2_update_cong split: if_splits)

lemma slots_get:
  assumes "list_all2 (rel_option agrees) buf buf'" and "arr_get buf i = Some x"
  shows "\<exists>y. arr_get buf' i = Some y \<and> agrees x y"
  using assms list_all2_nthD [OF assms(1), of i]
  by (auto simp: arr_get_def list_all2_lengthD option_rel_Some1 split: if_splits)

lemma slots_realloc:
  assumes "list_all2 (rel_option agrees) buf buf'"
  shows "list_all2 (rel_option agrees) (arr_realloc buf n) (arr_realloc buf' n)"
  unfolding arr_realloc_def list_all2_lengthD [OF assms]
  by (rule list_all2_appendI) (use assms in \<open>simp_all add: list_all2_takeI list_all2_conv_all_nth\<close>)

lemma fill_extend_agrees:
  assumes "fq_agrees fq fg" and "fill_extend fq = Some fq1"
  shows "\<exists>fg1. fill_extend fg = Some fg1 \<and> fq_agrees fq1 fg1"
proof -
  have ag: "fq_agrees (fq\<lparr>fq_byte_capacity := c, fq_buffer := arr_realloc (fq_buffer fq) n\<rparr>)
      (fg\<lparr>fq_byte_capacity := c, fq_buffer := arr_realloc (fq_buffer fg) n\<rparr>)" for c n
    using assms(1) by (intro fq_agrees_buffer fq_agrees_upd slots_realloc) (simp_all add: fq_agrees_def)
  from assms(2) show ?thesis
    using assms(1) ag by (auto simp: fill_extend_def fq_agrees_fields [OF assms(1)] split: Option.bind_splits if_splits)
qed

lemma put_back_agrees:
  assumes "heap_agrees h g" and "rx_queue q g" and "q_size q < q_avail q" and "g p \<noteq> None" and "p \<notin> pq_ptrs q"
    and "pqueue_insert r (Ref q) h p = Some (e, qp, h1)"
  shows "\<exists>g1. pqueue_insert r (Ref q) g p = Some (e, qp, g1) \<and> heap_agrees h1 g1"
  using assms(2-5) by (intro insert_agrees [OF assms(1) _ _ _ _ assms(6)]) (simp_all add: rx_queue_def pq_ok_def pq_room_def)

lemma fill_loop_agrees:
  assumes "fill_loop r (Ref q) h fq c = Some (n, qp, h', fq')" and "heap_agrees h g" and "rx_queue q g" and "fq_agrees fq fg"
  shows "\<exists>g' fg'. fill_loop r (Ref q) g fg c = Some (n, qp, g', fg') \<and> heap_agrees h' g' \<and> fq_agrees fq' fg'"
  using assms
proof (induction "pop_rank (Ref q)" arbitrary: q h g fq fg c rule: less_induct)
  case less
  note ag = less.prems(2) and rx = less.prems(3) and fq = less.prems(4)
  obtain e qp1 h1 fq1 where pop: "pqueue_pop (Ref q) h = Some (e, qp1, h1)" and ext: "fill_extend fq = Some fq1"
    using less.prems(1) by (subst (asm) fill_loop.simps) (auto split: Option.bind_splits)
  obtain fg1 where extg: "fill_extend fg = Some fg1" and fq1: "fq_agrees fq1 fg1" using fill_extend_agrees [OF fq ext] by blast
  note step = fill_loop.simps [of r "Ref q"] and fields = fq_agrees_fields [OF fq1]
  from ag rx pop show ?case
  proof (cases rule: pop_agrees)
    case empty
    then show ?thesis using less.prems(1) pop ext extg ag fq1 by (auto simp: step)
  next
    case (node p q1 g1 nd md)
    note nd = node(8) and md = node(9-11)
    have rng: "int_range (fq_sent fq1 + c)" "int_range (fq_sent fq1 + c + 1)"
      using less.prems(1) pop ext nd unfolding node(1,2)
      by (auto simp: step cint_eq_Some_iff split: Option.bind_splits)
    show ?thesis
    proof (cases "pri_int (n_pri nd) = fq_sent fq1 + c + 1")
      case True
      then obtain buf where set: "arr_set (fq_buffer fq1) (nat c) (n_raw_packet nd) = Some buf"
        and cnt: "int_range (c + 1)" "int_range (fq_byte_count fq1 + 8)"
        and loop: "fill_loop r (Ref q1) h1 (fq1\<lparr>fq_buffer := buf, fq_byte_count := fq_byte_count fq1 + 8\<rparr>) (c + 1) = Some (n, qp, h', fq')"
        using less.prems(1) pop ext nd unfolding node(1,2)
        by (auto simp: step cint_eq_Some_iff split: Option.bind_splits)
      obtain buf' where set': "arr_set (fq_buffer fg1) (nat c) (n_raw_packet md) = Some buf'"
        and slots: "list_all2 (rel_option agrees) buf buf'"
        using slots_set [OF _ md(3) set, of "fq_buffer fg1"] fq1 by (auto simp: fq_agrees_def)
      have rank: "pop_rank (Ref q1) < pop_rank (Ref q)" using pqueue_pop_rank [of "Ref q" h p "Ref q1" h1] pop node(1,2) by simp
      have "fq_agrees (fq1\<lparr>fq_buffer := buf, fq_byte_count := fq_byte_count fq1 + 8\<rparr>)
          (fg1\<lparr>fq_buffer := buf', fq_byte_count := fq_byte_count fq1 + 8\<rparr>)"
        by (intro fq_agrees_buffer fq_agrees_upd fq1 slots)
      from less.hyps [OF rank loop node(4,5) this] show ?thesis
        using node(3) extg md(1,2) True rng cnt set' by (simp add: step fields)
    next
      case False
      then obtain i where "pqueue_insert r (Ref q1) h1 p = Some (i, qp, h')" and res: "n = c" "fq' = fq1"
        using less.prems(1) pop ext nd rng unfolding node(1,2) by (auto simp: step split: Option.bind_splits)
      then obtain g2 where "pqueue_insert r (Ref q1) g1 p = Some (i, qp, g2)" "heap_agrees h' g2"
        using put_back_agrees [OF node(4-6) _ node(7)] md(1) by blast
      then show ?thesis using node(3) extg md(1,2) False rng res fq1 by (simp add: step fields)
    qed
  qed
qed

lemma fill_queue_agrees:
  assumes "fill_queue r (Ref q) h fq = Some (n, qp, h', fq')" and "heap_agrees h g" and "rx_queue q g" and "fq_agrees fq fg"
  shows "\<exists>g' fg'. fill_queue r (Ref q) g fg = Some (n, qp, g', fg') \<and> heap_agrees h' g' \<and> fq_agrees fq' fg'"
proof -
  let ?new = "arr_new (10 * BLOCKSIZE div 8)"
  obtain e qp1 h1 where pop: "pqueue_pop (Ref q) h = Some (e, qp1, h1)"
    using assms(1) by (auto simp: fill_queue_def Let_def split: Option.bind_splits)
  have fresh: "fq_agrees (fq\<lparr>fq_buffer := ?new\<rparr>) (fg\<lparr>fq_buffer := ?new\<rparr>)"
    by (rule fq_agrees_buffer [OF assms(4)]) (simp add: list_all2_conv_all_nth arr_new_def)
  note fields = fq_agrees_fields(3) [OF assms(4)]
  from assms(2,3) pop show ?thesis
  proof (cases rule: pop_agrees)
    case empty
    then show ?thesis using assms(1,2) pop fresh by (auto simp: fill_queue_def Let_def)
  next
    case (node p q1 g1 nd md)
    note nd = node(8) and md = node(9-11)
    have rng: "int_range (fq_sent fq + 1)"
      using assms(1) pop nd unfolding node(1,2) by (auto simp: fill_queue_def Let_def cint_eq_Some_iff split: Option.bind_splits)
    show ?thesis
    proof (cases "pri_int (n_pri nd) = fq_sent fq + 1")
      case True
      then obtain buf where set: "arr_set ?new 0 (n_raw_packet nd) = Some buf"
        and loop: "fill_loop r (Ref q1) h1 (fq\<lparr>fq_buffer := buf\<rparr>) 1 = Some (n, qp, h', fq')"
        using assms(1) pop nd rng unfolding node(1,2) by (auto simp: fill_queue_def Let_def split: Option.bind_splits)
      obtain buf' where set': "arr_set ?new 0 (n_raw_packet md) = Some buf'" and slots: "list_all2 (rel_option agrees) buf buf'"
        using slots_set [OF _ md(3) set, of ?new] fresh by (auto simp: fq_agrees_def)
      from fill_loop_agrees [OF loop node(4,5) fq_agrees_buffer [OF assms(4) slots]] show ?thesis
        using node(3) md(1,2) True rng set' by (simp add: fill_queue_def Let_def fields)
    next
      case False
      then obtain i where "pqueue_insert r (Ref q1) h1 p = Some (i, qp, h')" and res: "n = -1" "fq' = fq\<lparr>fq_buffer := ?new\<rparr>"
        using assms(1) pop nd rng unfolding node(1,2) by (auto simp: fill_queue_def Let_def split: Option.bind_splits)
      then obtain g2 where "pqueue_insert r (Ref q1) g1 p = Some (i, qp, g2)" "heap_agrees h' g2"
        using put_back_agrees [OF node(4-6) _ node(7)] md(1) by blast
      then show ?thesis using node(3) md(1,2) False rng res fresh by (simp add: fill_queue_def Let_def fields)
    qed
  qed
qed

lemma send_block_agrees:
  "agrees raw raw' \<Longrightarrow> send_block raw byte rs = (e, wire, rs') \<Longrightarrow>
    \<exists>wire'. send_block raw' byte rs = (e, wire', rs') \<and> agrees wire wire'"
proof (induction raw byte rs arbitrary: wire rule: send_block.induct)
  case (2 raw byte r rs)
  then show ?case
    by (auto simp: Let_def agrees_append agrees_take split: if_splits prod.splits)
qed simp

lemma forward_from_agrees:
  assumes "forward_from k i fq rs = Some (e, wire, fq', rs')" and "fq_agrees fq fg"
  shows "\<exists>wire' fg'. forward_from k i fg rs = Some (e, wire', fg', rs') \<and> agrees wire wire' \<and> fq_agrees fq' fg'"
  using assms
proof (induction k i fq rs arbitrary: e wire fq' rs' fg rule: forward_from.induct)
  case (2 k i fq rs)
  obtain raw where raw: "arr_get (fq_buffer fq) i = Some raw" using "2.prems"(1) by (auto split: Option.bind_splits)
  obtain raw' where raw': "arr_get (fq_buffer fg) i = Some raw'" "agrees raw raw'"
    using slots_get [OF _ raw, of "fq_buffer fg"] "2.prems"(2) by (auto simp: fq_agrees_def)
  obtain e1 w1 rs1 where sb: "send_block raw 0 rs = (e1, w1, rs1)" by (metis prod_cases3)
  obtain w1' where sb': "send_block raw' 0 rs = (e1, w1', rs1)" "agrees w1 w1'" using send_block_agrees [OF raw'(2) sb] by blast
  note fields = fq_agrees_fields(3) [OF "2.prems"(2)]
  show ?case
  proof (cases "e1 = Filled")
    case False
    then show ?thesis using "2.prems" raw raw' sb sb' by auto
  next
    case True
    then obtain w2 where rng: "cint (fq_sent fq + 1) = Some (fq_sent fq + 1)"
      and rest: "forward_from k (Suc i) (fq\<lparr>fq_sent := fq_sent fq + 1\<rparr>) rs1 = Some (e, w2, fq', rs')" and w: "wire = w1 @ w2"
      using "2.prems"(1) raw sb by (auto simp: cint_eq_Some_iff split: Option.bind_splits)
    from "2.IH" [OF raw sb [symmetric] refl _ rng rest fq_agrees_upd(3) [OF "2.prems"(2)]] True
    show ?thesis using raw' sb' rng w by (auto simp: fields agrees_append)
  qed
qed simp

lemma forward_round_agrees:
  assumes "forward_round r unlock rs pl h fq = Some (e, wire, pl', h', fq')" and "pl_pq pl = Ref q"
    and "heap_agrees h g" and "rx_queue q g" and "fq_agrees fq fg"
  shows "\<exists>wire' g' fg'. forward_round r unlock rs pl g fg = Some (e, wire', pl', g', fg') \<and> agrees wire wire' \<and>
    heap_agrees h' g' \<and> fq_agrees fq' fg'"
proof -
  obtain n qp h1 fq1 where fill: "fill_queue r (Ref q) h fq = Some (n, qp, h1, fq1)"
    using assms(1,2) by (auto simp: forward_round_def forward_unlocked_def split: Option.bind_splits)
  obtain g1 fg1 where fill': "fill_queue r (Ref q) g fg = Some (n, qp, g1, fg1)" and ag: "heap_agrees h1 g1" "fq_agrees fq1 fg1"
    using fill_queue_agrees [OF fill assms(3-5)] by blast
  have "\<exists>w' fg2. forward_data fg1 n rs = Some (e1, w', fg2, rs1) \<and> agrees w w' \<and> fq_agrees fq2 fg2"
    if "forward_data fq1 n rs = Some (e1, w, fq2, rs1)" for e1 w fq2 rs1
    using that forward_from_agrees [OF _ ag(2)] fq_agrees_buffer [of _ _ "[]" "[]"]
    by (fastforce simp: forward_data_def split: Option.bind_splits if_splits)
  then show ?thesis
    using assms(1,2) fill fill' ag by (fastforce simp: forward_round_def forward_unlocked_def Let_def split: Option.bind_splits if_splits)
qed

section \<open>The receiving threads\<close>

lemma cast_agrees:
  assumes "cast_packet be raw = Some p" and "agrees raw raw'"
  obtains p' where "cast_packet be raw' = Some p'" and "ep_seq p' = ep_seq p" and "agrees (ep_raw_packet p) (ep_raw_packet p')"
proof -
  have "arr_get raw' i = Some b" if "arr_get raw i = Some b" for i b
    using that assms(2) list_all2_nthD [of _ raw raw' i] list_all2_lengthD [of _ raw raw']
    by (fastforce simp: agrees_def arr_get_def split: if_splits)
  then show thesis
    using assms agrees_drop [OF assms(2), of 2] by (auto simp: cast_packet_def split: Option.bind_splits intro!: that)
qed

text \<open>\<open>add2queue\<close> of a packet and of one that lacks payload bytes.\<close>

lemma add2queue_agrees:
  assumes add: "add2queue be ok pl h ns raw = Some (pl', h')" and pq: "pl_pq pl = Ref q" and raw: "agrees raw raw'"
    and ag: "heap_agrees h g" and rx: "rx_queue q g" and fresh: "g ns = None" and room: "\<not> ok \<or> pq_room ok q"
  shows "\<exists>g'. add2queue be ok pl g ns raw' = Some (pl', g') \<and> heap_agrees h' g'"
proof -
  obtain p where p: "cast_packet be raw = Some p" using add by (auto simp: add2queue_def split: Option.bind_splits)
  obtain p' where p': "cast_packet be raw' = Some p'" "ep_seq p' = ep_seq p" "agrees (ep_raw_packet p) (ep_raw_packet p')"
    by (rule cast_agrees [OF p raw])
  define n where "n p = \<lparr>n_pri = ucast (ep_seq p), n_raw_packet = ep_raw_packet p, n_pos = 0\<rparr>" for p :: encaps_packet_t
  obtain e qp h1 where ins: "pqueue_insert ok (Ref q) (h(ns \<mapsto> n p)) ns = Some (e, qp, h1)"
    using add p pq by (auto simp: add2queue_def n_def split: Option.bind_splits)
  have "heap_agrees (h(ns \<mapsto> n p)) (g(ns \<mapsto> n p'))"
    using ag p'(2,3) unfolding heap_agrees_def
    by (auto simp: heap_view_def node_view_def fun_eq_iff n_def get_pri_def get_pos_def node_raw_def)
  then have "\<exists>g1. pqueue_insert ok (Ref q) (g(ns \<mapsto> n p')) ns = Some (e, qp, g1) \<and> heap_agrees h1 g1"
    using rx_queue_fresh(1) [OF rx fresh, of "n p'"] rx_queue_fresh(3) [OF rx fresh] by (intro insert_agrees [OF _ _ _ _ room ins]) (simp_all add: rx_queue_def pq_ok_def)
  then show ?thesis
    using add p p' pq ins by (auto simp: add2queue_def n_def Let_def split: Option.bind_splits)
qed

end
