(* ===== verification/Proxy_Faults.thy ===== *)
theory Proxy_Faults
  imports Proxy_System
begin

text \<open>
  The two proxies when packets are lost. \<open>Proxy_System\<close> asks for connections that do not break
  and for memory; here a connection thread may find its connection closed before it has sent
  a byte of the packet it took, a connection may be reset with all that is in transit on it,
  and the queue may fail to grow, so that \<open>add2queue\<close> drops a packet. What is lost is kept in
  the proofs as the contents of one more connection that nobody reads.
\<close>

section \<open>Faults\<close>

inductive fault :: "bool \<Rightarrow> sys \<Rightarrow> sys \<Rightarrow> bool" for be where
  closed: "tx_round be 0 0 state rs (s_buff s) = Some (Returned False, [], buff') \<Longrightarrow> fault be s (s\<lparr>s_buff := buff'\<rparr>)"
| reset: "c < length (s_chans s) \<Longrightarrow> fault be s (s\<lparr>s_chans := (s_chans s)[c := []]\<rparr>)"
| full: "c < length (s_chans s) \<Longrightarrow> PACKET_SIZE \<le> length (s_chans s ! c) \<Longrightarrow>
    s_h s ns = None \<Longrightarrow> pl_pq (s_pl s) = Ref q \<Longrightarrow> q_avail q \<le> q_size q \<Longrightarrow>
    add2queue be False (s_pl s) (s_h s) ns (take PACKET_SIZE (s_chans s ! c)) = Some (pl', h') \<Longrightarrow>
    fault be s (s\<lparr>s_chans := (s_chans s)[c := drop PACKET_SIZE (s_chans s ! c)], s_pl := pl', s_h := h'\<rparr>)"

definition faulty_step :: "bool \<Rightarrow> sys \<Rightarrow> sys \<Rightarrow> bool" where
  "faulty_step be s s' \<longleftrightarrow> sys_step be s s' \<or> fault be s s'"

definition with_lost :: "byte arr \<Rightarrow> sys \<Rightarrow> sys" where
  "with_lost g s = s\<lparr>s_chans := s_chans s @ [g]\<rparr>"

lemma with_lost_simps [simp]:
  "s_buff (with_lost g s) = s_buff s" "s_pl (with_lost g s) = s_pl s" "s_h (with_lost g s) = s_h s"
  "s_fq (with_lost g s) = s_fq s" "s_out (with_lost g s) = s_out s" "s_chans (with_lost g s) = s_chans s @ [g]"
  by (simp_all add: with_lost_def)

lemma with_lost_upd [simp]:
  "(with_lost g s)\<lparr>s_buff := b\<rparr> = with_lost g (s\<lparr>s_buff := b\<rparr>)" "(with_lost g s)\<lparr>s_pl := pl\<rparr> = with_lost g (s\<lparr>s_pl := pl\<rparr>)"
  "(with_lost g s)\<lparr>s_h := h\<rparr> = with_lost g (s\<lparr>s_h := h\<rparr>)" "(with_lost g s)\<lparr>s_fq := fq\<rparr> = with_lost g (s\<lparr>s_fq := fq\<rparr>)"
  "(with_lost g s)\<lparr>s_out := out\<rparr> = with_lost g (s\<lparr>s_out := out\<rparr>)"
  "(with_lost g s)\<lparr>s_chans := chans @ [g']\<rparr> = with_lost g' (s\<lparr>s_chans := chans\<rparr>)"
  by (cases s; simp add: with_lost_def)+

section \<open>The steps with a connection for what is lost\<close>

lemma step_with_lost: "sys_step be s s' \<Longrightarrow> sys_step be (with_lost g s) (with_lost g s')"
proof (induction rule: sys_step.induct)
  case (split raw_buf recv_count s d buff')
  then show ?case using sys_step.split [of raw_buf recv_count "with_lost g s" d buff'] by simp
next
  case (fin s)
  show ?case using sys_step.fin [of be "with_lost g s"] by simp
next
  case (tx c s state rs wire buff')
  then show ?case using sys_step.tx [of c "with_lost g s" be state rs wire buff']
    by (simp add: nth_append list_update_append)
next
  case (rx c s ns q ok pl' h')
  then show ?case using sys_step.rx [of c "with_lost g s" ns q ok be pl' h']
    by (simp add: nth_append list_update_append)
next
  case (fwd s q rs r wire pl' h' fq')
  then show ?case using sys_step.fwd [of "with_lost g s" q rs r wire pl' h' fq' be] by simp
qed

text \<open>A packet that was taken and not sent: it goes to the connection nobody reads.\<close>

lemma closed_with_lost:
  assumes "tx_round be 0 0 state rs (s_buff s) = Some (Returned False, [], buff')"
  shows "\<exists>w. (sys_step be)\<^sup>*\<^sup>* (with_lost g s) (with_lost (g @ w) (s\<lparr>s_buff := buff'\<rparr>)) \<and>
    (\<forall>p. tx_take (s_buff s) = Some (TxPacket p, buff') \<longrightarrow> w = take PACKET_SIZE (packet_bytes be p))"
proof -
  obtain nxt where take: "tx_take (s_buff s) = Some (nxt, buff')"
    using assms by (auto simp: tx_round_def split: Option.bind_splits tx_next.splits prod.splits fill_end.splits)
  show ?thesis
  proof (cases "\<exists>p. nxt = TxPacket p")
    case True
    then obtain p where p: "nxt = TxPacket p" by blast
    let ?wire = "take PACKET_SIZE (packet_bytes be p)"
    have "tx_round be 0 0 link_ACTIVE [int PACKET_SIZE] (s_buff s) = Some (Returned True, ?wire, buff')"
      by (simp add: tx_round_def take p send_count_def PACKET_SIZE_def BLOCKSIZE_def link_ACTIVE_def link_PASSIVE_def)
    then have "sys_step be (with_lost g s) (with_lost (g @ ?wire) (s\<lparr>s_buff := buff'\<rparr>))"
      using sys_step.tx [of "length (s_chans s)" "with_lost g s" be link_ACTIVE "[int PACKET_SIZE]" ?wire buff']
      by simp
    then show ?thesis using take p by (intro exI [of _ ?wire]) auto
  next
    case False
    then have "buff' = s_buff s" using take by (auto simp: tx_take_def split: Option.bind_splits if_splits)
    then show ?thesis using False take by (intro exI [of _ "[]"]) simp
  qed
qed

text \<open>Packets may move to the last connection.\<close>

lemma sys_at_lose:
  assumes at: "sys_at be (with_lost g s) q n flight" and c: "c < length (s_chans s)" and fl: "flight ! c = xs @ ys"
  obtains w where "sys_at be (with_lost (g @ w) (s\<lparr>s_chans := (s_chans s)[c := concat (map (packet_bytes be) ys)]\<rparr>)) q n
    (flight[c := ys, length (s_chans s) := flight ! length (s_chans s) @ xs])"
proof -
  let ?k = "length (s_chans s)"
  let ?bytes = "\<lambda>ps. concat (map (packet_bytes be) ps)"
  have chans: "s_chans s @ [g] = map ?bytes flight" using at by (simp add: sys_at_def)
  then have len: "length flight = Suc ?k" by (metis length_append_singleton length_map)
  let ?f1 = "flight[c := ys]" and ?f2 = "flight[c := ys, ?k := flight ! ?k @ xs]"
  have "mset (concat ?f2) + mset (?f1 ! ?k) = mset (concat ?f1) + mset (flight ! ?k @ xs)"
    using mset_concat_update [of ?k ?f1] len by (simp del: mset_concat)
  moreover have "mset (concat ?f1) + mset (xs @ ys) = mset (concat flight) + mset ys"
    using mset_concat_update [of c flight ys] c len fl by (simp del: mset_concat)
  moreover have "?f1 ! ?k = flight ! ?k" using c by simp
  ultimately have same: "mset (concat ?f2) = mset (concat flight)" by (simp del: mset_concat)
  have "map ?bytes ?f2 = (s_chans s @ [g])[c := ?bytes ys, ?k := g @ ?bytes xs]"
  proof -
    have "?bytes (flight ! ?k) = g" using arg_cong [OF chans, of "\<lambda>l. l ! ?k"] len by simp
    then show ?thesis unfolding chans by (simp add: map_update)
  qed
  then have "map ?bytes ?f2 = (s_chans s)[c := ?bytes ys] @ [g @ ?bytes xs]"
    using c by (simp add: list_update_append)
  with at same have "sys_at be (with_lost (g @ ?bytes xs) (s\<lparr>s_chans := (s_chans s)[c := ?bytes ys]\<rparr>)) q n ?f2"
    by (simp add: sys_at_def del: mset_concat)
  then show thesis by (rule that)
qed

section \<open>The invariant\<close>

lemma sys_inv_run: "(sys_step be)\<^sup>*\<^sup>* s s' \<Longrightarrow> sys_inv be s \<Longrightarrow> sys_inv be s'"
  by (induction rule: rtranclp_induct) (auto intro: sys_inv_step)

lemma full_at:
  assumes at: "sys_at be (with_lost g s) q n flight" and c: "c < length (s_chans s)" "PACKET_SIZE \<le> length (s_chans s ! c)"
    and fresh: "s_h s ns = None" and full: "q_avail q \<le> q_size q"
    and add: "add2queue be False (s_pl s) (s_h s) ns (take PACKET_SIZE (s_chans s ! c)) = Some (pl', h')"
  shows "\<exists>w flight'. sys_at be
    (with_lost (g @ w) (s\<lparr>s_chans := (s_chans s)[c := drop PACKET_SIZE (s_chans s ! c)], s_pl := pl', s_h := h'\<rparr>)) q n flight'"
proof -
  have pq: "pl_pq (s_pl s) = Ref q" and rx: "rx_queue q (s_h s)" and cnt: "counters_ok (s_pl s)"
    using at by (simp_all add: sys_at_def)
  have c': "c < length (s_chans (with_lost g s))" "PACKET_SIZE \<le> length (s_chans (with_lost g s) ! c)"
    "s_chans (with_lost g s) ! c = s_chans s ! c" using c by (simp_all add: nth_append)
  obtain p ps where fl: "flight ! c = p # ps" and head: "take PACKET_SIZE (s_chans s ! c) = packet_bytes be p"
    "drop PACKET_SIZE (s_chans s ! c) = concat (map (packet_bytes be) ps)"
    using flight_head [OF at c'(1,2)] c'(3) by metis
  obtain w where at': "sys_at be (with_lost (g @ w) (s\<lparr>s_chans := (s_chans s)[c := concat (map (packet_bytes be) ps)]\<rparr>)) q n
      (flight[c := ps, length (s_chans s) := flight ! length (s_chans s) @ [p]])"
    using sys_at_lose [OF at c(1), of "[p]" ps] fl by auto
  have new: "pl' = add2queue_counters (s_pl s) (ep_seq p) (Ref q)" "rx_queue q h'" "pool_items q h' = pool_items q (s_h s)"
    using add2queue_full [OF pq full rx fresh cnt, of be p] add head(1) by auto
  have "sys_at be (with_lost (g @ w) (s\<lparr>s_chans := (s_chans s)[c := drop PACKET_SIZE (s_chans s ! c)], s_pl := pl', s_h := h'\<rparr>)) q n
      (flight[c := ps, length (s_chans s) := flight ! length (s_chans s) @ [p]])"
    using at' new counters_ok_step [OF cnt, of "ep_seq p" "Ref q"]
    by (simp add: sys_at_def head(2) add2queue_counters_def del: mset_concat)
  then show ?thesis by blast
qed

lemma fault_inv:
  assumes "fault be s s'" and inv: "sys_inv be (with_lost g s)"
  shows "\<exists>w. sys_inv be (with_lost (g @ w) s')"
  using assms(1)
proof cases
  case (closed state rs buff')
  then show ?thesis using closed_with_lost [of be state rs s buff' g] sys_inv_run inv by blast
next
  case (reset c)
  show ?thesis
  proof (cases "length (pb_log (s_buff s)) \<le> 65536")
    case True
    with inv obtain q n flight where at: "sys_at be (with_lost g s) q n flight" by (auto simp: sys_inv_def)
    obtain w where "sys_at be (with_lost (g @ w) s') q n (flight[c := [], length (s_chans s) := flight ! length (s_chans s) @ flight ! c])"
      using sys_at_lose [OF at reset(2), of "flight ! c" "[]"] reset(1) by auto
    then show ?thesis by (auto simp: sys_inv_def)
  qed (simp add: sys_inv_def reset)
next
  case (full c ns q pl' h')
  show ?thesis
  proof (cases "length (pb_log (s_buff s)) \<le> 65536")
    case True
    with inv obtain q1 n flight where at: "sys_at be (with_lost g s) q1 n flight" by (auto simp: sys_inv_def)
    then have "q1 = q" using full(5) by (simp add: sys_at_def)
    with full_at [OF at full(2,3,4) _ full(7)] full(1,6) show ?thesis by (auto simp: sys_inv_def)
  qed (simp add: sys_inv_def full)
qed

text \<open>What is lost stays lost.\<close>

lemma faulty_inv:
  assumes "(faulty_step be)\<^sup>*\<^sup>* s s'" and "sys_inv be (with_lost g s)"
  shows "\<exists>w. sys_inv be (with_lost (g @ w) s')"
  using assms
proof (induction rule: rtranclp_induct)
  case base
  then show ?case by (metis append_Nil2)
next
  case (step s1 s2)
  then obtain w where w: "sys_inv be (with_lost (g @ w) s1)" by blast
  from step.hyps(2) show ?case
    unfolding faulty_step_def using fault_inv [OF _ w] sys_inv_step [OF step_with_lost w] by fastforce
qed

lemma faulty_start: "sys_inv be (with_lost [] (sys_init sockfd))"
proof -
  obtain q where "sys_at be (sys_init sockfd) q 0 [[], []]" using sys_at_init by blast
  then have "sys_at be (with_lost [] (sys_init sockfd)) q 0 [[], [], []]" by (simp add: sys_at_def)
  then show ?thesis by (auto simp: sys_inv_def)
qed

lemma faulty_step_log: "faulty_step be s s' \<Longrightarrow> length (pb_log (s_buff s)) \<le> length (pb_log (s_buff s'))"
  unfolding faulty_step_def
  by (auto dest: sys_step_log elim!: fault.cases simp: length_log dest!: tx_round_set_ind)

lemma faulty_log: "(faulty_step be)\<^sup>*\<^sup>* s s' \<Longrightarrow> length (pb_log (s_buff s)) \<le> length (pb_log (s_buff s'))"
  by (induction rule: rtranclp_induct) (auto dest: faulty_step_log)

text \<open>Packets have a fixed length, so the packets of a byte sequence are determined.\<close>

lemma packets_prefix:
  assumes "concat (map (packet_bytes be) ps) = concat (map (packet_bytes be) qs) @ w"
    and "\<forall>p\<in>set ps \<union> set qs. length (ep_raw_packet p) = BLOCKSIZE"
  shows "set qs \<subseteq> set ps"
  using assms
proof (induction qs arbitrary: ps)
  case (Cons p qs)
  have len: "length (packet_bytes be p) = PACKET_SIZE" using Cons.prems(2) by (simp add: length_packet_bytes)
  then obtain p' ps' where ps: "ps = p' # ps'" using Cons.prems(1) by (cases ps) (auto simp: PACKET_SIZE_def)
  have "length (packet_bytes be p') = PACKET_SIZE" using Cons.prems(2) by (simp add: ps length_packet_bytes)
  with len Cons.prems(1) have eq: "packet_bytes be p' = packet_bytes be p"
    and rest: "concat (map (packet_bytes be) ps') = concat (map (packet_bytes be) qs) @ w" by (auto simp: ps)
  have "p' = p" using arg_cong [OF eq, of "cast_packet be"] Cons.prems(2) by (simp add: ps cast_packet_bytes)
  with Cons.IH [OF rest] Cons.prems(2) show ?case by (auto simp: ps)
qed simp

lemma lost_packets:
  assumes "sys_at be (with_lost g s) q n flight"
  obtains ps where "ps \<in> set flight" and "g = concat (map (packet_bytes be) ps)" and "\<forall>p\<in>set ps. length (ep_raw_packet p) = BLOCKSIZE"
proof -
  have "s_chans s @ [g] = map (\<lambda>ps. concat (map (packet_bytes be) ps)) flight" using assms by (simp add: sys_at_def)
  then have "g \<in> (\<lambda>ps. concat (map (packet_bytes be) ps)) ` set flight" by (metis in_set_conv_decomp list.set_map)
  then obtain ps where ps: "ps \<in> set flight" "g = concat (map (packet_bytes be) ps)" by blast
  have "length (ep_raw_packet p) = BLOCKSIZE" if "p \<in> set ps" for p
    using sys_at_block(4) [OF assms, of "pkt_item p"] ps(1) that by (auto simp: pkt_item_def)
  with ps show thesis by (intro that) auto
qed

section \<open>What the destination receives\<close>

text \<open>C22: losing whole packets does not corrupt the output. Whatever packets are lost because \<open>send\<close>
  returns 0 before a byte of them was sent, because a connection is reset with all that is in
  transit on it, or because the queue cannot grow, the destination has received the
  concatenation of the first n blocks of the log, for some n, as long as the log has at most
  65536 blocks (block 65536 has the number of block 0 and would take its place). Connections
  that end inside a packet are not among these losses; C13 is about them.\<close>

theorem losses_keep_prefix:
  assumes "(faulty_step be)\<^sup>*\<^sup>* (sys_init sockfd) s" and "length (pb_log (s_buff s)) \<le> 65536"
  shows "\<exists>n. int n \<le> pb_get_ind (s_buff s) \<and> s_out s = concat (take n (pb_log (s_buff s)))"
proof -
  obtain g q n flight where "sys_at be (with_lost g s) q n flight"
    using faulty_inv [OF assms(1) faulty_start] assms(2) by (auto simp: sys_inv_def)
  then show ?thesis by (auto simp: sys_at_def)
qed

text \<open>C27: a packet that was taken from the buffer and not sent, because \<open>send\<close> returned 0, stops the
  output: whatever happens afterwards, packets lost in other ways included, as long as the log
  has at most 65536 blocks the destination does not receive the block of that packet or a later
  one. (The block 65536 places later has the same number and would let the output go on.)\<close>

theorem lost_packet_stops:
  assumes "(faulty_step be)\<^sup>*\<^sup>* (sys_init sockfd) s" and "pb_get_ind (s_buff s) \<le> pb_set_ind (s_buff s)"
    and "tx_round be 0 0 state (0 # rs) (s_buff s) = Some (Returned False, [], buff')"
    and "(faulty_step be)\<^sup>*\<^sup>* (s\<lparr>s_buff := buff'\<rparr>) s'" and "length (pb_log (s_buff s')) \<le> 65536"
  shows "\<exists>n. int n \<le> pb_get_ind (s_buff s) \<and> s_out s' = concat (take n (pb_log (s_buff s')))"
proof -
  let ?b = "s_buff s" and ?bytes = "\<lambda>ps. concat (map (packet_bytes be) ps)"
  have "fault be s (s\<lparr>s_buff := buff'\<rparr>)" using assms(3) by (rule fault.closed)
  then have lim: "length (pb_log ?b) \<le> 65536"
    using faulty_step_log [of be s "s\<lparr>s_buff := buff'\<rparr>"] faulty_log [OF assms(4)] assms(5) by (simp add: faulty_step_def)
  obtain g where inv: "sys_inv be (with_lost g s)" using faulty_inv [OF assms(1) faulty_start] by auto
  then obtain q n flight where at: "sys_at be (with_lost g s) q n flight" using lim by (auto simp: sys_inv_def)
  have pb: "pb_inv ?b" using at by (simp add: sys_at_def)
  then have g0: "0 \<le> pb_get_ind ?b" "pb_get_ind ?b < 65536"
    using assms(2) lim length_pb_log [OF pb] by (auto simp: pb_inv_def)
  have "pb_set_ind ?b < 2147483" using lim length_pb_log [OF pb] by simp
  from tx_take_packet(1) [OF pb this assms(2)] obtain p b1 where tk: "tx_take ?b = Some (TxPacket p, b1)"
    and p: "ep_seq p = of_int (pb_get_ind ?b)" by simp
  then have take: "tx_take ?b = Some (TxPacket p, buff')"
    using assms(3) by (auto simp: tx_round_def split: prod.splits fill_end.splits)
  have len: "length (ep_raw_packet p) = BLOCKSIZE" using take by (auto simp: tx_take_def split: Option.bind_splits if_splits)
  then have bytes: "take PACKET_SIZE (packet_bytes be p) = packet_bytes be p" by (simp add: length_packet_bytes)
  obtain w where "(sys_step be)\<^sup>*\<^sup>* (with_lost g s) (with_lost (g @ w) (s\<lparr>s_buff := buff'\<rparr>))" and w: "w = packet_bytes be p"
    using closed_with_lost [OF assms(3), of g] take bytes by auto
  from faulty_inv [OF assms(4) sys_inv_run [OF this(1) inv]] obtain w' where "sys_inv be (with_lost ((g @ w) @ w') s')" ..
  with assms(5) obtain q' m flight' where at': "sys_at be (with_lost (g @ packet_bytes be p @ w') s') q' m flight'"
    by (auto simp: sys_inv_def w)
  obtain ps where ps: "g = concat (map (packet_bytes be) ps)" "\<forall>p\<in>set ps. length (ep_raw_packet p) = BLOCKSIZE"
    using lost_packets [OF at] by blast
  obtain ps' where ps': "ps' \<in> set flight'" "g @ packet_bytes be p @ w' = concat (map (packet_bytes be) ps')"
    "\<forall>p\<in>set ps'. length (ep_raw_packet p) = BLOCKSIZE" using lost_packets [OF at'] by blast
  have "set (ps @ [p]) \<subseteq> set ps'" by (rule packets_prefix [of be _ _ w']) (use ps ps' len in auto)
  then have "m \<le> unat (ep_seq p)" using sys_at_block(1) [OF at', of "pkt_item p"] ps'(1) by (auto simp: pkt_item_def)
  then have "int m \<le> pb_get_ind ?b" using g0 by (simp add: p of_int_seq)
  moreover have "s_out s' = concat (take m (pb_log (s_buff s')))" using at' by (simp add: sys_at_def)
  ultimately show ?thesis by blast
qed

end
