(* ===== verification/Proxy_Cuts.thy ===== *)
theory Proxy_Cuts
  imports Indeterminate Proxy_Faults Simulation
begin

text \<open>
  The two proxies when connections end inside a packet. \<open>rx_chain\<close> then puts a packet into the
  pool whose missing payload bytes were never written (C21). The system with such cuts is
  matched, step by step, by the system of \<open>Proxy_Faults\<close>, in which the whole packet arrives:
  both do the same, and what they have written agrees in every byte that is not indeterminate.
\<close>

section \<open>Cuts\<close>

text \<open>
  The receiver has got k bytes of what is in transit on a connection when the connection ends:
  after its last whole packets, the fragment is added to the pool, the rest is lost. A sender
  that closes inside a packet is the case that the rest of that packet is lost. With k = 1
  \<open>add2queue\<close> has no result.
\<close>

inductive cut :: "bool \<Rightarrow> sys \<Rightarrow> sys \<Rightarrow> bool" for be where
  cut: "c < length (s_chans s) \<Longrightarrow> 0 < k \<Longrightarrow> k < PACKET_SIZE \<Longrightarrow> k \<le> length (s_chans s ! c) \<Longrightarrow>
    s_h s ns = None \<Longrightarrow> pl_pq (s_pl s) = Ref q \<Longrightarrow> \<not> ok \<or> pq_room ok q \<Longrightarrow>
    add2queue be ok (s_pl s) (s_h s) ns (take k (s_chans s ! c) @ arr_new (PACKET_SIZE - k)) = Some (pl', h') \<Longrightarrow>
    cut be s (s\<lparr>s_chans := (s_chans s)[c := []], s_pl := pl', s_h := h'\<rparr>)"

definition torn_step :: "bool \<Rightarrow> sys \<Rightarrow> sys \<Rightarrow> bool" where
  "torn_step be s s' \<longleftrightarrow> faulty_step be s s' \<or> cut be s s'"

section \<open>The simulation\<close>

definition torn_match :: "bool \<Rightarrow> sys \<Rightarrow> sys \<Rightarrow> bool" where
  "torn_match be t s \<longleftrightarrow> s_buff t = s_buff s \<and> s_chans t = s_chans s \<and> s_pl t = s_pl s \<and>
     heap_agrees (s_h s) (s_h t) \<and> fq_agrees (s_fq s) (s_fq t) \<and> agrees (s_out s) (s_out t) \<and>
     (\<exists>g. sys_inv be (with_lost g t))"

abbreviation torn_lim :: "sys \<Rightarrow> bool" where
  "torn_lim s \<equiv> length (pb_log (s_buff s)) \<le> 65536"

lemma torn_step_log: "torn_step be s s' \<Longrightarrow> length (pb_log (s_buff s)) \<le> length (pb_log (s_buff s'))"
  by (auto simp: torn_step_def dest: faulty_step_log elim!: cut.cases)

lemma torn_match_at:
  assumes "torn_match be t s" and "torn_lim s"
  obtains g q n flight where "sys_at be (with_lost g t) q n flight" and "pl_pq (s_pl s) = Ref q" and "rx_queue q (s_h t)"
    and "rx_queue q (s_h s)" and "heap_agrees (s_h s) (s_h t)"
proof -
  from assms obtain g q n flight where at: "sys_at be (with_lost g t) q n flight"
    by (auto simp: torn_match_def sys_inv_def)
  moreover have "heap_agrees (s_h s) (s_h t)" "s_pl t = s_pl s" using assms(1) by (simp_all add: torn_match_def)
  ultimately show thesis using bare_rx_queue [of "s_h s" "s_h t" q] by (intro that) (auto simp: sys_at_def heap_agrees_def)
qed

text \<open>Whatever steps the matching system makes, it stays in the invariant.\<close>

lemma torn_matchI:
  assumes "(faulty_step be)\<^sup>*\<^sup>* t t'" and "torn_match be t s" and "s_buff t' = s_buff s'" and "s_chans t' = s_chans s'"
    and "s_pl t' = s_pl s'" and "heap_agrees (s_h s') (s_h t')" and "fq_agrees (s_fq s') (s_fq t')" and "agrees (s_out s') (s_out t')"
  shows "\<exists>t'. (faulty_step be)\<^sup>*\<^sup>* t t' \<and> torn_match be t' s'"
proof -
  obtain g where "sys_inv be (with_lost g t)" using assms(2) by (auto simp: torn_match_def)
  from faulty_inv [OF assms(1) this] obtain w where "sys_inv be (with_lost (g @ w) t')" ..
  with assms show ?thesis by (auto simp: torn_match_def)
qed

lemma section_matched:
  assumes "sys_step be s s'" and m: "torn_match be t s" and lim: "torn_lim s"
  shows "\<exists>t'. (faulty_step be)\<^sup>*\<^sup>* t t' \<and> torn_match be t' s'"
proof -
  obtain g q n flight where at: "sys_at be (with_lost g t) q n flight" and pq: "pl_pq (s_pl s) = Ref q" and rx: "rx_queue q (s_h t)"
    and rxs: "rx_queue q (s_h s)" and ag: "heap_agrees (s_h s) (s_h t)" by (rule torn_match_at [OF m lim])
  note mm = m [unfolded torn_match_def]
  have one: "(faulty_step be)\<^sup>*\<^sup>* t t'" if "sys_step be t t'" for t' using that by (intro r_into_rtranclp) (simp add: faulty_step_def)
  from assms(1) show ?thesis
  proof cases
    case (split raw_buf recv_count d buff')
    show ?thesis by (rule torn_matchI [OF one [OF sys_step.split [of raw_buf recv_count t d buff']] m]) (use split mm in simp_all)
  next
    case fin
    show ?thesis by (rule torn_matchI [OF one [OF sys_step.fin] m]) (use fin mm in simp_all)
  next
    case (tx c state rs wire buff')
    show ?thesis
      by (rule torn_matchI [OF one [OF sys_step.tx [of c t be state rs wire buff']] m]) (use tx mm in simp_all)
  next
    case (rx c ns q' ok pl' h')
    then have q': "q' = q" using pq by simp
    have fresh: "s_h t ns = None" using rx(4) bare_None [of "s_h s" "s_h t"] ag by (simp add: heap_agrees_def)
    from add2queue_agrees [OF rx(7) pq agrees_refl ag \<open>rx_queue q (s_h t)\<close> fresh] rx(6) q'
    obtain g' where g': "add2queue be ok (s_pl s) (s_h t) ns (take PACKET_SIZE (s_chans s ! c)) = Some (pl', g')" "heap_agrees h' g'" by blast
    show ?thesis
      by (rule torn_matchI [OF one [OF sys_step.rx [of c t ns q ok be pl' g']] m]) (use rx mm pq q' fresh g' in simp_all)
  next
    case (fwd q' rs r wire pl' h' fq')
    then have q': "q' = q" using pq by simp
    have card: "card (pool_items q (s_h t)) = card (pool_items q (s_h s))" using rx_queue_card [OF rx] rx_queue_card [OF rxs] by simp
    have fq: "fq_agrees (s_fq s) (s_fq t)" using mm by simp
    from forward_round_agrees [OF fwd(6) pq ag rx fq] obtain wire' g' fg' where
      f: "forward_round r 0 rs (s_pl s) (s_h t) (s_fq t) = Some (Returned (), wire', pl', g', fg')" "agrees wire wire'"
        "heap_agrees h' g'" "fq_agrees fq' fg'" by blast
    have "fill_room (s_fq t) (card (pool_items q (s_h t)))" using fwd(3) card q' fq_agrees_fields [OF fq] by (simp add: fill_room_def)
    then show ?thesis
      by (intro torn_matchI [OF one [OF sys_step.fwd [of t q rs r wire' pl' g' fg']] m])
        (use fwd mm pq q' f card in \<open>simp_all add: agrees_append\<close>)
  qed
qed

lemma fault_matched:
  assumes "fault be s s'" and m: "torn_match be t s" and lim: "torn_lim s"
  shows "\<exists>t'. (faulty_step be)\<^sup>*\<^sup>* t t' \<and> torn_match be t' s'"
proof -
  obtain g q n flight where pq: "pl_pq (s_pl s) = Ref q" and rx: "rx_queue q (s_h t)"
    and ag: "heap_agrees (s_h s) (s_h t)" by (rule torn_match_at [OF m lim])
  note mm = m [unfolded torn_match_def]
  have one: "(faulty_step be)\<^sup>*\<^sup>* t t'" if "fault be t t'" for t' using that by (intro r_into_rtranclp) (simp add: faulty_step_def)
  from assms(1) show ?thesis
  proof cases
    case (closed state rs buff')
    show ?thesis by (rule torn_matchI [OF one [OF fault.closed [of be state rs t buff']] m]) (use closed mm in simp_all)
  next
    case (reset c)
    show ?thesis by (rule torn_matchI [OF one [OF fault.reset [of c t]] m]) (use reset mm in simp_all)
  next
    case (full c ns q' pl' h')
    have fresh: "s_h t ns = None" using full(4) bare_None [of "s_h s" "s_h t"] ag by (simp add: heap_agrees_def)
    from add2queue_agrees [OF full(7) pq agrees_refl ag rx fresh] obtain g' where
      g': "add2queue be False (s_pl s) (s_h t) ns (take PACKET_SIZE (s_chans s ! c)) = Some (pl', g')" "heap_agrees h' g'" by blast
    show ?thesis
      by (rule torn_matchI [OF one [OF fault.full [of c t ns q be pl' g']] m]) (use full mm pq fresh g' in simp_all)
  qed
qed

text \<open>Where anything is in transit, it starts with a whole packet.\<close>

lemma chan_whole:
  assumes "sys_at be s q n flight" and "c < length (s_chans s)" and "s_chans s ! c \<noteq> []"
  shows "PACKET_SIZE \<le> length (s_chans s ! c)"
proof -
  have chans: "s_chans s = map (\<lambda>ps. concat (map (packet_bytes be) ps)) flight" using assms(1) by (simp add: sys_at_def)
  then have c: "c < length flight" "s_chans s ! c = concat (map (packet_bytes be) (flight ! c))" using assms(2) by simp_all
  then obtain p ps where p: "flight ! c = p # ps" using assms(3) by (cases "flight ! c") auto
  then have "p \<in> set (concat flight)" using c(1) nth_mem [OF c(1)] by (auto intro!: bexI [of _ "flight ! c"])
  then have "length (ep_raw_packet p) = BLOCKSIZE" using sys_at_block(4) [OF assms(1), of "pkt_item p"] by (auto simp: pkt_item_def)
  then show ?thesis by (simp add: c(2) p length_packet_bytes)
qed

text \<open>In the matching system the whole packet arrives, and then the connection is reset.\<close>

lemma cut_matched:
  assumes "cut be s s'" and m: "torn_match be t s" and lim: "torn_lim s"
  shows "\<exists>t'. (faulty_step be)\<^sup>*\<^sup>* t t' \<and> torn_match be t' s'"
proof -
  obtain g q n flight where at: "sys_at be (with_lost g t) q n flight" and pq: "pl_pq (s_pl s) = Ref q" and rx: "rx_queue q (s_h t)"
    and ag: "heap_agrees (s_h s) (s_h t)" by (rule torn_match_at [OF m lim])
  note mm = m [unfolded torn_match_def]
  from assms(1) show ?thesis
  proof cases
    case (cut c k ns q' ok pl' h')
    let ?ch = "s_chans s ! c"
    have q': "q' = q" using pq cut(7) by simp
    have "?ch \<noteq> []" using cut(3,5) by auto
    then have len: "PACKET_SIZE \<le> length ?ch" using chan_whole [OF at, of c] cut(2) mm by (simp add: nth_append)
    have fresh: "s_h t ns = None" using cut(6) bare_None [of "s_h s" "s_h t"] ag by (simp add: heap_agrees_def)
    have raw: "agrees (take k ?ch @ arr_new (PACKET_SIZE - k)) (take PACKET_SIZE ?ch)"
      using agrees_cut [of k "take PACKET_SIZE ?ch"] cut(4) len by (simp add: min_absorb1 min_absorb2)
    from add2queue_agrees [OF cut(9) pq raw ag rx fresh] cut(8) q' obtain g' where
      g': "add2queue be ok (s_pl s) (s_h t) ns (take PACKET_SIZE ?ch) = Some (pl', g')" "heap_agrees h' g'" by blast
    let ?t1 = "t\<lparr>s_chans := (s_chans t)[c := drop PACKET_SIZE (s_chans t ! c)], s_pl := pl', s_h := g'\<rparr>"
    have "faulty_step be t ?t1"
    proof (cases "pq_room ok q")
      case True
      then show ?thesis unfolding faulty_step_def using cut mm pq g' fresh len by (intro disjI1 sys_step.rx) simp_all
    next
      case False
      then have "\<not> ok" "q_avail q \<le> q_size q" using cut(8) q' by (auto simp: pq_room_def)
      then show ?thesis unfolding faulty_step_def using cut mm pq g' fresh len by (intro disjI2 fault.full) simp_all
    qed
    moreover have "faulty_step be ?t1 (?t1\<lparr>s_chans := (s_chans ?t1)[c := []]\<rparr>)"
      unfolding faulty_step_def using cut(2) mm by (intro disjI2 fault.reset) simp
    ultimately have run: "(faulty_step be)\<^sup>*\<^sup>* t (?t1\<lparr>s_chans := (s_chans ?t1)[c := []]\<rparr>)" by (meson converse_rtranclp_into_rtranclp r_into_rtranclp)
    show ?thesis by (rule torn_matchI [OF run m]) (use cut mm g' in simp_all)
  qed
qed

interpretation torn: bounded_simulation "\<lambda>t t'. (faulty_step be)\<^sup>*\<^sup>* t t'" "torn_step be" "torn_match be" torn_lim for be
proof
  show "torn_lim s" if "torn_step be s s'" "torn_lim s'" for s s' using torn_step_log [OF that(1)] that(2) by simp
next
  fix t s s' assume m: "torn_match be t s" "torn_lim s'" "torn_step be s s'"
  then have "torn_lim s" using torn_step_log [OF m(3)] by simp
  then show "torn_match be t s' \<or> (\<exists>t'. (faulty_step be)\<^sup>*\<^sup>* t t' \<and> torn_match be t' s')"
    using m(3) section_matched [OF _ m(1)] fault_matched [OF _ m(1)] cut_matched [OF _ m(1)]
    by (auto simp: torn_step_def faulty_step_def)
qed

lemma torn_start: "torn_match be (sys_init sockfd) (sys_init sockfd)"
  using faulty_start [of be sockfd] by (auto simp: torn_match_def heap_agrees_def fq_agrees_def list.rel_refl option.rel_refl)

section \<open>What the destination receives\<close>

text \<open>C13: for logs of at most 65536 blocks: however packets are lost and connections are cut inside a
  packet, after its sequence number, every byte the destination has received is the byte of the
  stream at that position, or one of those that \<open>rx_chain\<close> never wrote. (With more blocks, block
  65536 could take the place of a lost block 0.)\<close>

theorem cuts_keep_bytes:
  assumes "(torn_step be)\<^sup>*\<^sup>* (sys_init sockfd) s" and "length (pb_log (s_buff s)) \<le> 65536"
  shows "\<exists>n. int n \<le> pb_get_ind (s_buff s) \<and>
    list_all2 (\<lambda>x y. x = None \<or> x = y) (s_out s) (concat (take n (pb_log (s_buff s))))"
proof -
  from torn.simulate [OF assms(1) torn_start assms(2)] obtain t where m: "torn_match be t s" by blast
  obtain g q n flight where "sys_at be (with_lost g t) q n flight" by (rule torn_match_at [OF m assms(2)])
  with m show ?thesis by (auto simp: sys_at_def torn_match_def agrees_def)
qed

end
