(* ===== verification/Argv_Read.thy ===== *)
theory Argv_Read
  imports Prelude Logger
begin

text \<open>
  Reading the parameters of the programs, \<open>commons/argv_reader/argv_read.c\<close>: from the command
  line with \<open>getopt_long\<close>, or from a configuration section with libconfig. Both libraries are
  parameters: the results of the successive calls of \<open>getopt_long\<close> are a list, and
  \<open>config_setting_lookup_string\<close> is a partial function on keys.
\<close>

section \<open>Data\<close>

text \<open>
  \<open>arg_val_t\<close>; \<^term>\<open>None\<close> is a field that was never written, a value may be the null pointer.
  \<open>struct option\<close> with the fields the source reads.
\<close>

record arg_val_t =
  av_key :: "string option"
  av_val :: "string ref option"

record option_t =
  op_name :: string
  op_val :: int

section \<open>Operations\<close>

text \<open>The loop of \<open>init_arg_vals\<close> from index i on, k iterations left.\<close>

fun init_loop :: "option_t arr \<Rightarrow> nat \<Rightarrow> nat \<Rightarrow> arg_val_t list option" where
  "init_loop long_options i 0 = Some []"
| "init_loop long_options i (Suc k) = do {
     op \<leftarrow> arr_get long_options i;
     vs \<leftarrow> init_loop long_options (Suc i) k;
     Some (\<lparr>av_key = Some (op_name op), av_val = None\<rparr> # vs)
   }"

definition init_arg_vals :: "int \<Rightarrow> option_t arr \<Rightarrow> arg_val_t list option" where
  "init_arg_vals argnum long_options = init_loop long_options 0 (nat argnum)"

text \<open>
  The inner loop of \<open>argv_reader\<close>, for one result c of \<open>getopt_long\<close>: every option with that
  value is stored at the next position.
\<close>

fun argv_scan :: "option_t arr \<Rightarrow> int \<Rightarrow> string ref \<Rightarrow> nat \<Rightarrow> nat \<Rightarrow> arg_val_t list \<Rightarrow> nat \<Rightarrow>
    (arg_val_t list \<times> nat) option" where
  "argv_scan long_options c optarg i 0 vs cnt = Some (vs, cnt)"
| "argv_scan long_options c optarg i (Suc k) vs cnt = do {
     op \<leftarrow> arr_get long_options i;
     if op_val op = c
     then if cnt < length vs
       then argv_scan long_options c optarg (Suc i) k
              (vs[cnt := (vs ! cnt)\<lparr>av_key := Some (op_name op), av_val := Some optarg\<rparr>]) (Suc cnt)
       else None
     else argv_scan long_options c optarg (Suc i) k vs cnt
   }"

text \<open>\<open>'?'\<close> and \<open>':'\<close>.\<close>

definition opt_error :: "int \<Rightarrow> bool" where
  "opt_error c \<longleftrightarrow> c = 63 \<or> c = 58"

text \<open>The outer loop; \<^term>\<open>Waiting\<close> when the list of results ends too early.\<close>

fun argv_loop :: "option_t arr \<Rightarrow> int \<Rightarrow> (int \<times> string ref) list \<Rightarrow> arg_val_t list \<Rightarrow> nat \<Rightarrow>
    (int run \<times> arg_val_t list) option" where
  "argv_loop long_options argc [] vs cnt = Some (Waiting, vs)"
| "argv_loop long_options argc ((c, optarg) # calls) vs cnt = do {
     (vs1, cnt1) \<leftarrow> argv_scan long_options c optarg 0 (nat argc) vs cnt;
     if c = -1 then Some (Returned 0, vs1)
     else if opt_error c then Some (Returned (-1), vs1)
     else argv_loop long_options argc calls vs1 cnt1
   }"

definition argv_reader :: "arg_val_t list \<Rightarrow> option_t arr \<Rightarrow> (int \<times> string ref) list \<Rightarrow> int \<Rightarrow>
    (int run \<times> arg_val_t list) option" where
  "argv_reader argv_vals long_options calls argc = argv_loop long_options argc calls argv_vals 0"

text \<open>
  \<open>config_reader\<close>: \<^term>\<open>Null\<close> is a missing section. A failed lookup leaves the value as it was
  and ends the loop.
\<close>

fun config_loop :: "(string \<Rightarrow> string option) \<Rightarrow> nat \<Rightarrow> nat \<Rightarrow> arg_val_t list \<Rightarrow> (int \<times> arg_val_t list) option" where
  "config_loop lookup i 0 vs = Some (0, vs)"
| "config_loop lookup i (Suc k) vs =
     (if i < length vs
      then do {
        key \<leftarrow> av_key (vs ! i);
        (case lookup key of
           None \<Rightarrow> Some (-1, vs)
         | Some s \<Rightarrow> config_loop lookup (Suc i) k (vs[i := (vs ! i)\<lparr>av_val := Some (Ref s)\<rparr>]))
      }
      else None)"

definition config_reader :: "arg_val_t list \<Rightarrow> (string \<Rightarrow> string option) ref \<Rightarrow> int \<Rightarrow> (int \<times> arg_val_t list) option" where
  "config_reader arg_vals setting argc =
     (case setting of
        Null \<Rightarrow> Some (-1, arg_vals)
      | Ref lookup \<Rightarrow> config_loop lookup 0 (nat argc) arg_vals)"

text \<open>\<open>get_argv\<close>: the value of the first entry with the key, or the null pointer.\<close>

fun get_loop :: "string \<Rightarrow> arg_val_t list \<Rightarrow> nat \<Rightarrow> nat \<Rightarrow> string ref option" where
  "get_loop ch vs i 0 = Some Null"
| "get_loop ch vs i (Suc k) =
     (if i < length vs
      then do {
        key \<leftarrow> av_key (vs ! i);
        if key = ch then av_val (vs ! i) else get_loop ch vs (Suc i) k
      }
      else None)"

definition get_argv :: "string \<Rightarrow> arg_val_t list \<Rightarrow> int \<Rightarrow> string ref option" where
  "get_argv ch argv_vals argc = get_loop ch argv_vals 0 (nat argc)"

text \<open>\<open>print_argvs\<close>: the number, key and value of each entry; printing a null pointer is undefined.\<close>

fun print_rows :: "arg_val_t list \<Rightarrow> nat \<Rightarrow> nat \<Rightarrow> (nat \<times> string \<times> string) list option" where
  "print_rows vs i 0 = Some []"
| "print_rows vs i (Suc k) =
     (if i < length vs
      then do {
        key \<leftarrow> av_key (vs ! i);
        val \<leftarrow> av_val (vs ! i);
        (case val of
           Null \<Rightarrow> None
         | Ref s \<Rightarrow> do {
             rows \<leftarrow> print_rows vs (Suc i) k;
             Some ((i, key, s) # rows)
           })
      }
      else None)"

definition print_argvs :: "arg_val_t list \<Rightarrow> int \<Rightarrow> (nat \<times> string \<times> string) list option" where
  "print_argvs arg_vals argnum = print_rows arg_vals 0 (nat argnum)"

section \<open>The sample program of the file\<close>

definition argv_read_options :: "option_t list" where
  "argv_read_options = [\<lparr>op_name = ''key1'', op_val = 65\<rparr>, \<lparr>op_name = ''key2'', op_val = 66\<rparr>]"

definition example_usage :: "string list" where
  "example_usage = [''== example usage == '', ''./argv_read --key1=value1 --key2=value2'']"

definition argv_line :: "string \<Rightarrow> string ref \<Rightarrow> string" where
  "argv_line key val = (case val of Ref s \<Rightarrow> key @ '': '' @ s | Null \<Rightarrow> key @ '' is empty'')"

text \<open>\<open>main\<close> of \<open>argv_read.c\<close>: the status and the printed lines. The entries are allocated, not written.\<close>

definition argv_read_main :: "int \<Rightarrow> (int \<times> string ref) list \<Rightarrow> (int run \<times> string list) option" where
  "argv_read_main argc calls =
     (if argc = 3
      then do {
        (e, vs) \<leftarrow> argv_reader (replicate (nat (argc - 1)) \<lparr>av_key = None, av_val = None\<rparr>) (map Some argv_read_options) calls argc;
        (case e of
           Returned ret \<Rightarrow>
             if ret = 0
             then do {
               key1 \<leftarrow> get_argv ''key1'' vs (argc - 1);
               key2 \<leftarrow> get_argv ''key2'' vs (argc - 1);
               Some (Returned 0, [argv_line ''key1'' key1, argv_line ''key2'' key2])
             }
             else Some (Returned 0, [])
         | _ \<Rightarrow> Some (e, []))
      }
      else Some (Returned 0, example_usage))"

section \<open>Lemmas\<close>

lemma init_loop_keys:
  assumes "drop i opts = map Some os"
  shows "init_loop opts i (length os) = Some (map (\<lambda>op. \<lparr>av_key = Some (op_name op), av_val = None\<rparr>) os)"
  using assms
proof (induction os arbitrary: i)
  case (Cons op os)
  have "i < length opts" using Cons.prems by (metis drop_eq_Nil2 list.simps(9) list.distinct(1) not_le)
  then have "opts ! i = Some op" "drop (Suc i) opts = map Some os"
    using Cons.prems by (simp_all add: Cons_nth_drop_Suc [symmetric])
  with Cons.IH \<open>i < length opts\<close> show ?case by (simp add: arr_get_def)
qed simp

lemma init_arg_vals_keys:
  "init_arg_vals (int (length os)) (map Some os) =
    Some (map (\<lambda>op. \<lparr>av_key = Some (op_name op), av_val = None\<rparr>) os)"
  using init_loop_keys [of 0 "map Some os" os] by (simp add: init_arg_vals_def)

lemma config_loop_all:
  assumes "\<forall>op\<in>set os. lookup (op_name op) \<noteq> None"
  shows "config_loop lookup (length done) (length os)
      (done @ map (\<lambda>op. \<lparr>av_key = Some (op_name op), av_val = None\<rparr>) os) =
    Some (0, done @ map (\<lambda>op. \<lparr>av_key = Some (op_name op), av_val = Some (Ref (the (lookup (op_name op))))\<rparr>) os)"
  using assms
proof (induction os arbitrary: "done")
  case (Cons op os)
  from Cons.prems obtain s where s: "lookup (op_name op) = Some s" by auto
  let ?e = "\<lparr>av_key = Some (op_name op), av_val = Some (Ref s)\<rparr>"
  have "config_loop lookup (length (done @ [?e])) (length os)
      ((done @ [?e]) @ map (\<lambda>op. \<lparr>av_key = Some (op_name op), av_val = None\<rparr>) os) =
    Some (0, (done @ [?e]) @ map (\<lambda>op. \<lparr>av_key = Some (op_name op), av_val = Some (Ref (the (lookup (op_name op))))\<rparr>) os)"
    using Cons.prems by (intro Cons.IH) simp
  then show ?case by (simp add: s nth_append)
qed simp

lemma get_loop_first:
  assumes "op \<in> set os" and "distinct (map op_name os)"
  shows "get_loop (op_name op) (done @ map (\<lambda>op. \<lparr>av_key = Some (op_name op), av_val = v op\<rparr>) os) (length done) (length os) = v op"
  using assms
proof (induction os arbitrary: "done")
  case (Cons x os)
  let ?e = "\<lparr>av_key = Some (op_name x), av_val = v x\<rparr>"
  show ?case
  proof (cases "op = x")
    case False
    then have "op \<in> set os" "op_name x \<noteq> op_name op" using Cons.prems by auto
    then show ?thesis using Cons.IH [of "done @ [?e]"] Cons.prems(2) by (simp add: nth_append)
  qed (simp add: nth_append)
qed simp

text \<open>C36: a parameter the configuration section has reaches \<open>get_argv\<close> through
  \<open>init_arg_vals\<close> and \<open>config_reader\<close>.\<close>

theorem config_roundtrip:
  assumes "\<forall>op\<in>set os. lookup (op_name op) \<noteq> None" and "distinct (map op_name os)" and "op \<in> set os"
  shows "\<exists>vs vs'. init_arg_vals (int (length os)) (map Some os) = Some vs \<and>
    config_reader vs (Ref lookup) (int (length os)) = Some (0, vs') \<and>
    get_argv (op_name op) vs' (int (length os)) = Some (Ref (the (lookup (op_name op))))"
  using config_loop_all [OF assms(1), of "[]"]
    get_loop_first [OF assms(3,2), of "[]" "\<lambda>op. Some (Ref (the (lookup (op_name op))))"]
  by (simp add: init_arg_vals_keys config_reader_def get_argv_def)

text \<open>
  The command line: the inner loop of \<open>argv_reader\<close> runs to \<open>argc\<close>, which counts the program
  name too, so with as many options as parameters it reads one element past the table.
\<close>

lemma argv_scan_past_end:
  "i \<le> length opts \<Longrightarrow> length opts < i + k \<Longrightarrow> argv_scan opts c optarg i k vs cnt = None"
proof (induction k arbitrary: i vs cnt)
  case (Suc k)
  show ?case
  proof (cases "arr_get opts i")
    case None
    then show ?thesis by simp
  next
    case (Some op)
    have "argv_scan opts c optarg (Suc i) k vs' cnt' = None" for vs' cnt'
      using Suc Some by (simp add: arr_get_def split: if_splits)
    with Some show ?thesis by simp
  qed
qed simp

lemma argv_reader_past_end:
  assumes "length opts < nat argc" and "calls \<noteq> []"
  shows "argv_reader vs opts calls argc = None"
  using assms argv_scan_past_end [of 0 opts "nat argc"] by (cases calls) (auto simp: argv_reader_def)

text \<open>The documented call of the sample program reads past its table too.\<close>

lemma argv_read_main_past_end: "calls \<noteq> [] \<Longrightarrow> argv_read_main 3 calls = None"
  by (simp add: argv_read_main_def argv_read_options_def argv_reader_past_end)

text \<open>What \<open>print_argvs\<close> prints after the configuration was read: every key with its value, in order.\<close>

lemma print_rows_all:
  "print_rows (done @ map (\<lambda>op. \<lparr>av_key = Some (op_name op), av_val = Some (Ref (v op))\<rparr>) os) (length done) (length os) =
    Some (zip [length done..<length done + length os] (map (\<lambda>op. (op_name op, v op)) os))"
proof (induction os arbitrary: "done")
  case (Cons op os)
  let ?e = "\<lparr>av_key = Some (op_name op), av_val = Some (Ref (v op))\<rparr>"
  have "[length done..<length done + Suc (length os)] = length done # [Suc (length done)..<length done + Suc (length os)]"
    by (rule upt_conv_Cons) simp
  then show ?case using Cons.IH [of "done @ [?e]"] by (simp add: nth_append del: upt_Suc)
qed simp

lemma print_argvs_config:
  assumes "\<forall>op\<in>set os. lookup (op_name op) \<noteq> None"
  shows "\<exists>vs vs'. init_arg_vals (int (length os)) (map Some os) = Some vs \<and>
    config_reader vs (Ref lookup) (int (length os)) = Some (0, vs') \<and>
    print_argvs vs' (int (length os)) = Some (zip [0..<length os] (map (\<lambda>op. (op_name op, the (lookup (op_name op)))) os))"
  using config_loop_all [OF assms, of "[]"] print_rows_all [of "[]" "\<lambda>op. the (lookup (op_name op))" os]
  by (simp add: init_arg_vals_keys config_reader_def print_argvs_def)

end
