(* ===== verification/Stream_File.thy ===== *)
theory Stream_File
  imports Io Logger
begin

text \<open>
  The source program, \<open>stream/stream.c\<close> and \<open>stream/file_read/file_read.c\<close>: it reads a file
  block by block and writes it to a socket. A file is its list of bytes.
\<close>

section \<open>Operations\<close>

text \<open>\<open>get_file_size\<close>: the \<open>long\<close> of \<open>ftell\<close> is converted to \<open>int\<close>.\<close>

definition get_file_size :: "byte list \<Rightarrow> int" where
  "get_file_size fp = sint (of_nat (length fp) :: 32 word)"

text \<open>
  \<open>read_file\<close>: seek to \<open>start_byte\<close> and read; \<open>fread\<close> writes at most the requested bytes to
  the start of the buffer.
\<close>

definition read_file :: "byte list \<Rightarrow> int \<Rightarrow> int \<Rightarrow> byte arr \<Rightarrow> byte arr option" where
  "read_file fp start_byte end_byte buffer = do {
     nmemb \<leftarrow> cint (end_byte - start_byte);
     start \<leftarrow> cidx start_byte;
     arr_blit buffer 0 (take (nat nmemb) (drop start fp))
   }"

text \<open>The size of the next block.\<close>

definition stream_capacity :: "byte list \<Rightarrow> int \<Rightarrow> int \<Rightarrow> int" where
  "stream_capacity fp byte_count end_byte =
     (if end_byte < get_file_size fp then int BLOCKSIZE else get_file_size fp - byte_count)"

text \<open>
  The loop of \<open>stream\<close>: how it ends, and what reached the socket. The inner loop ends with
  \<open>temp_count = capacity\<close>; a result of \<open>write\<close> that is not positive is retried.
\<close>

function stream_loop :: "byte list \<Rightarrow> byte arr \<Rightarrow> int \<Rightarrow> int list \<Rightarrow> (fill_end \<times> byte arr) option" where
  "stream_loop fp thr_buff byte_count rs =
     (if byte_count < get_file_size fp
      then do {
        end_byte \<leftarrow> cint (byte_count + int BLOCKSIZE);
        let capacity = stream_capacity fp byte_count end_byte;
        buf \<leftarrow> read_file fp byte_count (byte_count + capacity) thr_buff;
        (case send_fill False (nat capacity) buf 0 rs of
           (e, wire, rs') \<Rightarrow>
             if e \<noteq> Filled then Some (e, wire)
             else do {
               (e', wire') \<leftarrow> stream_loop fp buf (byte_count + capacity) rs';
               Some (e', wire @ wire')
             })
      }
      else Some (Filled, []))"
  by pat_completeness auto
termination
  by (relation "measure (\<lambda>(fp, b, c, rs). nat (get_file_size fp - c))") (auto simp: stream_capacity_def BLOCKSIZE_def split: if_splits)

declare stream_loop.simps [simp del]

text \<open>\<open>stream\<close>, from the results of \<open>socket\<close>, \<open>connect\<close> and \<open>write\<close>.\<close>

definition stream :: "int \<Rightarrow> int \<Rightarrow> int list \<Rightarrow> byte list \<Rightarrow> (unit run \<times> byte arr) option" where
  "stream sockfd connect rs fp =
     (case LOG_ASSERT LL_ERROR (sockfd \<noteq> -1) (LOG_ASSERT LL_ERROR (connect \<noteq> -1) (Returned ())) of
        Returned u \<Rightarrow> do {
          (e, wire) \<leftarrow> stream_loop fp (arr_new BLOCKSIZE) 0 rs;
          Some (if e = Filled then Returned () else Waiting, wire)
        }
      | x \<Rightarrow> Some (x, []))"

section \<open>The socket receives the file\<close>

lemma get_file_size_small:
  assumes "int (length fp) < 2 ^ 31"
  shows "get_file_size fp = int (length fp)"
proof -
  have "signed_take_bit 31 (int (length fp)) = int (length fp)" using assms by (intro signed_take_bit_int_eq_self) auto
  then show ?thesis by (simp add: get_file_size_def signed_of_nat)
qed

lemma read_file_block:
  assumes "length buf = BLOCKSIZE" and "c + k \<le> length fp" and "k \<le> BLOCKSIZE" and "length fp < 2 ^ 31"
  shows "\<exists>buf'. read_file fp (int c) (int c + int k) buf = Some buf' \<and> length buf' = BLOCKSIZE \<and>
    take k buf' = map Some (take k (drop c fp))"
  using assms by (auto simp: read_file_def arr_blit_def int_range_def)

text \<open>What the loop writes, however \<open>write\<close> cuts it.\<close>

lemma stream_loop_correct:
  assumes "length fp + BLOCKSIZE \<le> 2 ^ 31 - 1" and "c \<le> length fp" and "length buf = BLOCKSIZE"
  shows "\<exists>e k. stream_loop fp buf (int c) rs = Some (e, map Some (take k (drop c fp))) \<and>
    (e = Filled \<longrightarrow> c + k = length fp)"
  using assms
proof (induction "length fp - c" arbitrary: c buf rs rule: less_induct)
  case less
  have size: "get_file_size fp = int (length fp)" using less.prems(1) by (intro get_file_size_small) simp
  show ?case
  proof (cases "c < length fp")
    case False
    then show ?thesis using less.prems(2) size by (simp add: stream_loop.simps [of fp buf])
  next
    case True
    define cap where "cap = min BLOCKSIZE (length fp - c)"
    have cap: "0 < cap" "c + cap \<le> length fp" "cap \<le> BLOCKSIZE" using True BLOCKSIZE_pos by (auto simp: cap_def)
    have capacity: "stream_capacity fp (int c) (int c + int BLOCKSIZE) = int cap"
      using True by (auto simp: stream_capacity_def size cap_def min_def)
    have rng: "int_range (int c + int BLOCKSIZE)" using less.prems(1) True by (simp add: int_range_def)
    obtain buf' where rd: "read_file fp (int c) (int c + int cap) buf = Some buf'" "length buf' = BLOCKSIZE"
      "take cap buf' = map Some (take cap (drop c fp))"
      using read_file_block [OF less.prems(3) cap(2,3)] less.prems(1) by auto
    obtain e w rs' where sf: "send_fill False cap buf' 0 rs = (e, w, rs')" by (metis prod_cases3)
    then obtain k where k: "w = take k buf'" "k \<le> cap" "e = Filled \<longrightarrow> k = cap"
      using send_fill_prefix [OF sf] cap(3) rd(2) by auto
    have w: "w = map Some (take k (drop c fp))"
    proof -
      have "w = take k (take cap buf')" using k by (simp add: min_absorb1)
      then show ?thesis unfolding rd(3) using k(2) by (simp add: take_map min_absorb1)
    qed
    have step: "stream_loop fp buf (int c) rs =
      (if e \<noteq> Filled then Some (e, w)
       else do { (e', wire') \<leftarrow> stream_loop fp buf' (int (c + cap)) rs'; Some (e', w @ wire') })"
      using True rng rd(1) sf by (simp add: stream_loop.simps [of fp buf] size capacity Let_def)
    show ?thesis
    proof (cases "e = Filled")
      case False
      then show ?thesis using step w by auto
    next
      case filled: True
      have "length fp - (c + cap) < length fp - c" using cap by simp
      from less.hyps [OF this less.prems(1) cap(2) rd(2)] obtain e' k' where
        ih: "stream_loop fp buf' (int (c + cap)) rs' = Some (e', map Some (take k' (drop (c + cap) fp)))"
          "e' = Filled \<longrightarrow> c + cap + k' = length fp" by blast
      have "w @ map Some (take k' (drop (c + cap) fp)) = map Some (take (cap + k') (drop c fp))"
        using w k(3) filled by (simp add: take_add add.commute)
      then show ?thesis using step filled ih by (intro exI [of _ e'] exI [of _ "cap + k'"]) (simp add: add.assoc)
    qed
  qed
qed

lemma stream_loop_ends:
  assumes "length fp + BLOCKSIZE \<le> 2 ^ 31 - 1" and "c \<le> length fp" and "length buf = BLOCKSIZE"
    and "length fp - c \<le> accepts rs"
  shows "\<exists>wire. stream_loop fp buf (int c) rs = Some (Filled, wire)"
  using assms
proof (induction "length fp - c" arbitrary: c buf rs rule: less_induct)
  case less
  have size: "get_file_size fp = int (length fp)" using less.prems(1) by (intro get_file_size_small) simp
  show ?case
  proof (cases "c < length fp")
    case False
    then show ?thesis using size by (simp add: stream_loop.simps [of fp buf])
  next
    case True
    define cap where "cap = min BLOCKSIZE (length fp - c)"
    have cap: "0 < cap" "c + cap \<le> length fp" "cap \<le> BLOCKSIZE" using True BLOCKSIZE_pos by (auto simp: cap_def)
    have capacity: "stream_capacity fp (int c) (int c + int BLOCKSIZE) = int cap"
      using True by (auto simp: stream_capacity_def size cap_def min_def)
    have rng: "int_range (int c + int BLOCKSIZE)" using less.prems(1) True by (simp add: int_range_def)
    obtain buf' where rd: "read_file fp (int c) (int c + int cap) buf = Some buf'" "length buf' = BLOCKSIZE"
      using read_file_block [OF less.prems(3) cap(2,3)] less.prems(1) by auto
    have enough: "cap \<le> accepts rs" using less.prems(4) by (simp add: cap_def)
    obtain w rs' where sf: "send_fill False cap buf' 0 rs = (Filled, w, rs')" "accepts rs \<le> accepts rs' + cap"
      using send_fill_completes [of cap 0 rs False buf'] enough by auto
    have "length fp - (c + cap) < length fp - c" "length fp - (c + cap) \<le> accepts rs'"
      using cap sf(2) less.prems(4) by auto
    from less.hyps [OF this(1) less.prems(1) cap(2) rd(2) this(2)] obtain wire where
      "stream_loop fp buf' (int (c + cap)) rs' = Some (Filled, wire)" by blast
    then show ?thesis using True rng rd(1) sf(1) by (simp add: stream_loop.simps [of fp buf] size capacity Let_def)
  qed
qed

lemma stream_returned:
  assumes "length fp + BLOCKSIZE \<le> 2 ^ 31 - 1" and "stream sockfd connect rs fp = Some (Returned (), wire)"
  shows "wire = map Some fp"
proof -
  have len: "length (arr_new BLOCKSIZE :: byte arr) = BLOCKSIZE" by simp
  have "stream_loop fp (arr_new BLOCKSIZE) (int 0) rs = Some (Filled, wire)"
    using assms(2) by (auto simp: stream_def split: Option.bind_splits run.splits if_splits)
  then show ?thesis using stream_loop_correct [OF assms(1) _ len, of 0 rs] by auto
qed

lemma stream_sends:
  assumes "length fp + BLOCKSIZE \<le> 2 ^ 31 - 1" and "sockfd \<noteq> -1" and "connect \<noteq> -1" and "length fp \<le> accepts rs"
  shows "stream sockfd connect rs fp = Some (Returned (), map Some fp)"
proof -
  have len: "length (arr_new BLOCKSIZE :: byte arr) = BLOCKSIZE" by simp
  obtain wire where w: "stream_loop fp (arr_new BLOCKSIZE) (int 0) rs = Some (Filled, wire)"
    using stream_loop_ends [OF assms(1) _ len, of 0 rs] assms(4) by auto
  then have "wire = map Some fp" using stream_loop_correct [OF assms(1) _ len, of 0 rs] by auto
  with w assms(2,3) show ?thesis by (simp add: stream_def)
qed

text \<open>C29: for a file of at most 2147482647 bytes (the length and one block fit an \<open>int\<close>): when as many
  calls of \<open>write\<close> accept something as the file has bytes, whatever amounts they accept and
  however many fail in between, the streamer ends and its socket has received exactly the
  file. (The size of a file of 2 GiB wraps in \<open>get_file_size\<close>.)\<close>

theorem stream_delivers:
  assumes "length fp + BLOCKSIZE \<le> 2 ^ 31 - 1" and "sockfd \<noteq> -1" and "connect \<noteq> -1" and "length fp \<le> accepts rs"
  shows "stream sockfd connect rs fp = Some (Returned (), map Some fp)"
  by (rule stream_sends [OF assms])

end
