(* ===== verification/Receive.thy ===== *)
theory Receive
  imports Io Logger
begin

text \<open>
  The destination program, \<open>receive/receive.c\<close>: it reads blocks from one connection and writes
  them to a file, with a log of byte totals (whose times are not modelled).
\<close>

section \<open>Operations\<close>

text \<open>
  \<open>sock_init\<close>, from the results of the socket calls. \<open>addr_set\<close> is whether \<open>getaddrinfo\<close> set \<open>addr\<close>,
  which is dereferenced for \<open>socket\<close> and \<open>bind\<close> and compared with null only afterwards.
\<close>

definition sock_init :: "int \<Rightarrow> int \<Rightarrow> int \<Rightarrow> int \<Rightarrow> bool \<Rightarrow> int run option" where
  "sock_init getaddrinfo sockfd setsockopt bind_ret addr_set =
     (if getaddrinfo \<noteq> 0 then Some (LOG_ASSERT LL_ERROR (getaddrinfo = 0) Waiting)
      else if \<not> addr_set then None
      else Some (LOG_ASSERT LL_ERROR (sockfd \<noteq> -1) (LOG_ASSERT LL_ERROR (setsockopt = 0)
        (LOG_ASSERT LL_ERROR (bind_ret \<noteq> -1) (LOG_ASSERT LL_ERROR addr_set (Returned sockfd))))))"

text \<open>
  \<open>fprintf(fp, "%s", buffer)\<close> of a character array: the bytes before the first zero, and
  undefined when the array has none.
\<close>

fun c_string :: "byte arr \<Rightarrow> byte list option" where
  "c_string [] = None"
| "c_string (x # xs) = do {
     b \<leftarrow> x;
     if b = 0 then Some []
     else do { bs \<leftarrow> c_string xs; Some (b # bs) }
   }"

text \<open>
  The last loop of \<open>recv_loop\<close>: bytes that compare equal to \<open>EOF\<close>, as a signed \<open>char\<close> does
  for 255, are skipped.
\<close>

fun put_chars :: "byte arr \<Rightarrow> nat \<Rightarrow> byte list option" where
  "put_chars buffer 0 = Some []"
| "put_chars [] (Suc k) = None"
| "put_chars (x # xs) (Suc k) = do {
     b \<leftarrow> x;
     bs \<leftarrow> put_chars xs k;
     Some (if b \<noteq> 255 then b # bs else bs)
   }"

text \<open>
  \<open>recv_loop\<close>: what is written to the file, and the totals written to the log. For each
  iteration the environment supplies the result of \<open>poll\<close> and the returned events.
\<close>

fun recv_loop :: "(int \<times> int) list \<Rightarrow> recv_ev list \<Rightarrow> int \<Rightarrow> (unit run \<times> byte list \<times> int list) option" where
  "recv_loop [] es tot = Some (Waiting, [], [])"
| "recv_loop ((r, revents) # polls) es tot =
     (if r > 0 \<and> revents = POLLIN
      then do {
        (e, buffer, recv_count, es') \<leftarrow> recv_fill True BLOCKSIZE (replicate BLOCKSIZE (Some 0)) 0 es;
        tot1 \<leftarrow> cint (tot + int recv_count);
        (case e of
           Stalled \<Rightarrow> Some (Waiting, [], [])
         | Filled \<Rightarrow> do {
             s \<leftarrow> c_string buffer;
             (e', out, sizes) \<leftarrow> recv_loop polls es' tot1;
             Some (e', s @ out, tot1 # sizes)
           }
         | Closed \<Rightarrow>
             if recv_count > 0
             then do {
               tot2 \<leftarrow> cint (tot1 + int recv_count);
               out \<leftarrow> put_chars buffer recv_count;
               Some (Returned (), out, [tot2])
             }
             else Some (Returned (), [], []))
      }
      else recv_loop polls es tot)"

text \<open>\<open>get_packets\<close>, from the result of \<open>sock_init\<close> and those of the socket calls.\<close>

definition get_packets :: "int run option \<Rightarrow> int \<Rightarrow> int \<Rightarrow> (int \<times> int) list \<Rightarrow> recv_ev list \<Rightarrow>
    (unit run \<times> byte list \<times> int list) option" where
  "get_packets sock listen accept polls es = do {
     e \<leftarrow> sock;
     (case e of
        Returned sockfd \<Rightarrow>
          (case LOG_ASSERT LL_ERROR (listen = 0) (LOG_ASSERT LL_ERROR (accept \<noteq> -1) (Returned ())) of
             Returned u \<Rightarrow> recv_loop polls es 0
           | e \<Rightarrow> Some (e, [], []))
      | Exited s \<Rightarrow> Some (Exited s, [], [])
      | Waiting \<Rightarrow> Some (Waiting, [], []))
   }"

section \<open>What is written\<close>

lemma c_string_map: "c_string (map Some bs @ x) = (if 0 \<in> set bs then Some (takeWhile (\<lambda>b. b \<noteq> 0) bs)
    else map_option ((@) bs) (c_string x))"
  by (induction bs) (auto simp: option.map_comp comp_def map_option_case split: option.splits)

lemma put_chars_map: "put_chars (map Some bs @ x) (length bs) = Some (filter (\<lambda>b. b \<noteq> 255) bs)"
  by (induction bs) auto

text \<open>A full block: only the bytes before its first zero are written.\<close>

lemma recv_block:
  assumes "BLOCKSIZE \<le> length (ev_bytes es)"
  shows "\<exists>es'. recv_fill True BLOCKSIZE (replicate BLOCKSIZE (Some 0)) 0 es =
      Some (Filled, map Some (take BLOCKSIZE (ev_bytes es)), BLOCKSIZE, es') \<and>
    ev_bytes es' = drop BLOCKSIZE (ev_bytes es) \<and> ev_ends es' = ev_ends es"
proof -
  obtain e es' where f: "recv_fill True BLOCKSIZE (replicate BLOCKSIZE (Some 0)) 0 es =
      Some (e, map Some (take BLOCKSIZE (ev_bytes es)) @ drop (length (ev_bytes es)) (replicate BLOCKSIZE (Some 0)),
        min BLOCKSIZE (length (ev_bytes es)), es')"
    and "ev_bytes es' = drop BLOCKSIZE (ev_bytes es)" "e = Filled" "ev_ends es' = ev_ends es"
    using recv_fill_correct [of BLOCKSIZE "replicate BLOCKSIZE (Some 0)" 0 es] assms by auto
  then show ?thesis using assms by (intro exI [of _ es']) simp
qed

text \<open>C30: a full block without a zero byte is printed with \<open>%s\<close> from an array that
  has no terminator: the read runs past the array.\<close>

theorem recv_loop_full_block:
  assumes "r > 0" and "BLOCKSIZE \<le> length (ev_bytes es)" and "0 \<notin> set (take BLOCKSIZE (ev_bytes es))"
  shows "recv_loop ((r, POLLIN) # polls) es tot = None"
proof -
  obtain es' where f: "recv_fill True BLOCKSIZE (replicate BLOCKSIZE (Some 0)) 0 es =
      Some (Filled, map Some (take BLOCKSIZE (ev_bytes es)), BLOCKSIZE, es')"
    using recv_block [OF assms(2)] by blast
  have "c_string (map Some (take BLOCKSIZE (ev_bytes es))) = None"
    using c_string_map [of "take BLOCKSIZE (ev_bytes es)" "[]"] assms(3) by simp
  then show ?thesis using f assms(1) by simp
qed

text \<open>Of a connection shorter than a block, everything except bytes 255 is
  written to the file, and the logged total is twice the number of bytes received.\<close>

lemma recv_loop_short:
  assumes "r > 0" and "ev_ends es" and "0 < length (ev_bytes es)" and "length (ev_bytes es) < BLOCKSIZE"
  shows "recv_loop ((r, POLLIN) # polls) es 0 =
    Some (Returned (), filter (\<lambda>b. b \<noteq> 255) (ev_bytes es), [2 * int (length (ev_bytes es))])"
proof -
  let ?bs = "ev_bytes es"
  obtain e es' where f: "recv_fill True BLOCKSIZE (replicate BLOCKSIZE (Some 0)) 0 es =
      Some (e, map Some ?bs @ drop (length ?bs) (replicate BLOCKSIZE (Some 0)), length ?bs, es')"
    and e: "e \<noteq> Filled" "e \<noteq> Stalled"
    using recv_fill_correct [of BLOCKSIZE "replicate BLOCKSIZE (Some 0)" 0 es] assms by auto
  then have "e = Closed" by (cases e) auto
  moreover have "int_range (int (length ?bs))" "int_range (2 * int (length ?bs))"
    using assms(4) by (auto simp: int_range_def BLOCKSIZE_def)
  ultimately show ?thesis using f assms(1,3) by (simp add: put_chars_map)
qed

end
