(* ===== verification/Mains.thy ===== *)
theory Mains
  imports Split Pool Argv_Read Stream_File Receive
begin

text \<open>
  The \<open>main\<close> functions of the four programs, the server of the receiver proxy
  (\<open>rx_proxy/boss_server.c\<close>) and the netfilter thread of the transmitter proxy. The results of
  the system calls and of libnetfilter_queue and libconfig come from the environment.
\<close>

section \<open>Parameters\<close>

text \<open>What \<open>config_read_file\<close> and \<open>config_lookup\<close> find: nothing readable, or a section or none.\<close>

datatype config = CfgError | CfgRead "(string \<Rightarrow> string option) ref"

definition ARGV_NUM :: int where
  "ARGV_NUM = 4"

text \<open>The tables \<open>long_options\<close>; the values are \<open>'A'\<close>, \<open>'B'\<close> and \<open>'C'\<close>. None has a terminator.\<close>

definition options3 :: "string \<Rightarrow> string \<Rightarrow> string \<Rightarrow> option_t list" where
  "options3 a b c = [\<lparr>op_name = a, op_val = 65\<rparr>, \<lparr>op_name = b, op_val = 66\<rparr>, \<lparr>op_name = c, op_val = 67\<rparr>]"

definition rx_options :: "option_t list" where
  "rx_options = options3 ''recv_port'' ''dest_port'' ''dest_ip''"

definition tx_options :: "option_t list" where
  "tx_options = options3 ''local_port'' ''rx_proxy_port'' ''rx_proxy_ip''"

definition stream_options :: "option_t list" where
  "stream_options = options3 ''dest_ip'' ''dest_port'' ''file_name''"

definition receive_options :: "option_t list" where
  "receive_options = options3 ''recv_port'' ''out'' ''log''"

text \<open>
  The first half of each \<open>main\<close>: \<open>Inl\<close> is the status \<open>main\<close> returns, \<open>Inr\<close> goes on.
  \<open>checked\<close> is whether the result of \<open>argv_reader\<close> is asserted (\<open>split.c\<close> does not), \<open>section\<close>
  whether a missing section is an error (only \<open>receive.c\<close> says so).
\<close>

definition read_args :: "bool \<Rightarrow> bool \<Rightarrow> option_t list \<Rightarrow> int \<Rightarrow> (int \<times> string ref) list \<Rightarrow> config \<Rightarrow>
    (int + arg_val_t list) run option" where
  "read_args checked needs_section opts argc calls cfg = do {
     vs \<leftarrow> init_arg_vals (ARGV_NUM - 1) (map Some opts);
     if argc = ARGV_NUM
     then do {
       (e, vs') \<leftarrow> argv_reader vs (map Some opts) calls ARGV_NUM;
       Some (case e of
               Returned ret \<Rightarrow> if checked then LOG_ASSERT LL_ERROR (ret = 0) (Returned (Inr vs')) else Returned (Inr vs')
             | Exited s \<Rightarrow> Exited s
             | Waiting \<Rightarrow> Waiting)
     }
     else if argc = 1
     then (case cfg of
             CfgError \<Rightarrow> Some (Returned (Inl (-1)))
           | CfgRead Null \<Rightarrow> Some (Returned (if needs_section then Inl (-1) else Inr vs))
           | CfgRead (Ref lookup) \<Rightarrow> do {
               (ret, vs') \<leftarrow> config_reader vs (Ref lookup) (ARGV_NUM - 1);
               Some (LOG_ASSERT LL_ERROR (ret = 0) (Returned (Inr vs')))
             })
     else Some (Returned (Inl (-1)))
   }"

text \<open>The three calls of \<open>get_argv\<close>, each followed by its assertion.\<close>

fun get_args :: "string list \<Rightarrow> arg_val_t list \<Rightarrow> string list run option" where
  "get_args [] vs = Some (Returned [])"
| "get_args (key # keys) vs = do {
     r \<leftarrow> get_argv key vs (ARGV_NUM - 1);
     (case r of
        Null \<Rightarrow> Some (LOG_ASSERT LL_ERROR False Waiting)
      | Ref s \<Rightarrow> do {
          e \<leftarrow> get_args keys vs;
          Some (case e of Returned ss \<Rightarrow> Returned (s # ss) | Exited x \<Rightarrow> Exited x | Waiting \<Rightarrow> Waiting)
        })
   }"

text \<open>Both halves: the parameters in the order of the keys, or the status \<open>main\<close> returns.\<close>

definition main_args :: "bool \<Rightarrow> bool \<Rightarrow> bool \<Rightarrow> option_t list \<Rightarrow> string list \<Rightarrow> int \<Rightarrow> (int \<times> string ref) list \<Rightarrow> config \<Rightarrow>
    (int + string list) run option" where
  "main_args fopen_ok checked needs_section opts keys argc calls cfg =
     (if \<not> fopen_ok then Some (Exited 1)
      else do {
        e \<leftarrow> read_args checked needs_section opts argc calls cfg;
        (case e of
           Returned (Inl s) \<Rightarrow> Some (Returned (Inl s))
         | Returned (Inr vs) \<Rightarrow> do {
             r \<leftarrow> get_args keys vs;
             Some (case r of Returned ss \<Rightarrow> Returned (Inr ss) | Exited x \<Rightarrow> Exited x | Waiting \<Rightarrow> Waiting)
           }
         | Exited x \<Rightarrow> Some (Exited x)
         | Waiting \<Rightarrow> Some Waiting)
      })"

section \<open>The receiver proxy\<close>

record rx_args_t =
  ra_sockfd :: int
  ra_poll_timeout :: int

record queue_args_t =
  qa_pl :: pool_t
  qa_dest_port :: string
  qa_dest_ip :: string

text \<open>\<open>sig_init\<close>, from the result of \<open>sigaction\<close>.\<close>

definition sig_init :: "int \<Rightarrow> unit run" where
  "sig_init sigaction = LOG_ASSERT LL_ERROR (sigaction = 0) (Returned ())"

text \<open>\<open>sigchld_handler\<close>: the number of children reaped before \<open>waitpid\<close> has none.\<close>

fun sigchld_handler :: "int list \<Rightarrow> nat" where
  "sigchld_handler [] = 0"
| "sigchld_handler (r # rs) = (if r > 0 then Suc (sigchld_handler rs) else 0)"

text \<open>
  \<open>accept_loop\<close>: for each connection the results of \<open>accept\<close> and \<open>pthread_create\<close> and the
  address; the arguments of the receiving threads that were created, in order.
\<close>

fun accept_loop :: "(int \<times> sockaddr \<times> int) list \<Rightarrow> (unit run \<times> rx_args_t list) option" where
  "accept_loop [] = Some (Waiting, [])"
| "accept_loop ((newfd, their_addr, create) # conns) =
     (if newfd = -1 then Some (LOG_ASSERT LL_ERROR (newfd \<noteq> -1) (Returned ()), [])
      else do {
        _ \<leftarrow> get_in_ipaddr their_addr;
        if create \<noteq> 0 then Some (LOG_ASSERT LL_ERROR (create = 0) (Returned ()), [])
        else do {
          (e, threads) \<leftarrow> accept_loop conns;
          Some (e, \<lparr>ra_sockfd = newfd, ra_poll_timeout = 100\<rparr> # threads)
        }
      })"

text \<open>
  \<open>server_start\<close>, from the results of the socket calls; \<open>addr_set\<close> is whether \<open>getaddrinfo\<close> set
  \<open>addr\<close>, which is dereferenced for \<open>socket\<close> and \<open>bind\<close> and compared with null only afterwards.
\<close>

definition server_start :: "int \<Rightarrow> int \<Rightarrow> int \<Rightarrow> int \<Rightarrow> bool \<Rightarrow> int \<Rightarrow> int \<Rightarrow> (int \<times> sockaddr \<times> int) list \<Rightarrow>
    (unit run \<times> rx_args_t list) option" where
  "server_start getaddrinfo sockfd setsockopt bind_ret addr_set listen sigaction conns =
     (if getaddrinfo \<noteq> 0 then Some (LOG_ASSERT LL_ERROR (getaddrinfo = 0) Waiting, [])
      else if \<not> addr_set then None
      else
        (case LOG_ASSERT LL_ERROR (sockfd \<noteq> -1) (LOG_ASSERT LL_ERROR (setsockopt = 0) (LOG_ASSERT LL_ERROR (bind_ret \<noteq> -1)
           (LOG_ASSERT LL_ERROR addr_set (LOG_ASSERT LL_ERROR (listen \<noteq> -1) (sig_init sigaction))))) of
           Returned u \<Rightarrow> accept_loop conns
         | e \<Rightarrow> Some (e, [])))"

text \<open>\<open>main\<close> of the receiver proxy up to the creation of the forwarding thread and the server.\<close>

definition rx_main :: "bool \<Rightarrow> int \<Rightarrow> (int \<times> string ref) list \<Rightarrow> config \<Rightarrow> int \<Rightarrow>
    (int + queue_args_t \<times> string) run option" where
  "rx_main fopen_ok argc calls cfg create = do {
     e \<leftarrow> main_args fopen_ok True False rx_options [''dest_ip'', ''dest_port'', ''recv_port''] argc calls cfg;
     Some (case e of
             Returned (Inr [dest_ip, dest_port, recv_port]) \<Rightarrow> LOG_ASSERT LL_ERROR (create = 0)
               (Returned (Inr (\<lparr>qa_pl = pool_init True True, qa_dest_port = dest_port, qa_dest_ip = dest_ip\<rparr>, recv_port)))
           | Returned (Inr _) \<Rightarrow> Waiting
           | Returned (Inl s) \<Rightarrow> Returned (Inl s)
           | Exited x \<Rightarrow> Exited x
           | Waiting \<Rightarrow> Waiting)
   }"

section \<open>The transmitter proxy\<close>

text \<open>
  \<open>nfqueue_get_syn\<close>: every packet is accepted, whatever \<open>nfq_set_verdict\<close> answers; the result
  is the verdict requested and the returned value. A missing packet header is reported and
  then dereferenced.
\<close>

datatype verdict = NF_ACCEPT "32 word"

definition nfqueue_get_syn :: "(32 word) ref \<Rightarrow> int \<Rightarrow> (verdict \<times> int) option" where
  "nfqueue_get_syn ph set_verdict =
     (case ph of
        Null \<Rightarrow> None
      | Ref packet_id \<Rightarrow> Some (NF_ACCEPT packet_id, 0))"

text \<open>
  \<open>queuer_loop\<close>: the messages handed to \<open>nfq_handle_packet\<close> until \<open>recv\<close> fails; a failure of
  the setup exits with status 0.
\<close>

fun queuer_recvs :: "int list \<Rightarrow> unit run \<times> nat" where
  "queuer_recvs [] = (Waiting, 0)"
| "queuer_recvs (rc # rcs) =
     (if rc \<ge> 0 then case queuer_recvs rcs of (e, n) \<Rightarrow> (e, Suc n) else (Returned (), 0))"

definition queuer_loop :: "bool \<Rightarrow> int \<Rightarrow> bool \<Rightarrow> int \<Rightarrow> int list \<Rightarrow> unit run \<times> nat" where
  "queuer_loop nfq_open bind_pf create_queue set_mode rcs =
     (if \<not> nfq_open \<or> bind_pf < 0 \<or> \<not> create_queue \<or> set_mode < 0 then (Exited 0, 0)
      else queuer_recvs rcs)"

text \<open>\<open>main\<close> of the transmitter proxy up to the creation of its three threads.\<close>

definition tx_main :: "bool \<Rightarrow> int \<Rightarrow> (int \<times> string ref) list \<Rightarrow> config \<Rightarrow> int \<Rightarrow> int \<Rightarrow> int \<Rightarrow> int \<Rightarrow>
    (int + split_args \<times> cb_cntrl_args) run option" where
  "tx_main fopen_ok argc calls cfg mutex_init create1 create2 create3 = do {
     e \<leftarrow> main_args fopen_ok False False tx_options [''rx_proxy_ip'', ''rx_proxy_port'', ''local_port''] argc calls cfg;
     (case e of
        Returned (Inr [dest_ip, dest_port, local_port]) \<Rightarrow> do {
          r \<leftarrow> set_split_args mutex_init local_port;
          Some (case r of
                  Returned split \<Rightarrow>
                    LOG_ASSERT LL_ERROR (create1 = 0) (LOG_ASSERT LL_ERROR (create2 = 0) (LOG_ASSERT LL_ERROR (create3 = 0)
                      (Returned (Inr (split, set_controller_args dest_ip dest_port (sa_buff split))))))
                | Exited x \<Rightarrow> Exited x
                | Waiting \<Rightarrow> Waiting)
        }
      | Returned (Inr _) \<Rightarrow> Some Waiting
      | Returned (Inl s) \<Rightarrow> Some (Returned (Inl s))
      | Exited x \<Rightarrow> Some (Exited x)
      | Waiting \<Rightarrow> Some Waiting)
   }"

section \<open>The source and the destination\<close>

text \<open>\<open>main\<close> of the streamer; \<open>files\<close> is what \<open>fopen\<close> can open.\<close>

definition stream_main :: "bool \<Rightarrow> int \<Rightarrow> (int \<times> string ref) list \<Rightarrow> config \<Rightarrow> (string \<Rightarrow> byte list option) \<Rightarrow>
    int \<Rightarrow> int \<Rightarrow> int list \<Rightarrow> (int run \<times> byte arr) option" where
  "stream_main fopen_ok argc calls cfg files sockfd connect rs = do {
     e \<leftarrow> main_args fopen_ok True False stream_options [''dest_ip'', ''dest_port'', ''file_name''] argc calls cfg;
     (case e of
        Returned (Inr [ip_addr, port, fname]) \<Rightarrow>
          (case files fname of
             None \<Rightarrow> Some (LOG_ASSERT LL_ERROR False Waiting, [])
           | Some fp \<Rightarrow> do {
               (e', wire) \<leftarrow> stream sockfd connect rs fp;
               Some (case e' of Returned u \<Rightarrow> Returned 0 | Exited x \<Rightarrow> Exited x | Waiting \<Rightarrow> Waiting, wire)
             })
      | Returned (Inr _) \<Rightarrow> Some (Waiting, [])
      | Returned (Inl s) \<Rightarrow> Some (Returned s, [])
      | Exited x \<Rightarrow> Some (Exited x, [])
      | Waiting \<Rightarrow> Some (Waiting, []))
   }"

text \<open>\<open>main\<close> of the destination; \<open>wrt_ok\<close> and \<open>res_ok\<close> are whether the two files open.\<close>

definition receive_main :: "bool \<Rightarrow> int \<Rightarrow> (int \<times> string ref) list \<Rightarrow> config \<Rightarrow> bool \<Rightarrow> bool \<Rightarrow>
    int run option \<Rightarrow> int \<Rightarrow> int \<Rightarrow> (int \<times> int) list \<Rightarrow> recv_ev list \<Rightarrow> (int run \<times> byte list \<times> int list) option" where
  "receive_main fopen_ok argc calls cfg wrt_ok res_ok sock listen accept polls es = do {
     e \<leftarrow> main_args fopen_ok True True receive_options [''recv_port'', ''out'', ''log''] argc calls cfg;
     (case e of
        Returned (Inr _) \<Rightarrow>
          if \<not> wrt_ok \<or> \<not> res_ok then Some (LOG_ASSERT LL_ERROR False Waiting, [], [])
          else do {
            (e', out, sizes) \<leftarrow> get_packets sock listen accept polls es;
            Some (case e' of Returned u \<Rightarrow> Returned 0 | Exited x \<Rightarrow> Exited x | Waiting \<Rightarrow> Waiting, out, sizes)
          }
      | Returned (Inl s) \<Rightarrow> Some (Returned s, [], [])
      | Exited x \<Rightarrow> Some (Exited x, [], [])
      | Waiting \<Rightarrow> Some (Waiting, [], []))
   }"

section \<open>Starting up\<close>

lemmas option_tables = rx_options_def tx_options_def stream_options_def receive_options_def options3_def

text \<open>With a configuration section that has every key, the keys' values are what \<open>main\<close> gets.\<close>

lemma get_args_config:
  assumes "\<forall>op\<in>set os. lookup (op_name op) \<noteq> None" and "distinct (map op_name os)" and "length os = 3"
    and "set keys \<subseteq> op_name ` set os"
    and "vs = map (\<lambda>op. \<lparr>av_key = Some (op_name op), av_val = Some (Ref (the (lookup (op_name op))))\<rparr>) os"
  shows "get_args keys vs = Some (Returned (map (\<lambda>k. the (lookup k)) keys))"
  using assms(4)
proof (induction keys)
  case (Cons key keys)
  then obtain op where op: "op \<in> set os" "op_name op = key" by auto
  have "get_argv key vs (ARGV_NUM - 1) = Some (Ref (the (lookup key)))"
    using get_loop_first [OF op(1) assms(2), of "[]" "\<lambda>op. Some (Ref (the (lookup (op_name op))))"] assms(3,5) op(2)
    by (simp add: get_argv_def ARGV_NUM_def)
  with Cons show ?case by simp
qed simp

text \<open>C32: with a configuration section that has every key of the table, \<open>main\<close> gets
  the values of the keys it asks for, in its order.\<close>

theorem main_args_config:
  assumes "\<forall>op\<in>set os. lookup (op_name op) \<noteq> None" and "distinct (map op_name os)" and "length os = 3"
    and "set keys \<subseteq> op_name ` set os"
  shows "main_args True checked needs os keys 1 calls (CfgRead (Ref lookup)) =
    Some (Returned (Inr (map (\<lambda>k. the (lookup k)) keys)))"
proof -
  have n: "ARGV_NUM - 1 = int (length os)" using assms(3) by (simp add: ARGV_NUM_def)
  have "read_args checked needs os 1 calls (CfgRead (Ref lookup)) = Some (Returned (Inr
      (map (\<lambda>op. \<lparr>av_key = Some (op_name op), av_val = Some (Ref (the (lookup (op_name op))))\<rparr>) os)))"
    using config_loop_all [OF assms(1), of "[]"]
    unfolding read_args_def n by (simp add: init_arg_vals_keys config_reader_def ARGV_NUM_def)
  then show ?thesis using get_args_config [OF assms(1-4) refl] by (simp add: main_args_def)
qed

text \<open>C33: on the command line, when \<open>getopt_long\<close> returns at least one result, every
  program reads past its table of three options:
  the inner loop of \<open>argv_reader\<close> runs to the number of arguments, which counts the program's
  name.\<close>

theorem main_args_command_line:
  assumes "length opts = 3" and "calls \<noteq> []"
  shows "main_args True checked needs opts keys ARGV_NUM calls cfg = None"
  using argv_reader_past_end [of "map Some opts" ARGV_NUM calls] assms init_arg_vals_keys [of opts]
  by (simp add: main_args_def read_args_def ARGV_NUM_def)

text \<open>Without its section in the configuration file, the destination returns -1,
  while the other programs go on and read a value that was never written.\<close>

lemma main_args_no_section:
  assumes "op \<in> set opts" and "distinct (map op_name opts)" and "length opts = 3"
  shows "main_args True checked False opts (op_name op # keys) 1 calls (CfgRead Null) = None \<and>
    main_args True checked True opts (op_name op # keys) 1 calls (CfgRead Null) = Some (Returned (Inl (-1)))"
proof -
  have n: "ARGV_NUM - 1 = int (length opts)" using assms(3) by (simp add: ARGV_NUM_def)
  let ?vs = "map (\<lambda>op. \<lparr>av_key = Some (op_name op), av_val = None\<rparr>) opts"
  have "get_argv (op_name op) ?vs (ARGV_NUM - 1) = None"
    using get_loop_first [OF assms(1,2), of "[]" "\<lambda>op. None"] by (simp add: get_argv_def n)
  moreover have "read_args checked needs opts 1 calls (CfgRead Null) = Some (Returned (if needs then Inl (-1) else Inr ?vs))" for needs
    unfolding read_args_def n by (simp add: init_arg_vals_keys ARGV_NUM_def)
  ultimately show ?thesis by (simp add: main_args_def)
qed

text \<open>The server creates one receiving thread per accepted connection, in order,
  with the descriptor of that connection, and waits for the next one.\<close>

lemma accept_loop_threads:
  assumes "\<forall>(fd, addr, create)\<in>set conns. fd \<noteq> -1 \<and> create = 0 \<and> get_in_ipaddr addr \<noteq> None"
  shows "accept_loop conns = Some (Waiting, map (\<lambda>(fd, _). \<lparr>ra_sockfd = fd, ra_poll_timeout = 100\<rparr>) conns)"
  using assms by (induction conns rule: accept_loop.induct) auto

end
