(* ===== verification/Examples.thy ===== *)
theory Examples
  imports Proxy_Types Proxy_Sections Proxy_Cuts Mains
begin

text \<open>
  Concrete states that satisfy the hypotheses of the properties: a queue of two packets, a
  pool of any number of consecutive packets, and a run of the whole system that carries one
  block from the splitting thread to the pool.
\<close>

section \<open>Two packets\<close>

text \<open>Nodes 0 and 1 are in the queue, which is full, with numbers 1 and 2; node 2 is not.\<close>

definition demo_block :: "byte \<Rightarrow> byte arr" where
  "demo_block b = replicate BLOCKSIZE (Some b)"

lemma length_demo_block: "length (demo_block b) = BLOCKSIZE"
  by (simp add: demo_block_def)

definition demo_q :: "node_t pqueue_t" where
  "demo_q = \<lparr>q_size = 3, q_avail = 3, q_step = 3, q_cmppri = cmp_pri, q_getpri = get_pri, q_setpri = set_pri,
     q_getpos = get_pos, q_setpos = set_pos, q_d = [None, Some 0, Some 1]\<rparr>"

definition demo_h :: "node_t nheap" where
  "demo_h = (\<lambda>_. None)(0 \<mapsto> \<lparr>n_pri = 1, n_raw_packet = demo_block 10, n_pos = 1\<rparr>,
     1 \<mapsto> \<lparr>n_pri = 2, n_raw_packet = demo_block 20, n_pos = 2\<rparr>,
     2 \<mapsto> \<lparr>n_pri = 0, n_raw_packet = demo_block 30, n_pos = 0\<rparr>)"

definition demo_fq :: fqueue_t where
  "demo_fq = (wait2forward_fq 5)\<lparr>fq_sent := 0\<rparr>"

lemma demo_slots: "1 \<le> j \<and> j < q_size demo_q \<longleftrightarrow> j = 1 \<or> j = 2"
  by (auto simp: demo_q_def)

lemma demo_slot: "slot demo_q 1 = 0" "slot demo_q 2 = 1" "slot demo_q (Suc 0) = 0"
  by (simp_all add: slot_def demo_q_def numeral_2_eq_2)

lemma demo_prio: "prio demo_h 0 = 1" "prio demo_h 1 = 2" "prio demo_h (Suc 0) = 2" "prio demo_h 2 = 0"
  by (simp_all add: prio_def demo_h_def)

lemma demo_ptrs: "pq_ptrs demo_q = {0, 1}"
proof -
  have "{1..<q_size demo_q} = {1, 2}" by (auto simp: demo_q_def)
  then show ?thesis by (simp add: pq_ptrs_def demo_slot)
qed

lemma demo_shape: "pq_shape demo_q"
  using cmp_pri.pri_order_axioms by (simp add: pq_shape_def std_callbacks_def demo_q_def)

lemma demo_valid: "pq_valid demo_q demo_h"
proof -
  have "slot_ok demo_q demo_h 1" "slot_ok demo_q demo_h 2" by (simp_all add: slot_ok_def demo_q_def demo_h_def numeral_2_eq_2)
  then have "pq_inv demo_q demo_h" using demo_shape demo_slots by (auto simp: pq_inv_def)
  moreover have "heap_ok cmp_pri (\<lambda>j. prio demo_h (slot demo_q j)) 3"
    unfolding heap_ok_def
  proof (intro allI impI)
    fix j :: nat assume "2 \<le> j \<and> j < 3"
    then have "j = 2" by simp
    then show "\<not> cmp_pri (prio demo_h (slot demo_q (j div 2))) (prio demo_h (slot demo_q j))"
      by (simp add: demo_slot demo_prio cmp_pri_def)
  qed
  ultimately show ?thesis by (simp add: pq_valid_def pq_order_def) (simp add: demo_q_def)
qed

lemma demo_rx: "rx_queue demo_q demo_h"
  using demo_valid by (simp add: rx_queue_def pq_ok_def demo_ptrs demo_prio) (simp add: demo_q_def)

lemma demo_items: "pool_items demo_q demo_h = {(1, demo_block 10), (2, demo_block 20)}"
proof -
  have "node_raw demo_h 0 = demo_block 10" "node_raw demo_h 1 = demo_block 20" by (simp_all add: node_raw_def demo_h_def)
  then show ?thesis by (simp add: pool_items_def demo_ptrs demo_prio)
qed

lemma demo_room: "pq_room True demo_q"
  by (simp add: pq_room_def demo_q_def)

lemma demo_fq_ok: "fq_ok demo_fq 1" "fill_room demo_fq m"
  by (simp_all add: demo_fq_def wait2forward_fq_def INIT_QUEUE_SIZE_def fq_ok_def fill_room_def)

definition demo_pl :: pool_t where
  "demo_pl = \<lparr>pl_pq = Ref demo_q, pl_avail_min_seq = 0, pl_sent_min_seq = 1, pl_cond = 0\<rparr>"

lemma demo_pl: "pl_pq demo_pl = Ref demo_q" "counters_ok demo_pl"
  by (simp_all add: demo_pl_def counters_ok_def int_range_def)

section \<open>A pool of consecutive packets\<close>

lemma pool_exists:
  assumes "n + k \<le> 65536"
  shows "\<exists>q h. rx_queue q h \<and> pool_items q h = (\<lambda>i. (i, raw)) ` {n..<n + k} \<and> q_size q = Suc k \<and> q_step q = 11 \<and>
    (\<forall>p\<ge>k. h p = None)"
  using assms
proof (induction k)
  case 0
  obtain q where "rx_queue q (\<lambda>_. None)" "pool_items q (\<lambda>_. None) = {}" "q_size q = 1" "q_step q = 11"
    by (rule pool_init_queue)
  then show ?case by auto
next
  case (Suc k)
  then obtain q h where ih: "rx_queue q h" "pool_items q h = (\<lambda>i. (i, raw)) ` {n..<n + k}" "q_size q = Suc k" "q_step q = 11"
    "\<forall>p\<ge>k. h p = None" by auto
  let ?nd = "\<lparr>n_pri = of_nat (n + k), n_raw_packet = raw, n_pos = 0\<rparr>" and ?h = "h(k \<mapsto> \<lparr>n_pri = of_nat (n + k), n_raw_packet = raw, n_pos = 0\<rparr>)"
  have fresh: "h k = None" using ih(5) by simp
  note fr = rx_queue_fresh(1,2) [OF ih(1) fresh, where n = ?nd]
  have ns: "prio ?h k = of_nat (n + k)" "node_raw ?h k = raw" "?h k \<noteq> None" by (simp_all add: prio_fresh node_raw_fresh)
  have seq: "unat (of_nat (n + k) :: ulonglong) = n + k" using Suc.prems by (simp add: unat_of_nat del: of_nat_add)
  have new: "prio ?h k \<notin> prio ?h ` pq_ptrs q"
  proof
    assume "prio ?h k \<in> prio ?h ` pq_ptrs q"
    then obtain p where "p \<in> pq_ptrs q" "prio ?h p = of_nat (n + k)" using ns by auto
    then have "(n + k, node_raw ?h p) \<in> pool_items q ?h" using seq by (force simp: pool_items_def)
    then show False using fr(2) ih(2) by auto
  qed
  have room: "pq_room True q" using ih(3,4) Suc.prems by (simp add: pq_room_def)
  obtain q' h' where "pqueue_insert True (Ref q) ?h k = Some (0, Ref q', h')" and rx': "rx_queue q' h'" and same: "same_nodes ?h h'"
    and items: "pool_items q' h' = insert (unat (prio ?h k), node_raw ?h k) (pool_items q ?h)"
    and size: "q_size q' = Suc (q_size q)" and cfg: "same_config q q'" and "pq_ptrs q' = insert k (pq_ptrs q)"
    by (rule rx_push [OF fr(1) ns(3) new room])
  have "pool_items q' h' = (\<lambda>i. (i, raw)) ` {n..<n + Suc k}"
    unfolding items ns fr(2) ih(2) seq by (simp add: atLeastLessThanSuc)
  moreover have "h' p = None" if "p \<ge> Suc k" for p
    using same_nodes_None [OF same, of p] ih(5) that by simp
  ultimately show ?case using rx' size cfg ih(3,4) by (auto simp: same_config_def)
qed

section \<open>One block through the system\<close>

lemma one_block_added:
  assumes "length blk = BLOCKSIZE"
  obtains d b1 where "add2buff 0 0 (s_buff (sys_init 3)) blk (int BLOCKSIZE) = Some (Returned d, b1)" and "pb_inv b1"
    and "pb_log b1 = [blk]" and "pb_get_ind b1 = 0" and "pb_set_ind b1 = 0"
proof -
  let ?b0 = "s_buff (sys_init 3)"
  have inv0: "pb_inv ?b0" and log0: "pb_log ?b0 = []" and get0: "pb_get_ind ?b0 = 0" using sys_init_facts [of 3] by blast+
  have set0: "pb_set_ind ?b0 = -1" using length_pb_log [OF inv0] log0 by simp
  then have lim: "pb_set_ind ?b0 < 2147482" by simp
  from add2buff_correct [OF inv0 lim zero_residue_full assms] obtain d b1 where
    b1: "add2buff 0 0 ?b0 blk (int BLOCKSIZE) = Some (Returned d, b1)" "pb_inv b1" "pb_log b1 = pb_log ?b0 @ [blk]"
      "pb_get_ind b1 = pb_get_ind ?b0" by blast
  moreover have "pb_set_ind b1 = 0" using length_pb_log [OF b1(2)] b1(3) log0 by simp
  ultimately show thesis using that log0 get0 by simp
qed

lemma sys_reach_run: "sys_reach be s0 s \<Longrightarrow> (sys_step be)\<^sup>*\<^sup>* s0 s"
  by (induction rule: sys_reach.induct) (auto intro: rtranclp.rtrancl_into_rtrancl)

text \<open>The block is added, taken and sent: its packet is in transit on the first connection.\<close>

lemma one_block_sent:
  obtains s where "sys_reach be (sys_init 3) s" and "pb_log (s_buff s) = [demo_block 7]" and "pb_get_ind (s_buff s) = 1"
    and "pb_set_ind (s_buff s) = 0" and "s_chans s = [packet_bytes be \<lparr>ep_seq = 0, ep_raw_packet = demo_block 7\<rparr>, []]"
    and "s_pl s = pool_init True True" and "s_h s = (\<lambda>_. None)" and "s_fq s = wait2forward_fq 3" and "s_out s = []"
proof -
  let ?s0 = "sys_init 3" and ?blk = "demo_block 7"
  note init = sys_init_facts [of 3]
  obtain d b1 where add: "add2buff 0 0 (s_buff ?s0) ?blk (int BLOCKSIZE) = Some (Returned d, b1)" and inv1: "pb_inv b1"
    and log1: "pb_log b1 = [?blk]" and get1: "pb_get_ind b1 = 0" and set1: "pb_set_ind b1 = 0"
    by (rule one_block_added [OF length_demo_block])
  define s1 where "s1 = ?s0\<lparr>s_buff := b1\<rparr>"
  have step1: "sys_step be ?s0 s1" unfolding s1_def using length_demo_block add BLOCKSIZE_pos by (intro sys_step.split) auto
  let ?p = "\<lparr>ep_seq = 0, ep_raw_packet = ?blk\<rparr>" and ?b2 = "b1\<lparr>pb_get_ind := 1\<rparr>"
  have take1: "tx_take b1 = Some (TxPacket ?p, ?b2)" using tx_take_packet(1) [OF inv1] set1 get1 log1 by simp
  have "send_fill True PACKET_SIZE (packet_bytes be ?p) 0 [int PACKET_SIZE] = (Filled, packet_bytes be ?p, [])"
    by (simp add: length_packet_bytes length_demo_block send_count_def PACKET_SIZE_def)
  then have tx: "tx_round be 0 0 link_ACTIVE [int PACKET_SIZE] (s_buff s1) = Some (Returned True, packet_bytes be ?p, ?b2)"
    using take1 by (simp add: tx_round_def s1_def link_ACTIVE_def link_PASSIVE_def)
  have chans1: "s_chans s1 = [[], []]" using init by (simp add: s1_def)
  define s2 where "s2 = s1\<lparr>s_buff := ?b2, s_chans := (s_chans s1)[0 := s_chans s1 ! 0 @ packet_bytes be ?p]\<rparr>"
  have "sys_step be s1 s2" unfolding s2_def using chans1 by (intro sys_step.tx [OF _ tx]) simp
  then have "sys_reach be ?s0 s2" using sys_reach.start step1 by (blast intro: sys_reach.step)
  moreover have "pb_log ?b2 = [?blk]" using log1 by (simp add: pb_log_def)
  ultimately show thesis using set1 chans1 init by (intro that [of s2]) (simp_all add: s2_def s1_def)
qed

text \<open>A packet that arrives in the empty pool, whole or not.\<close>

lemma first_packet:
  "\<exists>pl' h' q'. add2queue be True (pool_init True True) (\<lambda>_. None) 0 (packet_bytes be p) = Some (pl', h') \<and>
    pl_pq pl' = Ref q' \<and> rx_queue q' h' \<and> pool_items q' h' = {(unat (ep_seq p), ep_raw_packet p)} \<and> pl_sent_min_seq pl' = 0"
proof -
  obtain q where q: "pl_pq (pool_init True True) = Ref q" "rx_queue q (\<lambda>_. None)" "pool_items q (\<lambda>_. None) = {}" "q_size q = 1" "q_avail q = 11"
    by (rule pool_init_queue)
  have rng: "int_range (pl_avail_min_seq (pool_init True True) + 1)" "int_range (pl_sent_min_seq (pool_init True True) + 1)"
    by (simp_all add: pool_init_def int_range_def)
  have room: "pq_room True q" using q by (simp add: pq_room_def)
  from add2queue_correct [OF q(1,2) refl _ room rng, of p be 0] q(3) show ?thesis
    by (auto simp: add2queue_counters_def pool_init_def)
qed

lemma one_block_run:
  "\<exists>s. sys_reach be (sys_init 3) s \<and> pb_log (s_buff s) = [demo_block 7] \<and>
    pb_get_ind (s_buff s) = pb_set_ind (s_buff s) + 1 \<and> (\<forall>ch\<in>set (s_chans s). ch = []) \<and> s_fq s = wait2forward_fq 3"
proof -
  let ?p = "\<lparr>ep_seq = 0, ep_raw_packet = demo_block 7\<rparr>"
  obtain s where s: "sys_reach be (sys_init 3) s" "pb_log (s_buff s) = [demo_block 7]" "pb_get_ind (s_buff s) = 1"
    "pb_set_ind (s_buff s) = 0" "s_chans s = [packet_bytes be ?p, []]" "s_pl s = pool_init True True" "s_h s = (\<lambda>_. None)"
    "s_fq s = wait2forward_fq 3" by (rule one_block_sent)
  have plen: "length (packet_bytes be ?p) = PACKET_SIZE" by (simp add: length_packet_bytes length_demo_block)
  obtain pl' h' where add: "add2queue be True (s_pl s) (s_h s) 0 (packet_bytes be ?p) = Some (pl', h')"
    using first_packet [of be ?p] s by auto
  obtain q where q: "pl_pq (pool_init True True) = Ref q" "q_size q = 1" "q_avail q = 11" by (rule pool_init_queue)
  let ?s = "s\<lparr>s_chans := (s_chans s)[0 := drop PACKET_SIZE (s_chans s ! 0)], s_pl := pl', s_h := h'\<rparr>"
  have "sys_step be s ?s"
    using s q add plen by (intro sys_step.rx [where q = q and ok = True and ns = 0]) (simp_all add: pq_room_def)
  with s plen show ?thesis by (intro exI [of _ ?s]) (auto intro: sys_reach.step)
qed

text \<open>The connection ends after 600 bytes of the payload, and the block is forwarded.\<close>

lemma one_block_cut:
  obtains s where "(torn_step be)\<^sup>*\<^sup>* (sys_init 3) s" and "pb_log (s_buff s) = [demo_block 7]"
    and "s_out s = take 600 (demo_block 7) @ arr_new 400"
proof -
  let ?p = "\<lparr>ep_seq = 0, ep_raw_packet = demo_block 7\<rparr>" and ?raw = "take 600 (demo_block 7) @ arr_new 400"
  let ?p' = "\<lparr>ep_seq = 0, ep_raw_packet = take 600 (demo_block 7) @ arr_new 400\<rparr>"
  obtain s where s: "sys_reach be (sys_init 3) s" "pb_log (s_buff s) = [demo_block 7]" "pb_get_ind (s_buff s) = 1"
    "pb_set_ind (s_buff s) = 0" "s_chans s = [packet_bytes be ?p, []]" "s_pl s = pool_init True True" "s_h s = (\<lambda>_. None)"
    "s_fq s = wait2forward_fq 3" "s_out s = []" by (rule one_block_sent)
  obtain pl' h' q' where add: "add2queue be True (pool_init True True) (\<lambda>_. None) 0 (packet_bytes be ?p') = Some (pl', h')"
    and pl': "pl_pq pl' = Ref q'" "rx_queue q' h'" "pl_sent_min_seq pl' = 0" and items: "pool_items q' h' = {(0, ?raw)}"
    using first_packet [of be ?p'] by auto
  obtain q where q: "pl_pq (pool_init True True) = Ref q" "q_size q = 1" "q_avail q = 11" by (rule pool_init_queue)
  let ?s1 = "s\<lparr>s_chans := (s_chans s)[0 := []], s_pl := pl', s_h := h'\<rparr>"
  have raw: "take 602 (packet_bytes be ?p) @ arr_new (PACKET_SIZE - 602) = packet_bytes be ?p'"
    by (simp add: packet_bytes_def PACKET_SIZE_def BLOCKSIZE_def)
  have "cut be s ?s1"
    using s q add raw by (intro cut.cut [where k = 602 and ns = 0 and q = q and ok = True])
      (simp_all add: PACKET_SIZE_def BLOCKSIZE_def pq_room_def length_packet_bytes length_demo_block)
  then have step: "torn_step be s ?s1" by (simp add: torn_step_def)
  have start: "(torn_step be)\<^sup>*\<^sup>* (sys_init 3) s"
    using sys_reach_run [OF s(1)] by (rule rtranclp_mono [THEN predicate2D, rotated]) (auto simp: torn_step_def faulty_step_def)
  have raws: "raws = [?raw]" if "numbered 0 raws \<subseteq> {(0, ?raw)}" "length raws \<noteq> 0" for raws
    using that by (cases raws; cases "tl raws") (auto simp: numbered_Cons)
  have rs: "whole_sends [1000]" "accepts [1000] = 1" by (simp_all add: whole_sends_def accepts_def BLOCKSIZE_def)
  have "seqs_from 0 (pool_items q' h')" "\<forall>(j, raw)\<in>pool_items q' h'. length raw = BLOCKSIZE"
    by (simp_all add: items seqs_from_def BLOCKSIZE_def demo_block_def)
  from forward_round_correct [OF pl'(1,2) this fq_ok_init fill_room_init _ rs(1), of True 3] items rs(2) pl'(3)
  obtain bs pl2 h2 fq2 where bs: "numbered 0 bs \<subseteq> {(0, ?raw)}" "length bs \<noteq> 0"
    and "forward_round True 0 [1000] pl' h' (wait2forward_fq 3) = Some (Returned (), concat bs, pl2, h2, fq2)" by auto
  then have fwd: "forward_round True 0 [1000] pl' h' (wait2forward_fq 3) = Some (Returned (), ?raw, pl2, h2, fq2)"
    by (simp add: raws [OF bs])
  let ?s2 = "?s1\<lparr>s_pl := pl2, s_h := h2, s_fq := fq2, s_out := s_out ?s1 @ ?raw\<rparr>"
  have "sys_step be ?s1 ?s2"
    using pl'(1) fwd s(8) rs by (intro sys_step.fwd [where q = q' and rs = "[1000]" and r = True]) (simp_all add: items fill_room_init)
  then have "torn_step be ?s1 ?s2" by (simp add: torn_step_def faulty_step_def)
  with start step have "(torn_step be)\<^sup>*\<^sup>* (sys_init 3) ?s2" by (blast intro: rtranclp.rtrancl_into_rtrancl)
  then show thesis by (rule that) (simp_all add: s)
qed

text \<open>The same block at the grain of single calls: it is added, and a connection thread can take it.\<close>

lemma one_block_bytes:
  assumes len: "length blk = BLOCKSIZE"
  obtains b b' where "b_reach be 3 b" and "pb_log (b_buff b) = [blk]" and "b_work be b b'"
proof -
  obtain d b1 where add: "add2buff 0 0 (s_buff (sys_init 3)) blk (int BLOCKSIZE) = Some (Returned d, b1)" and inv1: "pb_inv b1"
    and log1: "pb_log b1 = [blk]" and get1: "pb_get_ind b1 = 0" and set1: "pb_set_ind b1 = 0" by (rule one_block_added [OF len])
  define b where "b = (b_init 3)\<lparr>b_buff := b1\<rparr>"
  have "b_other (b_init 3) b"
    unfolding b_def using len add BLOCKSIZE_pos by (intro b_other.split [where raw_buf = blk]) (simp_all add: b_init_def Let_def)
  then have reach: "b_reach be 3 b" by (intro r_into_rtranclp) (simp add: b_step_def)
  have "tx_take b1 = Some (TxPacket \<lparr>ep_seq = of_int 0, ep_raw_packet = blk\<rparr>, b1\<lparr>pb_get_ind := 1\<rparr>)"
    using tx_take_packet(1) [OF inv1] set1 get1 log1 by simp
  then have take: "tx_take (b_buff b) = Some (TxPacket \<lparr>ep_seq = of_int 0, ep_raw_packet = blk\<rparr>, b1\<lparr>pb_get_ind := 1\<rparr>)"
    by (simp add: b_def)
  have tx: "b_tx b = [None, None]" using sys_init_facts [of 3] by (simp add: b_def b_init_def Let_def)
  show thesis using log1 tx by (intro that [OF reach _ b_work.take [OF _ _ take, of 0]]) (simp_all add: b_def)
qed

text \<open>The same block taken by a connection thread that finds its connection closed.\<close>

lemma one_block_lost:
  obtains s buff' where "(faulty_step be)\<^sup>*\<^sup>* (sys_init 3) s" and "pb_log (s_buff s) = [demo_block 7]"
    and "tx_round be 0 0 link_ACTIVE [0] (s_buff s) = Some (Returned False, [], buff')" and "buff' = (s_buff s)\<lparr>pb_get_ind := 1\<rparr>"
    and "pb_get_ind (s_buff s) = 0" and "pb_set_ind (s_buff s) = 0" and "s_out s = []"
proof -
  let ?s0 = "sys_init 3" and ?blk = "demo_block 7"
  obtain d b1 where add: "add2buff 0 0 (s_buff ?s0) ?blk (int BLOCKSIZE) = Some (Returned d, b1)" and inv1: "pb_inv b1"
    and log1: "pb_log b1 = [?blk]" and get1: "pb_get_ind b1 = 0" and set1: "pb_set_ind b1 = 0"
    by (rule one_block_added [OF length_demo_block])
  have "sys_step be ?s0 (?s0\<lparr>s_buff := b1\<rparr>)" using length_demo_block add BLOCKSIZE_pos by (intro sys_step.split) auto
  then have "(faulty_step be)\<^sup>*\<^sup>* ?s0 (?s0\<lparr>s_buff := b1\<rparr>)" by (intro r_into_rtranclp) (simp add: faulty_step_def)
  moreover have "tx_round be 0 0 link_ACTIVE [0] b1 = Some (Returned False, [], b1\<lparr>pb_get_ind := 1\<rparr>)"
    using tx_packet_lost [OF inv1, of be link_ACTIVE "[]"] set1 get1 log1 by (simp add: LOG_LIMIT_def)
  ultimately show thesis using log1 get1 set1 sys_init_facts [of 3] by (intro that [of "?s0\<lparr>s_buff := b1\<rparr>"]) simp_all
qed

end
