(* ===== verification/Sample.thy ===== *)
theory Sample
  imports Queue_Clients
begin

text \<open>
  The usage sample of the queue library, \<open>rx_proxy/libpqueue/sample.c\<close>: a client with its own
  nodes and callbacks. The lines it prints are data. The definitions follow the sample as a
  client of \<open>pqueue.c\<close>; as the file stands it redeclares \<open>struct node_t\<close> and the callbacks of
  \<open>pqueue.h\<close>.
\<close>

section \<open>Nodes and callbacks\<close>

record sample_node_t =
  sn_pri :: ulonglong
  sn_val :: int
  sn_pos :: nat

definition sample_cmp_pri :: "ulonglong \<Rightarrow> ulonglong \<Rightarrow> bool" where
  "sample_cmp_pri nxt cur \<longleftrightarrow> nxt < cur"

definition sample_get_pri :: "sample_node_t \<Rightarrow> ulonglong" where
  "sample_get_pri a = sn_pri a"

definition sample_set_pri :: "sample_node_t \<Rightarrow> ulonglong \<Rightarrow> sample_node_t" where
  "sample_set_pri a p = a\<lparr>sn_pri := p\<rparr>"

definition sample_get_pos :: "sample_node_t \<Rightarrow> nat" where
  "sample_get_pos a = sn_pos a"

definition sample_set_pos :: "sample_node_t \<Rightarrow> nat \<Rightarrow> sample_node_t" where
  "sample_set_pos a i = a\<lparr>sn_pos := i\<rparr>"

text \<open>The callbacks keep the contract of the queue; whatever is computed from \<open>val\<close> is unchanged.\<close>

interpretation sample_cmp: pri_order sample_cmp_pri
  by unfold_locales (auto simp: sample_cmp_pri_def)

interpretation sample_nodes: node_callbacks sample_get_pri sample_set_pri sample_get_pos sample_set_pos "\<lambda>n. f (sn_val n)" for f
  by unfold_locales (simp_all add: sample_get_pri_def sample_set_pri_def sample_get_pos_def sample_set_pos_def)

section \<open>The program\<close>

datatype sample_line = Line_peek ulonglong int | Line_entry ulonglong | Line_pop ulonglong int

text \<open>
  \<open>ns[i].pri = pri; ns[i].val = val; pqueue_insert(pq, &ns[i]);\<close>: the pointer is the index, the
  position is indeterminate until the queue sets it, the result of the insertion is ignored.
\<close>

definition sample_put :: "bool \<Rightarrow> nat \<Rightarrow> ulonglong \<Rightarrow> int \<Rightarrow> sample_node_t pqueue_t ref \<times> sample_node_t nheap \<Rightarrow>
    (sample_node_t pqueue_t ref \<times> sample_node_t nheap) option" where
  "sample_put r i pri val s = do {
     (_, pq, h) \<leftarrow> pqueue_insert r (fst s) ((snd s)(i \<mapsto> \<lparr>sn_pri = pri, sn_val = val, sn_pos = 0\<rparr>)) i;
     Some (pq, h)
   }"

text \<open>The loop over the array.\<close>

fun sample_entries :: "sample_node_t pqueue_t \<Rightarrow> sample_node_t nheap \<Rightarrow> nat list \<Rightarrow> sample_line list option" where
  "sample_entries q h [] = Some []"
| "sample_entries q h (i # is) = do {
     p \<leftarrow> arr_get (q_d q) i;
     n \<leftarrow> h p;
     rest \<leftarrow> sample_entries q h is;
     Some (Line_entry (sn_pri n) # rest)
   }"

text \<open>The loop that pops until the queue is empty.\<close>

function sample_pops :: "sample_node_t pqueue_t ref \<Rightarrow> sample_node_t nheap \<Rightarrow> sample_line list option" where
  "sample_pops pq h = do {
     (e, pq', h') \<leftarrow> pqueue_pop pq h;
     (case e of
        Null \<Rightarrow> Some []
      | Ref p \<Rightarrow> do {
          n \<leftarrow> h' p;
          rest \<leftarrow> sample_pops pq' h';
          Some (Line_pop (sn_pri n) (sn_val n) # rest)
        })
   }"
  by pat_completeness auto
termination
  by (relation "measure (\<lambda>(pq, h). pop_rank pq)") (auto dest: pqueue_pop_rank)

declare sample_pops.simps [simp del]

text \<open>
  \<open>main\<close>: the status and the lines, from the results of the allocations. A null pointer of
  \<open>pqueue_peek\<close> would be dereferenced.
\<close>

definition sample_main :: "bool \<Rightarrow> bool \<Rightarrow> bool \<Rightarrow> bool \<Rightarrow> (int \<times> sample_line list) option" where
  "sample_main malloc_ns malloc_q malloc_d r =
     (let pq = pqueue_init malloc_q malloc_d 10 sample_cmp_pri sample_get_pri sample_set_pri sample_get_pos sample_set_pos in
      if \<not> (malloc_ns \<and> (case pq of Null \<Rightarrow> False | Ref q \<Rightarrow> True)) then Some (1, [])
      else do {
        s1 \<leftarrow> sample_put r 0 5 (-5) (pq, \<lambda>_. None);
        s2 \<leftarrow> sample_put r 1 4 (-4) s1;
        s3 \<leftarrow> sample_put r 2 2 (-2) s2;
        s4 \<leftarrow> sample_put r 3 6 (-6) s3;
        s5 \<leftarrow> sample_put r 4 1 (-1) s4;
        top \<leftarrow> pqueue_peek (fst s5);
        (case (top, fst s5) of
           (Ref p, Ref q) \<Rightarrow> do {
             n \<leftarrow> snd s5 p;
             entries \<leftarrow> sample_entries q (snd s5) [1..<q_size q];
             pops \<leftarrow> sample_pops (Ref q) (snd s5);
             _ \<leftarrow> pqueue_free (Ref q);
             Some (0, Line_peek (sn_pri n) (sn_val n) # entries @ pops)
           }
         | _ \<Rightarrow> None)
      })"

section \<open>What it prints\<close>

text \<open>Evaluation of the 64-bit reductions with binary numbers.\<close>

lemma sz_code [code]: "sz n = nat (int n mod 18446744073709551616)"
  by (simp add: sz_def nat_mod_distrib)

lemma size_dec_code [code]: "size_dec n = nat ((int n + 18446744073709551615) mod 18446744073709551616)"
proof -
  have "int n + 18446744073709551615 = int (n + (2 ^ 64 - 1))" by simp
  then show ?thesis by (simp add: size_dec_def sz_code)
qed

text \<open>
  The nodes come out in descending order of priority. The comment at the end of the file
  lists the priorities 8 and 7 of two changes that are commented out.
\<close>

lemma sample_output:
  "sample_main True True True r = Some (0, [Line_peek 6 (-6),
     Line_entry 6, Line_entry 5, Line_entry 2, Line_entry 4, Line_entry 1,
     Line_pop 6 (-6), Line_pop 5 (-5), Line_pop 4 (-4), Line_pop 2 (-2), Line_pop 1 (-1)])"
  by code_simp

end
