(* ===== verification/Multi_Sample.thy ===== *)
theory Multi_Sample
  imports Sample
begin

text \<open>
  The second usage sample of the queue library, \<open>rx_proxy/libpqueue/sample-multiattr.c\<close>: a
  client whose priorities are indices into a table of pairs, the global \<open>pris\<close>, compared
  lexicographically. The definitions follow the sample as a client of \<open>pqueue.c\<close>; as the file
  stands it redeclares \<open>struct node_t\<close> and the callbacks of \<open>pqueue.h\<close>.
\<close>

section \<open>Nodes, table and callbacks\<close>

text \<open>A field of \<open>ns[i]\<close> that was never written is \<open>None\<close>; \<open>pos\<close> is written before it is read.\<close>

record multi_node_t =
  mn_pri :: int
  mn_val :: "int option"
  mn_pos :: nat

type_synonym pri_table = "int \<rightharpoonup> int \<times> int"

text \<open>
  \<open>cmp_pri\<close>. Slots outside the table or not written yet have no value, a comparison with them
  is undefined in C; the sample makes none, its nodes hold indices of written slots.
\<close>

definition multi_cmp_pri :: "pri_table \<Rightarrow> ulonglong \<Rightarrow> ulonglong \<Rightarrow> bool" where
  "multi_cmp_pri pris nxt cur =
     (case (pris (pri_int nxt), pris (pri_int cur)) of
        (Some (n0, n1), Some (c0, c1)) \<Rightarrow> n0 > c0 \<or> n0 = c0 \<and> n1 > c1
      | _ \<Rightarrow> False)"

text \<open>On a table with all slots written, \<open>cmp_pri\<close> is an order the queue can be used with.\<close>

interpretation multi_cmp: pri_order "multi_cmp_pri (\<lambda>i. Some (f i))" for f :: "int \<Rightarrow> int \<times> int"
  by unfold_locales (auto simp: multi_cmp_pri_def split: prod.splits)

definition multi_get_pri :: "multi_node_t \<Rightarrow> ulonglong" where
  "multi_get_pri a = of_int (mn_pri a)"

definition multi_set_pri :: "multi_node_t \<Rightarrow> ulonglong \<Rightarrow> multi_node_t" where
  "multi_set_pri a pri = a\<lparr>mn_pri := pri_int pri\<rparr>"

definition multi_get_pos :: "multi_node_t \<Rightarrow> nat" where
  "multi_get_pos a = mn_pos a"

definition multi_set_pos :: "multi_node_t \<Rightarrow> nat \<Rightarrow> multi_node_t" where
  "multi_set_pos a pos = a\<lparr>mn_pos := pos\<rparr>"

section \<open>The program\<close>

text \<open>The numbers of a line: \<open>pri\<close>, \<open>val\<close> as the memory holds it, and the pair of the table.\<close>

datatype multi_line = Heading string | Entry int "int option" int int | Popped int "int option" int int

definition pr_node :: "pri_table \<Rightarrow> multi_node_t nheap \<Rightarrow> (int \<Rightarrow> int option \<Rightarrow> int \<Rightarrow> int \<Rightarrow> multi_line) \<Rightarrow> nptr \<Rightarrow> multi_line option" where
  "pr_node pris h line p = do {
     n \<leftarrow> h p;
     (a, b) \<leftarrow> pris (mn_pri n);
     Some (line (mn_pri n) (mn_val n) a b)
   }"

fun pr_nodes :: "pri_table \<Rightarrow> multi_node_t nheap \<Rightarrow> nptr list \<Rightarrow> multi_line list option" where
  "pr_nodes pris h [] = Some []"
| "pr_nodes pris h (p # ps) = do {
     l \<leftarrow> pr_node pris h Entry p;
     ls \<leftarrow> pr_nodes pris h ps;
     Some (l # ls)
   }"

text \<open>
  \<open>printf(...); pqueue_print(pq, stdout, pr_node);\<close>. The print sets positions of nodes by the
  \<open>set_pos\<close> of \<open>pqueue.c\<close>, which is made for nodes of another layout: there \<open>pos\<close> is at offset 16,
  and these nodes have 16 bytes. \<open>pos_fn\<close> is what it does to a node of the sample, \<open>None\<close> when that
  is undefined. The print of an empty queue sets no position. The lines are formed after the last
  pop of the copy, which changes nothing they show.
\<close>

definition multi_print :: "(multi_node_t \<Rightarrow> nat \<Rightarrow> multi_node_t) option \<Rightarrow> string \<Rightarrow> pri_table \<Rightarrow>
    multi_node_t pqueue_t \<Rightarrow> multi_node_t nheap \<Rightarrow> (multi_line list \<times> multi_node_t nheap) option" where
  "multi_print pos_fn title pris q h =
     (case pos_fn of
        None \<Rightarrow> if q_size q = 1 then Some ([Heading title], h) else None
      | Some f \<Rightarrow> do {
          (ps, h') \<leftarrow> print_copy multi_set_pri f True True q h;
          ls \<leftarrow> pr_nodes pris h' ps;
          Some (Heading title # ls, h')
        })"

text \<open>
  \<open>ns[i].pri = i; ns[0].val = i; pqueue_insert(pq, &ns[i]);\<close>: the value goes to \<open>ns[0]\<close> in all
  four lines. The result of the insertion is ignored.
\<close>

definition multi_put :: "nat \<Rightarrow> multi_node_t pqueue_t ref \<times> multi_node_t nheap \<Rightarrow>
    (multi_node_t pqueue_t ref \<times> multi_node_t nheap) option" where
  "multi_put i s = do {
     let h = (snd s)(i \<mapsto> \<lparr>mn_pri = int i, mn_val = None, mn_pos = 0\<rparr>);
     n0 \<leftarrow> h 0;
     (_, pq, h') \<leftarrow> pqueue_insert True (fst s) (h(0 \<mapsto> n0\<lparr>mn_val := Some (int i)\<rparr>)) i;
     Some (pq, h')
   }"

text \<open>The loop that pops until the queue is empty.\<close>

function multi_pops :: "pri_table \<Rightarrow> multi_node_t pqueue_t ref \<Rightarrow> multi_node_t nheap \<Rightarrow> multi_line list option" where
  "multi_pops pris pq h = do {
     (e, pq', h') \<leftarrow> pqueue_pop pq h;
     (case e of
        Null \<Rightarrow> Some []
      | Ref p \<Rightarrow> do {
          l \<leftarrow> pr_node pris h' Popped p;
          ls \<leftarrow> multi_pops pris pq' h';
          Some (l # ls)
        })
   }"
  by pat_completeness auto
termination
  by (relation "measure (\<lambda>(pris, pq, h). pop_rank pq)") (auto dest: pqueue_pop_rank)

declare multi_pops.simps [simp del]

text \<open>
  \<open>pris[p][0] = a; pris[p][1] = b; pqueue_change_priority(pq, p, &ns[i]);\<close>: \<open>cmp_pri\<close> reads the
  global table, so the comparison of the queue changes with it.
\<close>

definition multi_change :: "int \<Rightarrow> int \<times> int \<Rightarrow> nptr \<Rightarrow> pri_table \<Rightarrow> multi_node_t pqueue_t \<Rightarrow> multi_node_t nheap \<Rightarrow>
    (pri_table \<times> multi_node_t pqueue_t \<times> multi_node_t nheap) option" where
  "multi_change p ab i pris q h = do {
     let pris' = pris(p \<mapsto> ab);
     (q', h') \<leftarrow> pqueue_change_priority (q\<lparr>q_cmppri := multi_cmp_pri pris'\<rparr>) h (of_int p) i;
     Some (pris', q', h')
   }"

text \<open>The table after the first assignments, with the spare slot 4 still unwritten.\<close>

definition multi_pris :: pri_table where
  "multi_pris = [0 \<mapsto> (4, 2), 1 \<mapsto> (3, 7), 2 \<mapsto> (3, 1), 3 \<mapsto> (5, 6)]"

text \<open>\<open>main\<close>, with allocations that succeed: the sample checks none of them.\<close>

definition multi_fill :: "(multi_node_t pqueue_t ref \<times> multi_node_t nheap) option" where
  "multi_fill = do {
     s0 \<leftarrow> multi_put 0 (pqueue_init True True 10 (multi_cmp_pri multi_pris) multi_get_pri multi_set_pri multi_get_pos multi_set_pos, \<lambda>_. None);
     s1 \<leftarrow> multi_put 1 s0;
     s2 \<leftarrow> multi_put 2 s1;
     multi_put 3 s2
   }"

definition multi_main :: "(multi_node_t \<Rightarrow> nat \<Rightarrow> multi_node_t) option \<Rightarrow> multi_line list option" where
  "multi_main pos_fn = do {
     (qp, h) \<leftarrow> multi_fill;
     q \<leftarrow> (case qp of Null \<Rightarrow> None | Ref q \<Rightarrow> Some q);
     (out1, h) \<leftarrow> multi_print pos_fn ''initial:'' multi_pris q h;
     (e, qp, h) \<leftarrow> pqueue_pop (Ref q) h;
     (case (e, qp) of
        (Ref p, Ref q) \<Rightarrow> do {
          l \<leftarrow> pr_node multi_pris h Popped p;
          (out2, h) \<leftarrow> multi_print pos_fn ''after first pop:'' multi_pris q h;
          (pris, q, h) \<leftarrow> multi_change 4 (3, 0) 3 multi_pris q h;
          (out3, h) \<leftarrow> multi_print pos_fn ''after 3: (5,6) -> (3,0):'' pris q h;
          (pris, q, h) \<leftarrow> multi_change 3 (3, -1) 0 pris q h;
          (out4, h) \<leftarrow> multi_print pos_fn ''after 0: (4,2) -> (3,-1):'' pris q h;
          out5 \<leftarrow> multi_pops pris (Ref q) h;
          _ \<leftarrow> pqueue_free (Ref q);
          Some (out1 @ [l] @ out2 @ out3 @ out4 @ out5)
        }
      | _ \<Rightarrow> None)
   }"

section \<open>What it prints\<close>

text \<open>With a \<open>set_pos\<close> that does nothing in the print, the sample prints what the comment at its
  end lists, where the comment's 0 for \<open>val\<close> is memory that was never written.\<close>

lemma multi_documented:
  "multi_main (Some (\<lambda>a pos. a)) = Some
     ([Heading ''initial:'', Entry 2 None 3 1, Entry 1 None 3 7, Entry 0 (Some 3) 4 2, Entry 3 None 5 6, Popped 2 None 3 1] @
      [Heading ''after first pop:'', Entry 1 None 3 7, Entry 0 (Some 3) 4 2, Entry 3 None 5 6] @
      [Heading ''after 3: (5,6) -> (3,0):'', Entry 4 None 3 0, Entry 1 None 3 7, Entry 0 (Some 3) 4 2] @
      [Heading ''after 0: (4,2) -> (3,-1):'', Entry 3 (Some 3) 3 (-1), Entry 4 None 3 0, Entry 1 None 3 7] @
      [Popped 3 (Some 3) 3 (-1), Popped 4 None 3 0, Popped 1 None 3 7])"
  by code_simp

text \<open>With a \<open>set_pos\<close> that does set the position of a node, as the one of \<open>pqueue.c\<close> does for the
  nodes of the proxy, the prints change the positions under the queue and the next changes of
  priority leave it out of order: (3, 7) is popped before (3, -1) and (3, 0).\<close>

lemma multi_positions_set:
  "map_option (\<lambda>ls. drop 14 ls) (multi_main (Some multi_set_pos)) = Some
     ([Heading ''after 0: (4,2) -> (3,-1):'', Entry 1 None 3 7, Entry 3 (Some 3) 3 (-1), Entry 4 None 3 0] @
      [Popped 1 None 3 7, Popped 3 (Some 3) 3 (-1), Popped 4 None 3 0])"
  by code_simp

text \<open>As the file stands, the first print is undefined: the queue is not empty, and the node it
  moves first is \<open>ns[3]\<close>, behind which there is no memory of \<open>ns\<close>.\<close>

lemma multi_filled:
  "map_option (\<lambda>s. case fst s of Null \<Rightarrow> [] | Ref q \<Rightarrow> take (q_size q) (q_d q)) multi_fill =
    Some [None, Some 2, Some 0, Some 1, Some 3]"
  by code_simp

lemma multi_undefined: "multi_main None = None"
  by code_simp

end
