(* ===== verification/Print_Positions.thy ===== *)
theory Print_Positions
  imports Queue_Interface
begin

text \<open>
  What \<open>pqueue_print\<close> does to the queue it prints. It pops a copy of the array that shares the
  nodes: the entries are printed in the queue's order, and every node is left with the position
  it had when it was popped from the copy, which is 1.
\<close>

section \<open>The capacity does not matter to popping\<close>

text \<open>The copy has one slot more than its capacity field says; popping does not read it.\<close>

lemma calls_avail [simp]:
  "call_getpri (q\<lparr>q_avail := a\<rparr>) = call_getpri q" "call_setpos (q\<lparr>q_avail := a\<rparr>) = call_setpos q"
  by (simp_all add: call_getpri_def [abs_def] call_setpos_def [abs_def] cong: option.case_cong)

lemma maxchild_avail [simp]: "maxchild (q\<lparr>q_avail := a\<rparr>) h i = maxchild q h i"
  by (simp add: maxchild_def Let_def)

lemma percolate_down_loop_avail:
  "percolate_down_loop (q\<lparr>q_avail := a\<rparr>) h m i =
    map_option (\<lambda>(q', h', k). (q'\<lparr>q_avail := a\<rparr>, h', k)) (percolate_down_loop q h m i)"
proof (induction q h m i rule: percolate_down_loop.induct)
  case (1 q h m i)
  have swap: "q\<lparr>q_avail := a, q_d := d\<rparr> = q\<lparr>q_d := d\<rparr>\<lparr>q_avail := a\<rparr>" for d by simp
  show ?case
    by (subst (1 2) percolate_down_loop.simps)
      (auto simp: swap "1.IH" simp del: pqueue_t.update_convs simp flip: One_nat_def split: Option.bind_split)
qed

lemma percolate_down_avail:
  "percolate_down (q\<lparr>q_avail := a\<rparr>) h i = map_option (\<lambda>(q', h'). (q'\<lparr>q_avail := a\<rparr>, h')) (percolate_down q h i)"
  by (auto simp: percolate_down_def percolate_down_loop_avail split: Option.bind_split)

lemma pqueue_pop_avail:
  "pqueue_pop (Ref (q\<lparr>q_avail := a\<rparr>)) h =
    map_option (\<lambda>(e, qp, h'). (e, map_ref (\<lambda>q'. q'\<lparr>q_avail := a\<rparr>) qp, h')) (pqueue_pop (Ref q) h)"
proof -
  have swap: "q\<lparr>q_avail := a, q_size := n, q_d := d\<rparr> = q\<lparr>q_size := n, q_d := d\<rparr>\<lparr>q_avail := a\<rparr>" for n d by simp
  show ?thesis by (auto simp: pqueue_pop_def Let_def swap percolate_down_avail split: Option.bind_split)
qed

lemma print_loop_avail: "print_loop (Ref (q\<lparr>q_avail := a\<rparr>)) h = print_loop (Ref q) h"
proof (induction "pop_rank (Ref q)" arbitrary: q h rule: less_induct)
  case less
  show ?case
  proof (cases "\<exists>p q' h'. pqueue_pop (Ref q) h = Some (Ref p, Ref q', h')")
    case True
    then obtain p q' h' where p: "pqueue_pop (Ref q) h = Some (Ref p, Ref q', h')" by blast
    from less [OF pqueue_pop_rank [OF p]] show ?thesis
      by (simp add: print_loop.simps [of "Ref q"] print_loop.simps [of "Ref (q\<lparr>q_avail := a\<rparr>)"] pqueue_pop_avail p)
  next
    case False
    then have "x = Null" if "pqueue_pop (Ref q) h = Some (x, qp, h')" for x qp h'
      using that pqueue_pop_Ref by (cases x) blast+
    then show ?thesis
      by (subst (1 2) print_loop.simps) (auto simp: pqueue_pop_avail split: Option.bind_split ref.split)
  qed
qed

section \<open>Positions do not matter to moving down\<close>

lemma call_getpri_same: "same_nodes h g \<Longrightarrow> std_callbacks q \<Longrightarrow> call_getpri q g p = call_getpri q h p"
  by (cases "h p") (auto simp: call_getpri_def std_callbacks_def get_pri_def same_nodes_None elim: same_nodes_lookup)

lemma call_setpos_same:
  assumes "same_nodes h g" and "std_callbacks q" and "call_setpos q h p i = Some h'"
  shows "\<exists>g'. call_setpos q g p i = Some g' \<and> same_nodes h' g'"
proof -
  obtain n where n: "h p = Some n" "h' = h(p \<mapsto> n\<lparr>n_pos := i\<rparr>)"
    using assms(2,3) by (auto simp: call_setpos_def std_callbacks_def set_pos_def split: option.splits)
  then obtain m where m: "g p = Some m" using assms(1) by (auto elim: same_nodes_lookup)
  then have "call_setpos q g p i = Some (g(p \<mapsto> m\<lparr>n_pos := i\<rparr>))" using assms(2) by (simp add: call_setpos_std)
  moreover have "same_nodes (h(p \<mapsto> n\<lparr>n_pos := i\<rparr>)) (g(p \<mapsto> m\<lparr>n_pos := i\<rparr>))"
    using same_nodes_trans [OF same_nodes_sym same_nodes_trans] assms(1) same_nodes_upd [where h = h] same_nodes_upd [where h = g] n(1) m by blast
  ultimately show ?thesis using n(2) by blast
qed

lemma maxchild_same: "same_nodes h g \<Longrightarrow> std_callbacks q \<Longrightarrow> maxchild q g i = maxchild q h i"
  by (simp add: maxchild_def Let_def call_getpri_same)

text \<open>One turn of the loop.\<close>

lemma percolate_down_loop_cases:
  assumes "percolate_down_loop q h m i = Some (q', h', k)"
  obtains (stop) c where "maxchild q h i = Some c" and "q' = q" and "h' = h" and "k = i"
      and "c = 0 \<or> (\<exists>cn cp. arr_get (q_d q) c = Some cn \<and> call_getpri q h cn = Some cp \<and> \<not> q_cmppri q m cp)"
  | (down) c cn cp d h1 where "maxchild q h i = Some c" and "c \<noteq> 0" and "arr_get (q_d q) c = Some cn"
      and "call_getpri q h cn = Some cp" and "q_cmppri q m cp" and "arr_set (q_d q) i cn = Some d"
      and "call_setpos q h cn i = Some h1" and "percolate_down_loop (q\<lparr>q_d := d\<rparr>) h1 m c = Some (q', h', k)"
  using assms by (subst (asm) percolate_down_loop.simps) (auto split: Option.bind_splits if_splits)

lemma percolate_down_loop_same:
  assumes "percolate_down_loop q h m i = Some (q', h', k)" and "same_nodes h g" and "std_callbacks q"
  shows "std_callbacks q' \<and> (\<exists>g'. percolate_down_loop q g m i = Some (q', g', k) \<and> same_nodes h' g')"
  using assms
proof (induction q h m i arbitrary: g rule: percolate_down_loop.induct)
  case (1 q h m i)
  note same = "1.prems"(2) and std = "1.prems"(3)
  from "1.prems"(1) show ?case
  proof (cases rule: percolate_down_loop_cases)
    case (stop c)
    then show ?thesis
      using same std by (auto simp: percolate_down_loop.simps [of q g] maxchild_same call_getpri_same)
  next
    case (down c cn cp d h1)
    obtain g1 where g1: "call_setpos q g cn i = Some g1" "same_nodes h1 g1" using call_setpos_same [OF same std down(7)] by blast
    have "std_callbacks (q\<lparr>q_d := d\<rparr>)" using std by simp
    from "1.IH" [OF down g1(2) this] show ?thesis
      using down same std g1(1) by (simp add: percolate_down_loop.simps [of q g] maxchild_same call_getpri_same)
  qed
qed

lemma percolate_down_same:
  assumes "percolate_down q h i = Some (q', h')" and "same_nodes h g" and "std_callbacks q"
  shows "\<exists>g'. percolate_down q g i = Some (q', g')"
proof -
  obtain mv mp q1 h1 k d where mv: "arr_get (q_d q) i = Some mv" "call_getpri q h mv = Some mp"
    and loop: "percolate_down_loop q h mp i = Some (q1, h1, k)" and d: "arr_set (q_d q1) k mv = Some d"
    and h': "call_setpos q1 h1 mv k = Some h'" and q': "q' = q1\<lparr>q_d := d\<rparr>"
    using assms(1) by (auto simp: percolate_down_def split: Option.bind_splits)
  obtain g1 where g1: "std_callbacks q1" "percolate_down_loop q g mp i = Some (q1, g1, k)" "same_nodes h1 g1"
    using percolate_down_loop_same [OF loop assms(2,3)] by blast
  moreover have "call_getpri q g mv = Some mp" using call_getpri_same [OF assms(2,3)] mv(2) by simp
  moreover obtain g' where "call_setpos q1 g1 mv k = Some g'" using call_setpos_same [OF g1(3,1) h'] by blast
  ultimately show ?thesis using mv(1) d q' by (simp add: percolate_down_def)
qed

section \<open>Positions after printing\<close>

text \<open>Moving down touches nodes of the queue only.\<close>

definition absent :: "'n pqueue_t \<Rightarrow> nptr \<Rightarrow> bool" where
  "absent q x \<longleftrightarrow> (\<forall>j. 1 \<le> j \<and> j < q_size q \<longrightarrow> q_d q ! j \<noteq> Some x)"

lemma call_setpos_other: "call_setpos q h p i = Some h' \<Longrightarrow> x \<noteq> p \<Longrightarrow> h' x = h x"
  by (auto simp: call_setpos_def split: option.splits)

lemma absent_set: "absent q x \<Longrightarrow> y \<noteq> x \<Longrightarrow> arr_set (q_d q) i y = Some d \<Longrightarrow> absent (q\<lparr>q_d := d\<rparr>) x"
  by (auto simp: absent_def arr_set_eq_Some_iff nth_list_update)

lemma absent_read: "absent q x \<Longrightarrow> 1 \<le> j \<Longrightarrow> j < q_size q \<Longrightarrow> arr_get (q_d q) j = Some y \<Longrightarrow> y \<noteq> x"
  by (auto simp: absent_def arr_get_def split: if_splits)

lemma percolate_down_loop_absent:
  assumes "percolate_down_loop q h m i = Some (q', h', k)" and "absent q x"
  shows "h' x = h x"
  using assms
proof (induction q h m i rule: percolate_down_loop.induct)
  case (1 q h m i)
  from "1.prems"(1) show ?case
  proof (cases rule: percolate_down_loop_cases)
    case (down c cn cp d h1)
    have ne: "cn \<noteq> x" using absent_read [OF "1.prems"(2) _ _ down(3)] maxchild_bounds [OF down(1,2)] by simp
    from "1.IH" [OF down absent_set [OF "1.prems"(2) ne down(6)]] show ?thesis
      using call_setpos_other [OF down(7)] ne by simp
  qed simp
qed

lemma percolate_down_absent:
  assumes "percolate_down q h i = Some (q', h')" and "absent q x" and "arr_get (q_d q) i = Some mv" and "x \<noteq> mv"
  shows "h' x = h x"
  using assms by (auto simp: percolate_down_def call_setpos_other split: Option.bind_splits dest!: percolate_down_loop_absent)

lemma pop_positions:
  assumes v: "pq_valid q h" and pop: "pqueue_pop (Ref q) h = Some (Ref p, Ref q', h')"
  shows "x \<notin> pq_ptrs q \<Longrightarrow> h' x = h x" and "\<exists>n. h' p = Some n \<and> n_pos n = 1"
proof -
  have inv: "pq_inv q h" and sh: "pq_shape q" using v by (auto simp: pq_valid_def pq_inv_def)
  have size: "1 < q_size q" using pop sh by (auto simp: pqueue_pop_def pq_shape_def split: if_splits)
  let ?n = "q_size q - 1" and ?l = "slot q (q_size q - 1)"
  let ?q1 = "q\<lparr>q_size := ?n, q_d := (q_d q)[1 := Some ?l]\<rparr>"
  have dec: "size_dec (q_size q) = ?n" using sh size by (simp add: pq_shape_def)
  have at: "q_d q ! j = Some (slot q j)" if "1 \<le> j" "j < q_size q" for j
    using inv that by (auto simp: pq_inv_def elim: slot_okD)
  have len: "q_size q \<le> length (q_d q)" using sh by (simp add: pq_shape_def)
  have perc: "p = slot q 1" "percolate_down ?q1 h 1 = Some (q', h')"
    using pop size at [of 1] at [of ?n] len
    by (auto simp: pqueue_pop_def dec arr_get_def arr_set_def Let_def simp flip: One_nat_def split: Option.bind_splits if_splits)
  have get: "arr_get (q_d ?q1) 1 = Some ?l" using len size by (simp add: arr_get_def)
  have l: "?l \<in> pq_ptrs q" using size by (auto simp: pq_ptrs_def)
  show "h' x = h x" if x: "x \<notin> pq_ptrs q"
  proof (rule percolate_down_absent [OF perc(2) _ get])
    show "x \<noteq> ?l" using x l by blast
    moreover have "slot q j \<noteq> x" if "1 \<le> j" "j < q_size q" for j using x that by (auto simp: pq_ptrs_def)
    ultimately show "absent ?q1 x" using at len size by (fastforce simp: absent_def nth_list_update split: if_splits)
  qed
  obtain n0 where n0: "h p = Some n0" "n_pos n0 = 1"
    using inv size by (auto simp: pq_inv_def perc(1) simp flip: One_nat_def elim: slot_okD)
  show "\<exists>n. h' p = Some n \<and> n_pos n = 1"
  proof (cases "?n = 1")
    case True
    have "percolate_down ?q1 h 1 = Some (?q1, h(p \<mapsto> n0\<lparr>n_pos := 1\<rparr>))"
      using sh len size n0 True by (intro percolate_down_past_end) (simp_all add: pq_shape_def perc(1) std_callbacks_def)
    with perc(2) show ?thesis by auto
  next
    case False
    have inj: "slot q j \<noteq> slot q 1" if "2 \<le> j" "j < q_size q" for j
      using inj_onD [OF slot_inj [OF inv], of j 1] that by auto
    have "h' p = h p"
    proof (rule percolate_down_absent [OF perc(2) _ get])
      show "absent ?q1 p" using at len inj size False by (auto simp: absent_def nth_list_update perc(1))
      have "2 \<le> ?n" "?n < q_size q" using False size by linarith+
      from inj [OF this] show "p \<noteq> ?l" by (simp add: perc(1))
    qed
    with n0 show ?thesis by simp
  qed
qed

lemma print_loop_positions:
  assumes "pq_valid q h" and "print_loop (Ref q) h = Some (xs, h')"
  shows "same_nodes h h' \<and> (\<forall>x\<in>pq_ptrs q. n_pos (the (h' x)) = 1) \<and> (\<forall>x. x \<notin> pq_ptrs q \<longrightarrow> h' x = h x)"
  using assms
proof (induction "q_size q" arbitrary: q h xs rule: less_induct)
  case less
  have inv: "pq_inv q h" using less.prems(1) by (simp add: pq_valid_def)
  show ?case
  proof (cases "q_size q = 1")
    case True
    then have "pq_ptrs q = {}" using pq_empty_iff [OF inv] by simp
    with less.prems(2) True show ?thesis by (simp add: print_loop.simps [of "Ref q"] pqueue_pop_empty)
  next
    case False
    then have size: "1 < q_size q" using inv by (simp add: pq_inv_def pq_shape_def)
    obtain q1 h1 where pop: "pqueue_pop (Ref q) h = Some (Ref (slot q 1), Ref q1, h1)" and v1: "pq_valid q1 h1"
      and ptrs1: "pq_ptrs q1 = pq_ptrs q - {slot q 1}" and "q_size q1 = q_size q - 1" and same: "same_nodes h h1"
      using pqueue_pop_correct [OF less.prems(1) size] by blast
    then have lt: "q_size q1 < q_size q" using size by simp
    obtain ys where rest: "print_loop (Ref q1) h1 = Some (ys, h')"
      using less.prems(2) pop by (auto simp: print_loop.simps [of "Ref q"] split: Option.bind_splits)
    note ih = less.hyps [OF lt v1 rest] and pos = pop_positions [OF less.prems(1) pop]
    have "n_pos (the (h' (slot q 1))) = 1" using ih pos(2) ptrs1 by auto
    then have "\<forall>x\<in>pq_ptrs q. n_pos (the (h' x)) = 1" using ih ptrs1 by blast
    moreover have "\<forall>x. x \<notin> pq_ptrs q \<longrightarrow> h' x = h x" using ih pos(1) ptrs1 by auto
    ultimately show ?thesis using ih same same_nodes_trans by blast
  qed
qed

section \<open>Printing and removing\<close>

text \<open>What the queue prints, and that it leaves position 1 in every node.\<close>

lemma pqueue_print_correct:
  assumes v: "pq_valid q h" and small: "q_size q + 1 < 2 ^ 61"
  obtains xs h' where "pqueue_print True True q h = Some (xs, h')" and "set xs = pq_ptrs q" and "distinct xs"
    and "sorted_wrt (\<lambda>x y. \<not> q_cmppri q (prio h x) (prio h y)) xs" and "same_nodes h h'"
    and "\<forall>x\<in>pq_ptrs q. n_pos (the (h' x)) = 1"
proof -
  have sh: "pq_shape q" using v by (auto simp: pq_valid_def pq_inv_def)
  let ?d = "take (q_size q) (q_d q) @ arr_new 1"
  let ?dup = "q\<lparr>q_avail := q_size q + 1, q_d := ?d\<rparr>"
  have len: "length ?d = q_size q + 1" using sh by (simp add: pq_shape_def)
  have nth: "?d ! j = q_d q ! j" if "j < q_size q" for j using that sh by (simp add: pq_shape_def nth_append)
  have slot: "slot ?dup j = slot q j" if "j < q_size q" for j using nth [OF that] by (simp add: slot_def)
  have "pq_shape ?dup" using sh small len by (auto simp: pq_shape_def std_callbacks_def)
  moreover have "slot_ok ?dup h j = slot_ok q h j" if "j < q_size q" for j using nth [OF that] by (simp add: slot_ok_def)
  ultimately have "pq_inv ?dup h" using v by (simp add: pq_valid_def pq_inv_def)
  moreover have "pq_order ?dup h"
    using v slot by (simp add: pq_valid_def pq_order_def heap_ok_def) (metis div_le_dividend le_less_trans)
  ultimately have v': "pq_valid ?dup h" by (simp add: pq_valid_def)
  have ptrs: "pq_ptrs ?dup = pq_ptrs q" using slot by (auto simp: pq_ptrs_def)
  have "pq_ok (q_cmppri q) (?dup, h)" using v' by (simp add: pq_ok_def)
  from pq.drain_sorted [OF this] obtain xs q' h' where xs: "drains pq_pop (?dup, h) xs (q', h')" "set xs = pq_ptrs ?dup"
    "distinct xs" "sorted_wrt (\<lambda>x y. \<not> q_cmppri q (prio h x) (prio h y)) xs" by auto
  from print_loop_drains [OF xs(1)] have loop: "print_loop (Ref ?dup) h = Some (xs, h')" by simp
  have "sz (q_size q + 1) = q_size q + 1" "sz ((q_size q + 1) * 8) = (q_size q + 1) * 8" using small by (intro sz_small; simp)+
  moreover have "drop (q_size q) (arr_new (q_size q + 1)) = (arr_new 1 :: nptr arr)" by (simp add: arr_new_def del: replicate_Suc add_Suc_right)
  ultimately have "pqueue_print True True q h = do { (ps, h') \<leftarrow> print_loop (Ref (?dup\<lparr>q_avail := q_avail q\<rparr>)) h; Some (ps, h') }"
    using sh by (cases q) (simp add: pqueue_print_def print_copy_def pqueue_init_def pqueue_free_def pq_shape_def std_callbacks_def)
  also have "print_loop (Ref (?dup\<lparr>q_avail := q_avail q\<rparr>)) h = Some (xs, h')" by (simp only: print_loop_avail loop)
  finally have "pqueue_print True True q h = Some (xs, h')" by simp
  then show thesis using xs ptrs print_loop_positions [OF v' loop] by (intro that [of xs h']) auto
qed

text \<open>Removing a node whose position is 1 takes out the first node.\<close>

lemma remove_at_root:
  assumes v: "pq_valid q h" and same: "same_nodes h g" and p: "p \<in> pq_ptrs q" "n_pos (the (g p)) = 1"
  shows "\<exists>q' g'. pqueue_remove q g p = Some (0, q', g') \<and> pq_ptrs q' = pq_ptrs q - {slot q 1}"
proof -
  have inv: "pq_inv q h" and sh: "pq_shape q" using v by (auto simp: pq_valid_def pq_inv_def)
  have size: "1 < q_size q" using p(1) by (auto simp: pq_ptrs_def)
  let ?n = "q_size q - 1" and ?l = "slot q (q_size q - 1)"
  let ?q1 = "q\<lparr>q_size := ?n, q_d := (q_d q)[1 := Some ?l]\<rparr>"
  have dec: "size_dec (q_size q) = ?n" and std: "std_callbacks q" and len: "q_size q \<le> length (q_d q)"
    using sh size by (simp_all add: pq_shape_def)
  have node: "\<exists>m. g x = Some m" if "x \<in> pq_ptrs q" for x
    using pq_ptrs_node [OF inv that] same_nodes_None [OF same, of x] by (metis option.distinct(1) option.exhaust)
  obtain m where m: "g p = Some m" "n_pos m = 1" using node [OF p(1)] p(2) by auto
  have "?l \<in> pq_ptrs q" using size by (auto simp: pq_ptrs_def)
  then obtain ml where ml: "g ?l = Some ml" using node by blast
  have "slot_ok q h ?n" using inv size by (simp add: pq_inv_def)
  then have at: "q_d q ! ?n = Some ?l" by (rule slot_okD)
  have gets: "arr_get (q_d q) ?n = Some ?l" "arr_set (q_d q) 1 ?l = Some (q_d ?q1)" "arr_get (q_d ?q1) 1 = Some ?l"
    using at len size by (simp_all add: arr_get_def arr_set_def)
  have calls: "call_getpos q g p = Some 1" "call_getpri ?q1 g p = Some (n_pri m)" "call_getpri ?q1 g ?l = Some (n_pri ml)"
    using std m ml by (simp_all add: pq_calls)
  have run: "pqueue_remove q g p = do {
      (q2, g') \<leftarrow> (if q_cmppri q (n_pri m) (n_pri ml) then bubble_up ?q1 g 1 else percolate_down ?q1 g 1);
      Some (0, q2, g')}"
    using gets calls by (simp add: pqueue_remove_def dec Let_def)
  obtain q' h' where pop: "pqueue_pop (Ref q) h = Some (Ref (slot q 1), Ref q', h')" "pq_ptrs q' = pq_ptrs q - {slot q 1}"
    using pqueue_pop_correct [OF v size] by blast
  then have perc: "percolate_down ?q1 h 1 = Some (q', h')"
    using gets size by (auto simp: pqueue_pop_def dec Let_def simp flip: One_nat_def split: Option.bind_splits if_splits)
  have "bubble_up ?q1 g 1 = Some (?q1, g(?l \<mapsto> ml\<lparr>n_pos := 1\<rparr>))"
    using gets(3) calls(3) std ml len size
    by (simp add: bubble_up_def bubble_up_loop.simps arr_set_def call_setpos_std del: One_nat_def)
  moreover have "pq_ptrs ?q1 = pq_ptrs q - {slot q 1}"
  proof (cases "?n = 1")
    case True
    then have "q_size q = 2" using size by simp
    then show ?thesis by (auto simp: pq_ptrs_def less_2_cases_iff)
  next
    case False
    then have "placed ?q1 1 ?l ` {1..<q_size ?q1} = pq_ptrs q - {slot q 1}" using size by (intro remove_hole(4) [OF v]) simp_all
    moreover have "placed ?q1 1 ?l = slot ?q1" using len size by (auto simp: placed_def slot_def)
    ultimately show ?thesis by (simp only: pq_ptrs_def)
  qed
  moreover obtain g' where "percolate_down ?q1 g 1 = Some (q', g')"
    using percolate_down_same [OF perc same] std by auto
  ultimately show ?thesis using pop(2) by (cases "q_cmppri q (n_pri m) (n_pri ml)") (simp_all add: run)
qed

text \<open>C28: \<open>pqueue_print\<close> prints the nodes of a valid queue, each once, in the queue's order, but it
  spoils the queue: it leaves the array alone and every node with position 1, so that
  \<open>pqueue_remove\<close> of any node afterwards returns 0 and takes out the first node instead. (The
  copy has to fit the memory: one slot more than the queue has used, of 8 bytes each.)\<close>

theorem print_breaks_positions:
  assumes "pq_valid q h" and "q_size q + 1 < 2 ^ 61" and "p \<in> pq_ptrs q"
  shows "\<exists>xs h1 q2 h2. pqueue_print True True q h = Some (xs, h1) \<and> set xs = pq_ptrs q \<and> distinct xs \<and>
    sorted_wrt (\<lambda>x y. \<not> q_cmppri q (prio h x) (prio h y)) xs \<and> same_nodes h h1 \<and>
    (\<forall>x\<in>pq_ptrs q. n_pos (the (h1 x)) = 1) \<and>
    pqueue_remove q h1 p = Some (0, q2, h2) \<and> pq_ptrs q2 = pq_ptrs q - {slot q 1}"
proof -
  obtain xs h1 where pr: "pqueue_print True True q h = Some (xs, h1)" "set xs = pq_ptrs q" "distinct xs"
    "sorted_wrt (\<lambda>x y. \<not> q_cmppri q (prio h x) (prio h y)) xs" "same_nodes h h1" "\<forall>x\<in>pq_ptrs q. n_pos (the (h1 x)) = 1"
    by (rule pqueue_print_correct [OF assms(1,2)])
  with remove_at_root [OF assms(1) pr(5) assms(3)] assms(3) show ?thesis by blast
qed

end
