(* ===== verification/Split_Thread.thy ===== *)
theory Split_Thread
  imports Proxy_Progress
begin

text \<open>
  The splitting thread as a thread of the system. In \<open>Proxy_Bytes\<close> any block may be added to the
  buffer at any time; here blocks come from \<open>split_round\<close>, the iterations of the splitting loop,
  on what the intercepted connection delivers, interleaved with the steps of all other threads.
  An iteration is one step: its calls of \<open>recv\<close> touch nothing the other threads see.
\<close>

section \<open>The system\<close>

type_synonym split_state = "((int \<times> int \<times> int \<times> int) list \<times> recv_ev list) option"

text \<open>
  The splitting thread has left the results of \<open>poll\<close> and what its socket delivers, and nothing
  once its loop has ended. \<open>others\<close> are the steps of \<open>Proxy_Bytes\<close> that leave the buffer to it.
\<close>

inductive p_step :: "bool \<Rightarrow> bsys \<times> split_state \<Rightarrow> bsys \<times> split_state \<Rightarrow> bool" for be where
  work: "b_work be b b' \<Longrightarrow> p_step be (b, sp) (b', sp)"
| others: "b_other b b' \<Longrightarrow> b_buff b' = b_buff b \<Longrightarrow> p_step be (b, sp) (b', sp)"
| again: "split_round x es (b_buff b) = Some (Inr es', buff') \<Longrightarrow>
    p_step be (b, Some (x # polls, es)) (b\<lparr>b_buff := buff'\<rparr>, Some (polls, es'))"
| ended: "split_round x es (b_buff b) = Some (Inl (Returned ()), buff') \<Longrightarrow>
    p_step be (b, Some (x # polls, es)) (b\<lparr>b_buff := buff'\<rparr>, None)"

abbreviation p_reach :: "bool \<Rightarrow> int \<Rightarrow> (int \<times> int \<times> int \<times> int) list \<Rightarrow> recv_ev list \<Rightarrow> bsys \<times> split_state \<Rightarrow> bool" where
  "p_reach be sockfd polls es \<equiv> (p_step be)\<^sup>*\<^sup>* (b_init sockfd, Some (polls, es))"

text \<open>No mutex call fails, and \<open>poll\<close> reports no error.\<close>

definition calm_polls :: "(int \<times> int \<times> int \<times> int) list \<Rightarrow> bool" where
  "calm_polls polls \<longleftrightarrow> (\<forall>(r, revents, lock, unlock)\<in>set polls. lock = 0 \<and> unlock = 0 \<and> (r > 0 \<longrightarrow> revents \<noteq> POLLERR))"

section \<open>Its iterations as steps of the system\<close>

text \<open>What was read so far is in the log, and the rest is still to come.\<close>

definition split_at :: "byte list \<Rightarrow> bsys \<Rightarrow> split_state \<Rightarrow> bool" where
  "split_at bs b sp \<longleftrightarrow> (case sp of
     None \<Rightarrow> pb_log (b_buff b) = blocks bs
   | Some (polls, es) \<Rightarrow> calm_polls polls \<and> RecvErr \<notin> set es \<and> ev_ends es \<and>
       pb_log (b_buff b) @ blocks (ev_bytes es) = blocks bs)"

lemma reach_buff:
  assumes "b_reach be sockfd b" and "b_lim b"
  shows "pb_inv (b_buff b)"
proof -
  obtain s where "b_match be s b" by (rule b_reach_match [OF assms])
  from b_matchE [OF this assms(2)] show ?thesis by (auto simp: sys_at_def b_abs_def)
qed

lemma add_run:
  assumes "length raw = BLOCKSIZE" and "0 < n" and "n \<le> int BLOCKSIZE" and "add2buff 0 0 (b_buff b) raw n = Some (Returned d, buff')"
  shows "(b_step be)\<^sup>*\<^sup>* b (b\<lparr>b_buff := buff'\<rparr>)"
  using b_other.split [OF assms] by (auto simp: b_step_def)

lemma fin_run: "(b_step be)\<^sup>*\<^sup>* b (b\<lparr>b_buff := (b_buff b)\<lparr>pb_fin_flag := True\<rparr>\<rparr>)"
  using b_other.fin [of b] by (auto simp: b_step_def)

text \<open>An iteration is a run of such steps, and keeps what was said of the log.\<close>

lemma split_round_run:
  assumes "split_round x es (b_buff b) = Some (e, buff')" and at: "split_at bs b (Some (x # polls, es))"
    and inv: "pb_inv (b_buff b)" and lim: "length (blocks bs) \<le> 65536"
  shows "(b_step be)\<^sup>*\<^sup>* b (b\<lparr>b_buff := buff'\<rparr>) \<and>
    (case e of Inr es' \<Rightarrow> split_at bs (b\<lparr>b_buff := buff'\<rparr>) (Some (polls, es'))
     | Inl e' \<Rightarrow> e' = Returned () \<and> split_at bs (b\<lparr>b_buff := buff'\<rparr>) None)"
proof -
  have calm: "calm_polls polls" and es: "RecvErr \<notin> set es" "ev_ends es"
    and log: "pb_log (b_buff b) @ blocks (ev_bytes es) = blocks bs" using at by (auto simp: split_at_def calm_polls_def)
  obtain r revents where x: "x = (r, revents, 0, 0)" and noerr: "r > 0 \<longrightarrow> revents \<noteq> POLLERR"
    using at by (cases x) (auto simp: split_at_def calm_polls_def)
  have len: "length (pb_log (b_buff b)) + length (blocks (ev_bytes es)) \<le> 65536"
    using lim arg_cong [OF log, of length] by simp
  consider (skip) "\<not> (r > 0 \<and> revents = POLLIN)" | (full) "0 < r" "revents = POLLIN" "BLOCKSIZE \<le> length (ev_bytes es)"
    | (rest) "0 < r" "revents = POLLIN" "length (ev_bytes es) < BLOCKSIZE" by linarith
  then show ?thesis
  proof cases
    case skip
    then have "e = Inr es" "buff' = b_buff b" using assms(1) noerr by (auto simp: x split: if_splits)
    then show ?thesis using calm es log by (simp add: split_at_def)
  next
    case full
    then have bl: "blocks (ev_bytes es) = padded (take BLOCKSIZE (ev_bytes es)) # blocks (drop BLOCKSIZE (ev_bytes es))"
      by (subst blocks.simps) (auto simp: BLOCKSIZE_def)
    have "pb_set_ind (b_buff b) < 2147482" using len length_pb_log [OF inv] by simp
    from split_round_full [OF es full(3,1) inv this] obtain es' raw d buff1 where
      f: "split_round x es (b_buff b) = Some (Inr es', buff1)" "add2buff 0 0 (b_buff b) raw (int BLOCKSIZE) = Some (Returned d, buff1)"
        "length raw = BLOCKSIZE" "ev_bytes es' = drop BLOCKSIZE (ev_bytes es)" "RecvErr \<notin> set es'" "ev_ends es'"
        "pb_log buff1 = pb_log (b_buff b) @ [padded (take BLOCKSIZE (ev_bytes es))]" unfolding x full(2) by metis
    then have e: "e = Inr es'" "buff' = buff1" using assms(1) by simp_all
    have "(b_step be)\<^sup>*\<^sup>* b (b\<lparr>b_buff := buff1\<rparr>)" using f(2,3) BLOCKSIZE_pos by (intro add_run) simp_all
    then show ?thesis using f calm log bl by (simp add: e split_at_def)
  next
    case rest
    have "length (pb_log (b_buff b)) + length (blocks (ev_bytes es)) \<le> LOG_LIMIT" using len by (simp add: LOG_LIMIT_def)
    from split_round_rest [OF es rest(3,1) inv this] obtain buff1 where
      f: "split_round x es (b_buff b) = Some (Inl (Returned ()), buff1\<lparr>pb_fin_flag := True\<rparr>)"
        "pb_log buff1 = pb_log (b_buff b) @ blocks (ev_bytes es)"
        "ev_bytes es = [] \<and> buff1 = b_buff b \<or> (\<exists>raw n d. length raw = BLOCKSIZE \<and> 0 < n \<and> n \<le> int BLOCKSIZE \<and>
          add2buff 0 0 (b_buff b) raw n = Some (Returned d, buff1))" unfolding x rest(2) by metis
    then have e: "e = Inl (Returned ())" "buff' = buff1\<lparr>pb_fin_flag := True\<rparr>" using assms(1) by simp_all
    have "(b_step be)\<^sup>*\<^sup>* b (b\<lparr>b_buff := buff1\<rparr>)" using f(3) by (auto intro: add_run)
    also have "(b_step be)\<^sup>*\<^sup>* \<dots> (b\<lparr>b_buff := buff'\<rparr>)" using fin_run [of be "b\<lparr>b_buff := buff1\<rparr>"] by (simp add: e(2))
    finally show ?thesis using f(2) log by (simp add: e split_at_def pb_log_def)
  qed
qed

lemma split_start: "calm_polls polls \<Longrightarrow> RecvErr \<notin> set es \<Longrightarrow> ev_ends es \<Longrightarrow> split_at (ev_bytes es) (b_init sockfd) (Some (polls, es))"
  using sys_init_facts [of sockfd] by (simp add: split_at_def b_init_def Let_def)

lemma split_at_log: "split_at bs b sp \<Longrightarrow> length (pb_log (b_buff b)) \<le> length (blocks bs)"
  by (auto simp: split_at_def split: option.splits dest!: arg_cong [of _ "blocks bs" length])

text \<open>So a run with the splitting thread is a run of the system, whose log is what it has read.\<close>

lemma p_reach_split:
  assumes "p_reach be sockfd polls es (b, sp)" and "calm_polls polls" and "RecvErr \<notin> set es" and "ev_ends es"
    and "length (blocks (ev_bytes es)) \<le> 65536"
  shows "b_reach be sockfd b \<and> split_at (ev_bytes es) b sp"
  using assms(1)
proof (induction rule: rtranclp_induct2)
  case refl
  show ?case using split_start [OF assms(2-4)] by simp
next
  case (step b sp b' sp')
  have reach: "b_reach be sockfd b" and at: "split_at (ev_bytes es) b sp" using step.IH by simp_all
  have inv: "pb_inv (b_buff b)" using reach_buff [OF reach] split_at_log [OF at] assms(5) by (simp add: b_lim_def)
  from step.hyps(2) show ?case
  proof cases
    case work
    then have "b_reach be sockfd b'" using reach by (auto simp: b_step_def intro: rtranclp.rtrancl_into_rtrancl)
    then show ?thesis using at b_work_log [OF work(2)] work(1) by (auto simp: split_at_def split: option.splits)
  next
    case others
    then have "b_reach be sockfd b'" using reach by (auto simp: b_step_def intro: rtranclp.rtrancl_into_rtrancl)
    then show ?thesis using at others(1,3) by (auto simp: split_at_def split: option.splits)
  next
    case (again x es1 es2 buff' polls1)
    then show ?thesis
      using split_round_run [OF again(4) _ inv assms(5), of polls1 be] at reach by (auto intro: rtranclp_trans)
  next
    case (ended x es1 buff' polls1)
    then show ?thesis
      using split_round_run [OF ended(4) _ inv assms(5), of polls1 be] at reach by (auto intro: rtranclp_trans)
  qed
qed

lemma p_work_run: "(b_work be)\<^sup>*\<^sup>* b b' \<Longrightarrow> (p_step be)\<^sup>*\<^sup>* (b, sp) (b', sp)"
  by (induction rule: rtranclp_induct) (auto intro: rtranclp.rtrancl_into_rtrancl p_step.work)

end
