(* ===== verification/One_Connection.thy ===== *)
theory One_Connection
  imports Proxy_Progress
begin

text \<open>
  The functions of the two proxies plugged together, without a step relation: the splitting loop
  reads a stream into the buffer, one connection thread sends all of it, one receiving thread
  puts what arrives into the pool, and a round of the forwarding thread writes it out.
\<close>

section \<open>One connection thread\<close>

text \<open>
  Enough iterations for k packets and the end, in which no other thread touches the buffer, the
  mutex calls succeed, the link stays active, and \<open>send\<close>, however little it accepts and however
  often it fails, neither closes nor stops for ever.
\<close>

definition good_rounds :: "((proxy_buff \<Rightarrow> proxy_buff) \<times> int \<times> int \<times> int \<times> int list) list \<Rightarrow> nat \<Rightarrow> bool" where
  "good_rounds rounds k \<longleftrightarrow> k < length rounds \<and> (\<forall>(others, lock, unlock, state, rs)\<in>set rounds.
     (\<forall>buff. others buff = buff) \<and> lock = 0 \<and> unlock = 0 \<and> state \<noteq> link_PASSIVE \<and> 0 \<notin> set rs \<and> PACKET_SIZE \<le> accepts rs)"

text \<open>The packets of the blocks of a log from position g on.\<close>

definition log_packets :: "byte arr list \<Rightarrow> nat \<Rightarrow> encaps_packet_t list" where
  "log_packets log g = map (\<lambda>i. \<lparr>ep_seq = of_nat i, ep_raw_packet = log ! i\<rparr>) [g..<length log]"

lemma tx_round_good:
  assumes inv: "pb_inv buff" and lim: "length (pb_log buff) \<le> LOG_LIMIT" and more: "pb_get_ind buff \<le> pb_set_ind buff"
    and rs: "0 \<notin> set rs" "PACKET_SIZE \<le> accepts rs" and state: "state \<noteq> link_PASSIVE"
  shows "tx_round be 0 0 state rs buff = Some (Returned True,
    packet_bytes be \<lparr>ep_seq = of_int (pb_get_ind buff), ep_raw_packet = pb_log buff ! nat (pb_get_ind buff)\<rparr>,
    buff\<lparr>pb_get_ind := pb_get_ind buff + 1\<rparr>)"
proof -
  let ?p = "\<lparr>ep_seq = of_int (pb_get_ind buff), ep_raw_packet = pb_log buff ! nat (pb_get_ind buff)\<rparr>"
  have "pb_set_ind buff < 2147483" using lim length_pb_log [OF inv] by (simp add: LOG_LIMIT_def)
  note take = tx_take_packet(1) [OF inv this more]
  have "nat (pb_get_ind buff) < length (pb_log buff)" using inv more length_pb_log [OF inv] by (auto simp: pb_inv_def)
  then have len: "length (packet_bytes be ?p) = PACKET_SIZE" using pb_log_block [OF inv] by (simp add: length_packet_bytes)
  obtain wire rs' where fill: "send_fill True PACKET_SIZE (packet_bytes be ?p) 0 rs = (Filled, wire, rs')"
    using send_fill_completes [of PACKET_SIZE 0 rs True "packet_bytes be ?p"] rs by auto
  then have "wire = packet_bytes be ?p" using send_fill_prefix [OF fill] len by auto
  with fill take state show ?thesis by (simp add: tx_round_def)
qed

lemma tx_chain_sends_all:
  assumes "pb_inv buff" and "length (pb_log buff) \<le> LOG_LIMIT" and "pb_fin_flag buff"
    and "good_rounds rounds (length (pb_log buff) - nat (pb_get_ind buff))"
  shows "\<exists>buff'. tx_chain be rounds buff = Some (Returned (),
    concat (map (packet_bytes be) (log_packets (pb_log buff) (nat (pb_get_ind buff)))), buff')"
  using assms
proof (induction rounds arbitrary: buff)
  case Nil
  then show ?case by (simp add: good_rounds_def)
next
  case (Cons x rounds)
  obtain others state rs where x: "x = (others, 0, 0, state, rs)" "others buff = buff" "state \<noteq> link_PASSIVE" "0 \<notin> set rs"
    "PACKET_SIZE \<le> accepts rs" using Cons.prems(4) by (cases x) (auto simp: good_rounds_def)
  let ?log = "pb_log buff" and ?g = "nat (pb_get_ind buff)"
  have g: "int ?g = pb_get_ind buff" "int (length ?log) = pb_set_ind buff + 1" "pb_set_ind buff < 2147483"
    using Cons.prems(1,2) length_pb_log [of buff] by (simp_all add: pb_inv_def LOG_LIMIT_def)
  show ?case
  proof (cases "pb_get_ind buff \<le> pb_set_ind buff")
    case False
    then have "tx_take buff = Some (TxFin, buff)" using tx_take_none [OF Cons.prems(1) g(3)] Cons.prems(3) by simp
    moreover have "length ?log \<le> ?g" using False g by linarith
    ultimately show ?thesis by (simp add: x tx_round_def log_packets_def)
  next
    case True
    let ?buff = "buff\<lparr>pb_get_ind := pb_get_ind buff + 1\<rparr>" and ?p = "\<lparr>ep_seq = of_nat ?g, ep_raw_packet = ?log ! ?g\<rparr>"
    have seq: "of_int (pb_get_ind buff) = (of_nat ?g :: ushort)" using g(1) by (metis of_int_of_nat_eq)
    have "0 \<le> pb_get_ind buff" using Cons.prems(1) by (simp add: pb_inv_def)
    then have new: "pb_inv ?buff" "pb_log ?buff = ?log" "nat (pb_get_ind ?buff) = Suc ?g"
      using tx_take_packet(2,3) [OF Cons.prems(1) g(3) True] by (simp_all add: nat_add_distrib)
    have lt: "?g < length ?log" using True g by linarith
    then have "good_rounds rounds (length (pb_log ?buff) - nat (pb_get_ind ?buff))"
      using Cons.prems(4) unfolding new(2,3) by (auto simp: good_rounds_def)
    from Cons.IH [OF new(1) _ _ this] obtain buff' where ih: "tx_chain be rounds ?buff = Some (Returned (),
        concat (map (packet_bytes be) (log_packets ?log (Suc ?g))), buff')"
      using Cons.prems(2,3) unfolding new(2,3) by auto
    have "log_packets ?log ?g = ?p # log_packets ?log (Suc ?g)" using lt by (simp add: log_packets_def upt_conv_Cons)
    then show ?thesis
      using tx_round_good [OF Cons.prems(1,2) True x(4,5,3), of be] ih by (simp add: x(1,2) seq)
  qed
qed

section \<open>One receiving thread\<close>

lemma rx_chain_sent_min: "rx_chain be polls es ms pl h = Some (e, pl', h') \<Longrightarrow> pl_sent_min_seq pl' = pl_sent_min_seq pl"
proof (induction polls arbitrary: es ms pl h)
  case (Cons r polls)
  show ?case
  proof (cases "r > 0")
    case False
    with Cons show ?thesis by (simp add: rx_chain_skip)
  next
    case True
    with Cons.prems show ?thesis
      by (auto split: if_splits Option.bind_splits fill_end.splits list.splits dest!: add2queue_ranges(3) Cons.IH)
  qed
qed simp

lemma log_packets_numbered:
  assumes "length log \<le> 65536" and "\<forall>blk\<in>set log. length blk = BLOCKSIZE" and "pool_items q h = {}"
  shows "numbered_once (log_packets log 0) q h"
    and "set (map (\<lambda>p. (unat (ep_seq p), ep_raw_packet p)) (log_packets log 0)) = (\<lambda>i. (i, log ! i)) ` {0..<length log}"
proof -
  have seq: "unat (of_nat i :: ushort) = i" if "i < length log" for i using that assms(1) by (simp add: unat_of_nat)
  have "map (\<lambda>p. unat (ep_seq p)) (log_packets log 0) = [0..<length log]"
    unfolding log_packets_def map_map by (rule map_idI) (simp add: seq)
  with assms show "numbered_once (log_packets log 0) q h" by (auto simp: numbered_once_def log_packets_def)
  show "set (map (\<lambda>p. (unat (ep_seq p), ep_raw_packet p)) (log_packets log 0)) = (\<lambda>i. (i, log ! i)) ` {0..<length log}"
    by (auto simp: log_packets_def seq image_iff)
qed

text \<open>The environment of a receiving thread for k packets: results of \<open>poll\<close> and memory.\<close>

definition good_receiver :: "int list \<Rightarrow> (nptr \<times> bool) list \<Rightarrow> nat \<Rightarrow> bool" where
  "good_receiver polls ms k \<longleftrightarrow> k < length (filter (\<lambda>r. r > 0) polls) \<and> k \<le> length ms \<and> distinct (map fst ms) \<and> (\<forall>m\<in>set ms. snd m)"

lemma rx_chain_fills_pool:
  assumes log: "length log \<le> 65536" "\<forall>blk\<in>set log. length blk = BLOCKSIZE"
    and bytes: "map Some (ev_bytes es) = concat (map (packet_bytes be) (log_packets log 0))" "ev_ends es"
    and env: "good_receiver polls ms (length log)"
  obtains pl q h where "rx_chain be polls es ms (pool_init True True) (\<lambda>_. None) = Some (Returned (), pl, h)"
    and "pl_pq pl = Ref q" and "rx_queue q h" and "pool_items q h = (\<lambda>i. (i, log ! i)) ` {0..<length log}" and "pl_sent_min_seq pl = 0"
proof -
  obtain q where q: "pl_pq (pool_init True True) = Ref q" "rx_queue q (\<lambda>_. None)" "pool_items q (\<lambda>_. None) = {}" "q_size q = 1" "q_step q = 11"
    by (rule pool_init_queue)
  note pk = log_packets_numbered [OF log q(3)]
  have len: "length (log_packets log 0) = length log" by (simp add: log_packets_def)
  have "nodes_for (log_packets log 0) ms q (\<lambda>_. None)" "counters_ok (pool_init True True)"
    using env log(1) q(4,5) by (simp_all add: nodes_for_def good_receiver_def len counters_ok_def pool_init_def int_range_def)
  from rx_chain_packets [OF bytes q(1,2) pk(1) this, of polls] obtain pl' q' h' where
    r: "rx_chain be polls es ms (pool_init True True) (\<lambda>_. None) = Some (Returned (), pl', h')" "pl_pq pl' = Ref q'"
      "rx_queue q' h'" "pool_items q' h' = (\<lambda>i. (i, log ! i)) ` {0..<length log}"
    using env unfolding pk(2) q(3) by (auto simp: len good_receiver_def)
  moreover have "pl_sent_min_seq pl' = 0" using rx_chain_sent_min [OF r(1)] by (simp add: pool_init_def)
  ultimately show thesis by (rule that)
qed

section \<open>A round of the forwarding thread\<close>

lemma forward_log:
  assumes log: "length log \<le> 65536" "\<forall>blk\<in>set log. length blk = BLOCKSIZE"
    and pl: "pl_pq pl = Ref q" "rx_queue q h" "pool_items q h = (\<lambda>i. (i, log ! i)) ` {0..<length log}" "pl_sent_min_seq pl = 0"
    and rs: "whole_sends rs" "length log \<le> accepts rs"
  shows "\<exists>pl' h' fq'. forward_round r 0 rs pl h (wait2forward_fq sockfd) = Some (Returned (), concat log, pl', h', fq')"
proof -
  let ?P = "pool_items q h"
  have card: "card ?P \<le> length log" unfolding pl(3) using card_image_le [of "{0..<length log}"] by force
  have "seqs_from 0 ?P" "\<forall>(j, raw)\<in>?P. length raw = BLOCKSIZE" using log by (auto simp: pl(3) seqs_from_def)
  from forward_round_correct [OF pl(1,2) this fq_ok_init fill_room_init _ rs(1), of r sockfd] card rs(2) pl(4)
  obtain raws pl' h' fq' where f: "forward_round r 0 rs pl h (wait2forward_fq sockfd) = Some (Returned (), concat raws, pl', h', fq')"
    and sub: "numbered 0 raws \<subseteq> ?P" and gap: "length raws \<notin> fst ` ?P" by auto
  have "length raws \<le> length log"
  proof (cases raws rule: rev_cases)
    case (snoc ys y)
    then have "(length ys, y) \<in> ?P" using sub by (force simp: numbered_def nth_append)
    then show ?thesis using snoc by (auto simp: pl(3))
  qed simp
  moreover have "length log \<le> length raws" using gap by (force simp: pl(3))
  moreover have "raws = map ((!) log) [0..<0 + length raws]" using sub unfolding pl(3) by (rule numbered_log(2))
  ultimately have "raws = log" by (simp add: map_nth)
  with f show ?thesis by blast
qed

section \<open>From the stream to the destination\<close>

lemma blocks_lengths: "\<forall>blk\<in>set (blocks bs). length blk = BLOCKSIZE"
proof (induction bs rule: blocks.induct)
  case (1 bs)
  then show ?case by (subst blocks.simps) (auto simp: length_padded)
qed

lemma blocks_written: "i < length (blocks bs) \<Longrightarrow> None \<notin> set (blocks bs ! i)"
  using arg_cong [OF blocks_bytes [of bs], of set] nth_mem [of i "blocks bs"] by fastforce

text \<open>C35: over one connection, for a stream of at most 65536 blocks of 1000 bytes: the splitting
  loop, one connection thread, the receiving thread of the same connection and one round of
  the forwarding thread, each run after the other from the initial states, all end without
  undefined behaviour, every byte that is sent has been written, and the destination is sent
  the stream, padded with zeros to a whole block. The stream and the connection arrive in
  pieces of any size, the connection with receive errors in between (the stream with none,
  since the splitting loop stops there); \<open>poll\<close> reports enough readable events and no error;
  sends on the connection accept any number of bytes, but do not return 0, and sends to the
  destination accept whole blocks or nothing; of both, enough succeed. No mutex call fails, the
  link does not become passive, memory for a node is found for each block, and both hosts have
  the same byte order.\<close>

theorem connection_roundtrip:
  assumes "set_split_args 0 local_port = Some (Returned split)"
    and "RecvErr \<notin> set es" and "ev_ends es" and "length (ev_bytes es) \<le> 65536 * BLOCKSIZE"
    and "k = length (blocks (ev_bytes es))" and "good_polls polls k" and "good_rounds rounds k"
    and "good_receiver rx_polls ms k"
    and "whole_sends rs" and "k \<le> accepts rs"
  shows "\<exists>buff wire buff'. split_polls polls es (sa_buff split) = Some (Returned (), buff) \<and>
    tx_chain be rounds buff = Some (Returned (), wire, buff') \<and> None \<notin> set wire \<and>
    (\<forall>es'. ev_bytes es' = map the wire \<longrightarrow> ev_ends es' \<longrightarrow> (\<exists>pl h pl' h' fq'.
      rx_chain be rx_polls es' ms (pool_init True True) (\<lambda>_. None) = Some (Returned (), pl, h) \<and>
      forward_round r 0 rs pl h (wait2forward_fq sockfd) = Some (Returned (),
        map Some (ev_bytes es @ replicate ((BLOCKSIZE - length (ev_bytes es) mod BLOCKSIZE) mod BLOCKSIZE) 0), pl', h', fq')))"
proof -
  let ?log = "blocks (ev_bytes es)"
  have log: "length ?log \<le> 65536" "\<forall>blk\<in>set ?log. length blk = BLOCKSIZE"
    using blocks_count [OF assms(4)] blocks_lengths by simp_all
  have init: "pb_inv (sa_buff split)" "pb_log (sa_buff split) = []" "pb_get_ind (sa_buff split) = 0"
    using pb_inv_init [of local_port] assms(1) by auto
  from split_polls_blocks [OF init(1) assms(2,3), of polls] obtain buff where
    buff: "split_polls polls es (sa_buff split) = Some (Returned (), buff)" "pb_inv buff" "pb_log buff = ?log"
      "pb_get_ind buff = 0" "pb_fin_flag buff"
    using assms(5,6) log(1) init(2,3) by (auto simp: LOG_LIMIT_def)
  from tx_chain_sends_all [OF buff(2) _ buff(5), of rounds be] obtain buff' where
    tx: "tx_chain be rounds buff = Some (Returned (), concat (map (packet_bytes be) (log_packets ?log 0)), buff')"
    using assms(5,7) log(1) by (auto simp: buff(3,4) LOG_LIMIT_def)
  let ?wire = "concat (map (packet_bytes be) (log_packets ?log 0))"
  have written: "None \<notin> set ?wire"
    using blocks_written by (auto simp: log_packets_def packet_bytes_def)
  then have same: "map Some (map the ?wire) = ?wire" unfolding map_map by (intro map_idI) (metis comp_apply option.collapse)
  have "\<exists>pl h pl' h' fq'. rx_chain be rx_polls es' ms (pool_init True True) (\<lambda>_. None) = Some (Returned (), pl, h) \<and>
      forward_round r 0 rs pl h (wait2forward_fq sockfd) = Some (Returned (), concat ?log, pl', h', fq')"
    if es': "ev_bytes es' = map the ?wire" "ev_ends es'" for es'
  proof -
    have "map Some (ev_bytes es') = ?wire" using same unfolding es'(1) .
    from rx_chain_fills_pool [OF log this es'(2) assms(8) [unfolded assms(5)]] obtain pl q h where
      rx: "rx_chain be rx_polls es' ms (pool_init True True) (\<lambda>_. None) = Some (Returned (), pl, h)"
        "pl_pq pl = Ref q" "rx_queue q h" "pool_items q h = (\<lambda>i. (i, ?log ! i)) ` {0..<length ?log}" "pl_sent_min_seq pl = 0" .
    from forward_log [OF log rx(2-5) assms(9) assms(10) [unfolded assms(5)], of r sockfd] rx(1) show ?thesis by blast
  qed
  then show ?thesis using buff(1) tx written unfolding blocks_bytes by blast
qed

end
