(* ===== verification/Spec2Isabelle.thy ===== *)
theory Spec2Isabelle
  imports Examples Multi_Sample Print_Positions Split_Thread One_Connection
begin

text \<open>
  A verification library for tcp_proxy, a pair of proxies that carry one TCP stream over
  several TCP connections and put it together again.

  The program. The streamer (\<open>stream/\<close>) sends a file. The transmitter proxy
  (\<open>tx_proxy/split.c\<close>) intercepts the stream: a splitting thread cuts it into blocks of 1000
  bytes in a shared buffer, and one thread per connection takes blocks from the buffer,
  numbers them and sends them as packets. The receiver proxy (\<open>rx_proxy/\<close>) has one receiving
  thread per connection (\<open>link_receptor.c\<close>), which puts packets into a shared pool, a priority
  queue by sequence number (\<open>libpqueue/pqueue.c\<close>), and a forwarding thread (\<open>forward.c\<close>), which
  takes packets out in order and writes their payloads to the destination (\<open>receive/\<close>).

  How code becomes definitions. A struct is a record, a function is a definition of the same
  name whose loops are recursive functions with termination proofs. Undefined behaviour (an
  access outside an allocation, a read of memory that was never written, signed overflow, a
  wait on a mutex that is not held) is the result \<^term>\<open>None\<close>; a null pointer is \<open>Null\<close>; the
  end of the process is \<open>Exited\<close>, a system call that has not returned yet is \<open>Waiting\<close>. The
  results of system calls, of allocations the code checks, of mutex calls the code checks,
  and of libnetfilter_queue, libconfig and getopt are arguments, so that a theorem holds for
  all of them. Loops that never end are functions of the finite list of results they have
  seen so far; no fuel is used. Queue nodes live in a store from pointers to nodes, because
  the queue and its clients share them.

  The theories, in the order they build on each other:
  \<^item> Prelude: C types, arrays with unwritten slots, references, 32-bit arithmetic.
  \<^item> PQueue: \<open>pqueue.c\<close>, all operations on the heap array, for nodes of any type, which the
    operations reach through the callbacks. PQueue_Correct: validity (array, back pointers,
    order) and what every operation does to it, for the nodes of \<open>pqueue.c\<close>. Heap_Order: the
    order arguments, in a locale over the comparison, interpreted on \<open>cmp_pri\<close>. PQueue_Debug:
    the validity check, dump and print of \<open>pqueue.c\<close>. PQueue_Frame: what no operation changes.
    Print_Positions: what printing does to the positions of the nodes.
  \<^item> Queue_Interface: what clients rely on, as the locales \<open>prio_drain\<close> and \<open>prio_queue\<close>,
    interpreted on \<open>pqueue_pop\<close> and \<open>pqueue_insert\<close>. Queue_Clients: the locale \<open>node_callbacks\<close>,
    what a client's callbacks have to obey, and the view of its nodes that all operations
    commute with. Sample, Multi_Sample: \<open>libpqueue/sample.c\<close> and \<open>libpqueue/sample-multiattr.c\<close>,
    clients with their own nodes, and what they print.
  \<^item> Logger, Network, Io: the assertion macro, the packet as bytes and the address helpers, and
    the receive and send loops all programs share, for every chunking.
  \<^item> Pool, Link_Receptor, Forward: the receiver proxy. The pool is seen as a set of numbered
    payloads; a receiving thread adds those of its connection; filling takes the consecutive
    ones. The mutex calls of \<open>forward_loop\<close> are functions of the state of the mutex
    (\<open>mutex_lock\<close>, \<open>cond_timedwait\<close>, \<open>mutex_unlock\<close>), which the loop threads through.
  \<^item> Split, Block_Log: the transmitter proxy. The locale \<open>block_log\<close> states that the shared
    buffer is an append-only log with a read position, and is interpreted on \<open>add2buff\<close> and
    \<open>tx_take\<close>.
  \<^item> Proxy_System: both proxies as a step relation, one step per critical section with the
    socket calls that follow it; an invariant relates log, connections, pool and output.
  \<^item> Simulation, Proxy_Bytes, Proxy_Progress: the same system with every call of \<open>send\<close> and
    \<open>recv\<close> on the connections between the proxies as a step of its own, which moves some bytes:
    the loops of \<open>tx_chain\<close> and \<open>rx_chain\<close> are written out there, one iteration per step. A call
    of \<open>send\<close> to the destination moves a whole block. The locale \<open>bounded_simulation\<close> is
    interpreted on the two step relations; a rank bounds the steps that carry data.
  \<^item> Split_Thread: the same system with the splitting thread as a thread of its own, which runs the
    iterations of the splitting loop on what the intercepted connection delivers.
    One_Connection: the functions of the two proxies plugged together over one connection.
  \<^item> Proxy_Sections: every run of whole critical sections, as the functions of the code compute
    them, as a run of single calls. Proxy_Types: the sizes of the buffers of all threads and
    of what the store holds, in every reachable state and for logs of any length.
  \<^item> Proxy_Faults: the sections together with steps that lose packets; the proofs keep what is
    lost on one more connection, which nobody reads. Indeterminate: the receiver proxy does the
    same with payloads that lack bytes. Proxy_Cuts: connections that end inside a packet; the
    locale \<open>bounded_simulation\<close> is interpreted once more, on the systems with and without cuts.
  \<^item> Argv_Read, Stream_File, Receive, Mains: the parameters (with the sample program of
    \<open>argv_read.c\<close>), the streamer, the destination, the server and the four \<open>main\<close> functions.
  \<^item> Examples: concrete states that the hypotheses of the properties hold in.

  What is shown. In every reachable state the destination has received a prefix of the blocks,
  in order, and once the connections are drained one round completes it (C1, C2). The prefix
  also holds for single calls of \<open>send\<close> and \<open>recv\<close> on the connections,
  whatever they move (C38); the steps that carry data end (C39), and when they have, the
  destination has the whole log (C40). Without a step relation, over one connection: the
  functions of all four threads, one after the other, end and deliver the stream (C35). In every
  state the buffers, counters and nodes of all threads have the sizes the code relies on (C31).
  Where packets are lost, the output is still a prefix (C22), and it stops at the first packet
  that a connection thread took and could not send (C27). Lost packets are those no byte of
  which was sent, a connection that is reset, or a queue that cannot grow. Where connections are
  cut inside a packet, the output is a prefix except for bytes that were never written (C13).
  Together with the streamer and the splitting thread: the destination has been sent the file,
  padded to a block (C24; the destination program is left out of it, because of C30). What each
  thread contributes to this (C3 to C7); that the queue is a priority queue (C8 to C12, C14),
  for every client with lawful callbacks (C25). The other properties are about the limits of the
  code: packets the queue has no room for (C15), byte order (C16), the buffer of
  \<open>fill_queue\<close> (C17, and C37 for how two calls get there), partial sends (C18), the
  mutex of \<open>forward_loop\<close>, which lets it work only once (C19), the assertion that
  rejects every connection, so that nothing is intercepted (C20), truncated connections (C21),
  sequence numbers that wrap (C23, and C34: no more than 65536 blocks are ever delivered), the
  signal (C26), printing, which spoils the queue (C28), the streamer, which delivers a file of
  at most 2147482647 bytes once enough writes succeed (C29), the destination (C30), and starting
  up (C32, C33, C36).

  Bounds. Sequence numbers have 16 bits, so C1, C2, C13, C22, C24, C27, C35 and C38 to C40 are for
  logs of at most 65536 blocks; C31 and C34 are for logs of any length. Array indices of the queue
  are below \<open>2 ^ 61\<close>, the number of pointers that fit in 64-bit memory. Both step
  relations run each critical section as one step, as the mutexes are meant to; C19 shows where
  \<open>forward_loop\<close> does not keep to this. Their guards ask for connections that do not
  break, for memory, for whole writes to the destination (C18 shows what a partial one does), and
  for \<open>fill_room\<close>, which C17 shows is needed. The faults of Proxy_Faults drop the
  first two of these, where whole packets are lost, those of Proxy_Cuts where a packet is cut; a
  cut connection may be used again there, which only adds runs. C24 and C35 speak of the splitting
  loop after its \<open>accept\<close>, since C20 shows that \<open>split_loop\<close> does not get
  past it. The file of C29 is shorter than \<open>2 ^ 31 - 1000\<close> bytes because \<open>get_file_size\<close> and the
  counters of the streamer are ints. Nothing is claimed beyond these bounds.

  What is not modelled. Allocations the code does not check are taken to succeed. Log and
  console output of the four programs, times, names of hosts and \<open>close\<close> are left out, as are
  variables that are only printed (such as \<open>total\<close> in \<open>split.c\<close>, with the overflow of its sum
  after 2 GB). In \<open>libpqueue/sample-multiattr.c\<close> the first call of
  \<open>pqueue_print\<close> applies the \<open>set_pos\<close> of \<open>pqueue.c\<close> to nodes of another layout and writes behind
  them; what it does to a node of the sample is an argument of the model.
\<close>

section \<open>The priority queue\<close>

text \<open>C8: inserting a node that is not in a valid queue with room returns 0 and leaves a valid
  queue (array and back pointers consistent, heap ordered) with exactly that node added; what
  the nodes carry, apart from their positions, is unchanged.\<close>

theorem insert_adds:
  assumes "pq_valid q h" and "h p = Some n" and "p \<notin> pq_ptrs q" and "pq_room r q"
  shows "\<exists>q' h'. pqueue_insert r (Ref q) h p = Some (0, Ref q', h') \<and> pq_valid q' h' \<and>
    pq_ptrs q' = insert p (pq_ptrs q) \<and> same_nodes h h'"
  using pqueue_insert_correct [OF assms] by blast

theorem insert_adds_witness:
  "\<exists>q' h'. pqueue_insert True (Ref demo_q) demo_h 2 = Some (0, Ref q', h') \<and> pq_valid q' h' \<and> pq_ptrs q' = {0, 1, 2}"
proof -
  have "demo_h 2 = Some \<lparr>n_pri = 0, n_raw_packet = demo_block 30, n_pos = 0\<rparr>" by (simp add: demo_h_def)
  from insert_adds [OF demo_valid this _ demo_room] show ?thesis by (auto simp: demo_ptrs insert_commute)
qed

text \<open>C9: popping a non-empty valid queue returns a node of it that no other node precedes in
  the queue's order, and removes exactly that node.\<close>

theorem pop_takes_first:
  assumes "pq_valid q h" and "pq_ptrs q \<noteq> {}"
  shows "\<exists>p q' h'. pqueue_pop (Ref q) h = Some (Ref p, Ref q', h') \<and> p \<in> pq_ptrs q \<and>
    (\<forall>x\<in>pq_ptrs q. \<not> q_cmppri q (prio h p) (prio h x)) \<and> pq_valid q' h' \<and>
    pq_ptrs q' = pq_ptrs q - {p} \<and> same_nodes h h'"
proof -
  have "1 < q_size q" using assms pq_empty_iff [of q h] by (auto simp: pq_valid_def pq_inv_def pq_shape_def)
  from pqueue_pop_correct [OF assms(1) this] slot_1_min [OF assms(1)] assms(2) show ?thesis by blast
qed

theorem pop_takes_first_witness:
  "\<exists>q' h'. pqueue_pop (Ref demo_q) demo_h = Some (Ref 0, Ref q', h') \<and> pq_ptrs q' = {1}"
proof -
  obtain p q' h' where p: "pqueue_pop (Ref demo_q) demo_h = Some (Ref p, Ref q', h')" "p \<in> pq_ptrs demo_q"
    "\<forall>x\<in>pq_ptrs demo_q. \<not> q_cmppri demo_q (prio demo_h p) (prio demo_h x)" "pq_ptrs q' = pq_ptrs demo_q - {p}"
    using pop_takes_first [OF demo_valid] demo_ptrs by auto
  have "\<not> cmp_pri (prio demo_h p) (prio demo_h 0)" using p(3) by (simp add: demo_ptrs) (simp add: demo_q_def)
  then have "p = 0" using p(2) by (auto simp: demo_ptrs demo_prio cmp_pri_def)
  with p show ?thesis by (auto simp: demo_ptrs)
qed

text \<open>C10: removing a node of a valid queue, wherever it is in the heap, returns 0 and leaves a
  valid queue without exactly that node.\<close>

theorem remove_takes_out:
  assumes "pq_valid q h" and "p \<in> pq_ptrs q"
  shows "\<exists>q' h'. pqueue_remove q h p = Some (0, q', h') \<and> pq_valid q' h' \<and> pq_ptrs q' = pq_ptrs q - {p} \<and> same_nodes h h'"
  using pqueue_remove_correct [OF assms] by blast

theorem remove_takes_out_witness:
  "\<exists>q' h'. pqueue_remove demo_q demo_h 1 = Some (0, q', h') \<and> pq_valid q' h' \<and> pq_ptrs q' = {0}"
  using remove_takes_out [OF demo_valid, of 1] by (auto simp: demo_ptrs)

text \<open>C11: changing the priority of a node of a valid queue, up or down, leaves a valid queue
  with the same nodes, in which only that node's priority differs.\<close>

theorem change_priority_reorders:
  assumes "pq_valid q h" and "p \<in> pq_ptrs q" and "h p = Some m"
  shows "\<exists>q' h'. pqueue_change_priority q h new_pri p = Some (q', h') \<and> pq_valid q' h' \<and> pq_ptrs q' = pq_ptrs q \<and>
    same_nodes (h(p \<mapsto> m\<lparr>n_pri := new_pri\<rparr>)) h'"
  using pqueue_change_priority_correct [OF assms] by blast

theorem change_priority_reorders_witness:
  "\<exists>q' h'. pqueue_change_priority demo_q demo_h 9 0 = Some (q', h') \<and> pq_valid q' h' \<and> pq_ptrs q' = {0, 1}"
  using change_priority_reorders [OF demo_valid, of 0 "the (demo_h 0)" 9] by (auto simp: demo_ptrs demo_h_def)

text \<open>C12: \<open>pqueue_is_valid\<close> decides the heap order of a queue whose array and back pointers
  are consistent, as long as the indices fit the signed shifts.\<close>

theorem is_valid_decides:
  assumes "pq_inv q h" and "q_size q \<le> 2 ^ 30"
  shows "pqueue_is_valid q h = Some (pq_order q h)"
proof -
  have "subtree_is_valid q h 1 = Some (subtree_ok q h 1)" using assms by (intro subtree_is_valid_correct) simp_all
  then show ?thesis unfolding subtree_ok_root pqueue_is_valid_def .
qed

theorem is_valid_decides_witness: "pqueue_is_valid demo_q demo_h = Some True"
proof -
  have "q_size demo_q \<le> 2 ^ 30" by (simp add: demo_q_def)
  then show ?thesis using is_valid_decides [of demo_q demo_h] demo_valid by (simp add: pq_valid_def)
qed

text \<open>\<open>pqueue_peek\<close> returns what \<open>pqueue_pop\<close> would return, on empty queues too.\<close>

lemma peek_is_pop:
  assumes "pq_valid q h"
  shows "map_option fst (pqueue_pop (Ref q) h) = pqueue_peek (Ref q)"
proof (cases "pq_ptrs q = {}")
  case True
  then have "q_size q = 1" using assms pq_empty_iff [of q h] by (simp add: pq_valid_def)
  then show ?thesis using pqueue_peek_correct [OF assms] True by (simp add: pqueue_pop_empty)
next
  case False
  then have "1 < q_size q" using assms pq_empty_iff [of q h] by (auto simp: pq_valid_def pq_inv_def pq_shape_def)
  then show ?thesis using pqueue_pop_correct [OF assms] pqueue_peek_correct [OF assms] False by auto
qed

text \<open>C14: popping until the queue is empty ends and returns every node once, in the queue's
  order.\<close>

theorem pops_sort:
  assumes "pq_valid q h"
  shows "\<exists>xs q' h'. drains pq_pop (q, h) xs (q', h') \<and> set xs = pq_ptrs q \<and> distinct xs \<and>
    sorted_wrt (\<lambda>x y. \<not> q_cmppri q (prio h x) (prio h y)) xs \<and> pq_ptrs q' = {}"
proof -
  have "pq_ok (q_cmppri q) (q, h)" using assms by (simp add: pq_ok_def)
  from pq.drain_sorted [OF this] show ?thesis by auto
qed

theorem pops_sort_witness:
  "\<exists>xs q' h'. drains pq_pop (demo_q, demo_h) xs (q', h') \<and> set xs = {0, 1} \<and> distinct xs"
  using pops_sort [OF demo_valid] by (auto simp: demo_ptrs)

theorem client_sorts_witness:
  "\<exists>h qp h1 xs h2. h = (\<lambda>_. None)(0 \<mapsto> \<lparr>sn_pri = 5, sn_val = -5, sn_pos = 0\<rparr>, 1 \<mapsto> \<lparr>sn_pri = 4, sn_val = -4, sn_pos = 0\<rparr>) \<and>
    put_all True (pqueue_init True True 10 sample_cmp_pri sample_get_pri sample_set_pri sample_get_pos sample_set_pos) h [1, 0] =
      Some (qp, h1) \<and> print_loop qp h1 = Some (xs, h2) \<and> xs = [0, 1]"
proof -
  define h :: "sample_node_t nheap" where "h = (\<lambda>_. None)(0 \<mapsto> \<lparr>sn_pri = 5, sn_val = -5, sn_pos = 0\<rparr>, 1 \<mapsto> \<lparr>sn_pri = 4, sn_val = -4, sn_pos = 0\<rparr>)"
  obtain qp h1 xs h2 where run: "put_all True (pqueue_init True True 10 sample_cmp_pri sample_get_pri sample_set_pri sample_get_pos sample_set_pos) h [1, 0] =
      Some (qp, h1)" "print_loop qp h1 = Some (xs, h2)" and xs: "distinct xs" "set xs = {0, 1}"
      "sorted_wrt (\<lambda>x y. \<not> sample_cmp_pri (sample_get_pri (the (h x))) (sample_get_pri (the (h y)))) xs"
    using client_sorts [OF sample_nodes.node_callbacks_axioms sample_cmp.pri_order_axioms, of "[1, 0]" h 10 "\<lambda>_. []"]
    by (auto simp: h_def insert_commute)
  have "length xs = 2" using distinct_card [OF xs(1)] unfolding xs(2) by simp
  then obtain a b where ab: "xs = [a, b]" by (auto simp: length_Suc_conv numeral_2_eq_2)
  then have "xs = [0, 1]" using xs by (auto simp: h_def sample_cmp_pri_def sample_get_pri_def doubleton_eq_iff)
  with run h_def show ?thesis by blast
qed

text \<open>C15: when the queue is full and \<open>realloc\<close> fails, \<open>pqueue_insert\<close> returns 1 and \<open>add2queue\<close>,
  which does not look at the result, goes on as if the packet were stored: the pool and every
  node in it are unchanged, so the packet is lost.\<close>

theorem add2queue_drops:
  assumes "pl_pq pl = Ref q" and "q_avail q \<le> q_size q" and "rx_queue q h" and "h ns = None" and "counters_ok pl"
  shows "\<exists>h'. add2queue be False pl h ns (packet_bytes be p) = Some (add2queue_counters pl (ep_seq p) (Ref q), h') \<and>
    pool_items q h' = pool_items q h"
  using add2queue_full [OF assms] by blast

theorem add2queue_drops_witness:
  "\<exists>h'. add2queue False False demo_pl demo_h 9 (packet_bytes False \<lparr>ep_seq = 7, ep_raw_packet = demo_block 7\<rparr>) =
      Some (add2queue_counters demo_pl 7 (Ref demo_q), h') \<and> pool_items demo_q h' = {(1, demo_block 10), (2, demo_block 20)}"
proof -
  have "q_avail demo_q \<le> q_size demo_q" "demo_h 9 = None" by (simp_all add: demo_q_def demo_h_def)
  from add2queue_drops [OF demo_pl(1) this(1) demo_rx this(2) demo_pl(2), of False "\<lparr>ep_seq = 7, ep_raw_packet = demo_block 7\<rparr>"]
  show ?thesis by (simp add: demo_items)
qed

section \<open>Packets on the wire\<close>

text \<open>C16: a packet sent by \<open>tx_chain\<close> and cast back by \<open>add2queue\<close> is the packet when both hosts
  have the same byte order; otherwise its sequence number arrives with its bytes swapped.\<close>

theorem wire_byte_order:
  "cast_packet be' (packet_bytes be p) =
    Some (if be' = be then p else p\<lparr>ep_seq := htons False (ep_seq p)\<rparr>)"
proof (cases "be' = be")
  case False
  then have "be' = (\<not> be)" by simp
  with False show ?thesis by (simp only: cast_packet_swapped if_False)
qed (simp add: cast_packet_bytes)

section \<open>The receiver proxy\<close>

text \<open>C3: \<open>fill_queue\<close> on a pool whose numbers start at the next one to send, n, puts into the
  buffer exactly the packets n, n + 1, ... up to the first missing number, in order, takes
  exactly these out of the pool, and returns how many they are, or -1 when n is missing. The
  counters keep their relation, and no index leaves the buffer, provided the accumulated
  capacity exceeds the accumulated count by less than 19992 or at most 1250 packets wait.\<close>

theorem fill_in_order:
  assumes "rx_queue q h" and "seqs_from n (pool_items q h)" and "fq_ok fq n"
    and "fill_room fq (card (pool_items q h))"
  shows "\<exists>raws q' h' fq'. fill_queue r (Ref q) h fq =
      Some (if raws = [] then -1 else int (length raws), Ref q', h', fq') \<and>
    rx_queue q' h' \<and> numbered n raws \<subseteq> pool_items q h \<and>
    pool_items q' h' = pool_items q h - numbered n raws \<and> n + length raws \<notin> fst ` pool_items q h \<and>
    buffered fq' raws \<and> fq_ok (fq'\<lparr>fq_sent := fq_sent fq' + int (length raws)\<rparr>) (n + length raws)"
  using fill_queue_correct [OF assms] by blast

lemma demo_two_raws:
  assumes "numbered 1 raws \<subseteq> pool_items demo_q demo_h" and "1 + length raws \<notin> fst ` pool_items demo_q demo_h"
  shows "raws = [demo_block 10, demo_block 20]"
proof -
  have len: "length raws \<le> 2"
  proof (rule ccontr)
    assume "\<not> length raws \<le> 2"
    then have "(1 + 2, raws ! 2) \<in> numbered 1 raws" unfolding numbered_def by (intro image_eqI [where x = 2]) auto
    with assms(1) show False by (auto simp: demo_items)
  qed
  moreover have "length raws \<noteq> 0" "length raws \<noteq> 1" using assms(2) by (auto simp: demo_items)
  ultimately obtain a b where ab: "raws = [a, b]" by (cases raws; cases "tl raws"; auto)
  then have "numbered 1 raws = {(1, a), (2, b)}" by (simp add: numbered_Cons numeral_2_eq_2)
  with assms(1) ab show ?thesis by (auto simp: demo_items)
qed

theorem fill_in_order_witness:
  "\<exists>q' h' fq'. fill_queue True (Ref demo_q) demo_h demo_fq = Some (2, Ref q', h', fq') \<and>
    pool_items q' h' = {} \<and> buffered fq' [demo_block 10, demo_block 20]"
proof -
  have "seqs_from 1 (pool_items demo_q demo_h)" by (simp add: seqs_from_def demo_items)
  from fill_in_order [OF demo_rx this demo_fq_ok] obtain raws q' h' fq' where
    f: "fill_queue True (Ref demo_q) demo_h demo_fq = Some (if raws = [] then -1 else int (length raws), Ref q', h', fq')"
      "numbered 1 raws \<subseteq> pool_items demo_q demo_h" "pool_items q' h' = pool_items demo_q demo_h - numbered 1 raws"
      "1 + length raws \<notin> fst ` pool_items demo_q demo_h" "buffered fq' raws" by blast
  have raws: "raws = [demo_block 10, demo_block 20]" by (rule demo_two_raws [OF f(2,4)])
  have "numbered 1 raws = pool_items demo_q demo_h" by (simp add: raws numbered_Cons demo_items numeral_2_eq_2)
  with f raws show ?thesis by simp
qed

text \<open>C37: the state C17 needs is reached: after a first call that takes exactly 752 packets and
  the forwarding of these, a second call with 1251 consecutive packets in the pool writes past
  its buffer.\<close>

theorem second_fill_overflows:
  assumes first: "rx_queue q h" "pool_items q h = numbered 0 raws" "length raws = 752"
    and second: "rx_queue q2 h2" "seqs_from 752 (pool_items q2 h2)" "{752..2002} \<subseteq> fst ` pool_items q2 h2"
  shows "\<exists>q' h' fq'. fill_queue r (Ref q) h (wait2forward_fq sockfd) = Some (752, Ref q', h', fq') \<and>
    fill_queue r (Ref q2) h2 (fq'\<lparr>fq_sent := fq_sent fq' + 752\<rparr>) = None"
proof -
  have fst: "fst ` numbered 0 xs = {..<length xs}" for xs by (simp add: numbered_def image_image)
  have fromn: "seqs_from 0 (pool_items q h)" using first(3) by (auto simp: first(2) seqs_from_def numbered_def)
  obtain xs q' h' fq' where f: "fill_queue r (Ref q) h (wait2forward_fq sockfd) =
      Some (if xs = [] then -1 else int (length xs), Ref q', h', fq')" "numbered 0 xs \<subseteq> pool_items q h"
    "0 + length xs \<notin> fst ` pool_items q h" "fq_ok (fq'\<lparr>fq_sent := fq_sent fq' + int (length xs)\<rparr>) (0 + length xs)"
    "xs \<noteq> [] \<longrightarrow> fq_byte_count fq' = fq_byte_count (wait2forward_fq sockfd) + 8 * (int (length xs) - 1) \<and>
      10000 \<le> fq_byte_capacity fq' - fq_byte_count fq' \<and> doubled (wait2forward_fq sockfd) fq'"
    using fill_queue_correct [OF first(1) fromn fq_ok_init fill_room_init, of r] by blast
  have "{..<length xs} \<subseteq> {..<752}" using image_mono [OF f(2), of fst] first(3) unfolding first(2) fst by simp
  moreover have "752 \<le> length xs" using f(3) first(3) unfolding first(2) fst by simp
  ultimately have len: "length xs = 752" by (simp add: lessThan_subset_iff)
  then have cnt: "fq_byte_count fq' = 6008" "16008 \<le> fq_byte_capacity fq'" and "doubled (wait2forward_fq sockfd) fq'"
    using f(5) by (auto simp: wait2forward_fq_def)
  then obtain j where j: "fq_byte_capacity fq' = 8000 * 2 ^ j" by (auto simp: doubled_def wait2forward_fq_def INIT_QUEUE_SIZE_def)
  have "2 \<le> j"
  proof (rule ccontr)
    assume "\<not> 2 \<le> j"
    then have "(2 :: int) ^ j \<le> 2 ^ 1" by (intro power_increasing) auto
    with j cnt(2) show False by simp
  qed
  then have "(2 :: int) ^ 2 \<le> 2 ^ j" by (intro power_increasing) auto
  then have gap: "19992 \<le> fq_byte_capacity fq' - fq_byte_count fq'" using j cnt(1) by simp
  have "fill_queue r (Ref q2) h2 (fq'\<lparr>fq_sent := fq_sent fq' + 752\<rparr>) = None"
    using f(4) gap second(3) len by (intro overflowing_fill [OF second(1,2)]) simp_all
  then show ?thesis using f(1) len by (intro exI [of _ q'] exI [of _ h'] exI [of _ fq']) auto
qed

theorem second_fill_overflows_witness:
  "\<exists>q h q2 h2 q' h' fq'. fill_queue True (Ref q) h (wait2forward_fq 3) = Some (752, Ref q', h', fq') \<and>
    fill_queue True (Ref q2) h2 (fq'\<lparr>fq_sent := fq_sent fq' + 752\<rparr>) = None"
proof -
  obtain q h where q: "rx_queue q h" "pool_items q h = (\<lambda>i. (i, [])) ` {0..<0 + 752}"
    using pool_exists [of 0 752 "[]"] by auto
  obtain q2 h2 where q2: "rx_queue q2 h2" "pool_items q2 h2 = (\<lambda>i. (i, [])) ` {752..<752 + 1251}"
    using pool_exists [of 752 1251 "[]"] by auto
  have "pool_items q h = numbered 0 (replicate 752 [])" unfolding q(2) numbered_def by (auto simp: image_iff)
  moreover have "seqs_from 752 (pool_items q2 h2)" "{752..2002} \<subseteq> fst ` pool_items q2 h2"
    by (auto simp: q2 seqs_from_def image_image)
  ultimately show ?thesis using second_fill_overflows [OF q(1) _ _ q2(1), of "replicate 752 []" True 3] by (metis length_replicate)
qed

text \<open>C7: when every \<open>send\<close> to the destination accepts a whole block or nothing, \<open>forward_data\<close>
  writes the buffered payloads in order, counts them as sent and frees the buffer.\<close>

theorem forward_writes:
  assumes "whole_sends rs" and "length raws \<le> accepts rs" and "\<forall>raw\<in>set raws. length raw = BLOCKSIZE"
    and "buffered fq raws" and "int_range (fq_sent fq)" and "int_range (fq_sent fq + int (length raws))"
  shows "\<exists>rs'. forward_data fq (int (length raws)) rs =
    Some (Filled, concat raws, fq\<lparr>fq_sent := fq_sent fq + int (length raws), fq_buffer := []\<rparr>, rs')"
  by (rule forward_data_whole [OF assms])

theorem forward_writes_witness:
  "\<exists>fq' rs'. forward_data (demo_fq\<lparr>fq_buffer := [Some (demo_block 10)]\<rparr>) 1 [-1, 1000] =
    Some (Filled, demo_block 10, fq', rs')"
  using forward_writes [of "[-1, 1000]" "[demo_block 10]" "demo_fq\<lparr>fq_buffer := [Some (demo_block 10)]\<rparr>"]
  by (auto simp: whole_sends_def accepts_def demo_block_def BLOCKSIZE_def buffered_def arr_get_def
    demo_fq_def wait2forward_fq_def int_range_def)

text \<open>C23: a packet in the pool with a number below the next one to send (a number that
  wrapped around, or one sent twice) stops forwarding: \<open>fill_queue\<close> returns -1 and leaves the
  pool as it was, whatever else is in it.\<close>

theorem stale_number_blocks:
  assumes rx: "rx_queue q h" and old: "(j, raw) \<in> pool_items q h" "j < n" and sent: "fq_sent fq + 1 = int n" and n: "n \<le> 65536"
  shows "\<exists>q' h' fq'. fill_queue r (Ref q) h fq = Some (-1, Ref q', h', fq') \<and> pool_items q' h' = pool_items q h \<and>
    fq_sent fq' = fq_sent fq"
proof -
  have ne: "pool_items q h \<noteq> {}" using old by auto
  obtain p q1 h1 where pop: "pqueue_pop (Ref q) h = Some (Ref p, Ref q1, h1)"
    and rx1: "rx_queue q1 h1" and same: "same_nodes h h1" and room: "q_size q1 < q_avail q1" and live: "h1 p \<noteq> None"
    and mem: "(unat (prio h p), node_raw h p) \<in> pool_items q h"
    and least: "\<forall>(j, raw)\<in>pool_items q h. unat (prio h p) \<le> j"
    and items1: "pool_items q1 h1 = pool_items q h - {(unat (prio h p), node_raw h p)}"
    and new: "prio h p \<notin> prio h ` pq_ptrs q1"
    by (rule rx_pop [OF rx ne])
  have h1: "prio h1 = prio h" "node_raw h1 = node_raw h" using same by (simp_all add: same_nodes_prio_fun same_nodes_raw)
  from live obtain nd where nd: "h1 p = Some nd" by auto
  then have "n_pri nd = prio h p" by (simp add: h1 [symmetric] prio_def)
  moreover have lt: "unat (prio h p) < n" using least old by force
  moreover have "pri_int (prio h p) = int (unat (prio h p))" using lt n by (intro pri_int_small) simp
  ultimately have pri: "pri_int (n_pri nd) \<noteq> int n" by (simp del: of_nat_unat)
  have "prio h1 p \<notin> prio h1 ` pq_ptrs q1" "pq_room r q1" using new room by (simp_all add: h1 pq_room_def)
  then obtain q2 h2 where ins: "pqueue_insert r (Ref q1) h1 p = Some (0, Ref q2, h2)" and "rx_queue q2 h2"
    and "same_nodes h1 h2" and items2: "pool_items q2 h2 = insert (unat (prio h1 p), node_raw h1 p) (pool_items q1 h1)"
    and "q_size q2 = Suc (q_size q1)" and "same_config q1 q2" and "pq_ptrs q2 = insert p (pq_ptrs q1)"
    by (rule rx_push [OF rx1 live])
  have "cint (fq_sent fq + 1) = Some (int n)" unfolding sent using n by (simp add: int_range_def)
  then have "fill_queue r (Ref q) h fq = Some (-1, Ref q2, h2, fq\<lparr>fq_buffer := arr_new (10 * BLOCKSIZE div 8)\<rparr>)"
    using pri by (simp add: fill_queue_def Let_def pop nd ins)
  moreover have "pool_items q2 h2 = pool_items q h" using items2 items1 mem h1 by auto
  ultimately show ?thesis by (intro exI [of _ q2] exI [of _ h2] exI) auto
qed

theorem stale_number_blocks_witness:
  "\<exists>q' h' fq'. fill_queue True (Ref demo_q) demo_h ((wait2forward_fq 5)\<lparr>fq_sent := 65535\<rparr>) = Some (-1, Ref q', h', fq') \<and>
    pool_items q' h' = {(1, demo_block 10), (2, demo_block 20)}"
  using stale_number_blocks [OF demo_rx, of 1 "demo_block 10" 65536 "(wait2forward_fq 5)\<lparr>fq_sent := 65535\<rparr>" True]
  by (auto simp: demo_items)

text \<open>C26: when the packet arrives that the forwarding thread sends next, the one numbered
  \<open>sent_min_seq\<close>, no signal is sent; the packet after it sends one. (The packet is new, the queue
  has room for it and the counters are in range.)\<close>

theorem signal_misses_next:
  assumes "pl_pq pl = Ref q" and "rx_queue q h" and "h ns = None" and "unat (ep_seq p) \<notin> fst ` pool_items q h"
    and "pq_room ok q" and "counters_ok pl"
  shows "\<exists>pl' h'. add2queue be ok pl h ns (packet_bytes be p) = Some (pl', h') \<and>
    pl_cond pl' = (if uint (ep_seq p) = pl_sent_min_seq pl + 1 then pl_cond pl + 1 else pl_cond pl)"
proof -
  have "int_range (pl_avail_min_seq pl + 1)" "int_range (pl_sent_min_seq pl + 1)" using assms(6) by (simp_all add: counters_ok_def)
  from add2queue_correct [OF assms(1-5) this, of be] obtain q' h' where
    "add2queue be ok pl h ns (packet_bytes be p) = Some (add2queue_counters pl (ep_seq p) (Ref q'), h')" by blast
  then show ?thesis by (simp add: add2queue_counters_def eq_commute)
qed

theorem signal_misses_next_witness:
  "\<exists>q pl' h'. pl_pq (pool_init True True) = Ref q \<and>
    add2queue False True (pool_init True True) (\<lambda>_. None) 0 (packet_bytes False \<lparr>ep_seq = 0, ep_raw_packet = demo_block 7\<rparr>) =
      Some (pl', h') \<and> pl_cond pl' = 0"
proof -
  obtain q where q: "pl_pq (pool_init True True) = Ref q" "rx_queue q (\<lambda>_. None)" "pool_items q (\<lambda>_. None) = {}" "q_size q = 1" "q_avail q = 11"
    by (rule pool_init_queue)
  have "pq_room True q" "counters_ok (pool_init True True)" using q by (simp_all add: pq_room_def counters_ok_def pool_init_def int_range_def)
  from signal_misses_next [OF q(1,2) refl _ this, where p = "\<lparr>ep_seq = 0, ep_raw_packet = demo_block 7\<rparr>" and ns = 0 and be = False]
  show ?thesis using q by (simp add: pool_init_def)
qed

theorem print_breaks_positions_witness:
  "\<exists>xs h1 q2 h2. pqueue_print True True demo_q demo_h = Some (xs, h1) \<and> set xs = {0, 1} \<and> distinct xs \<and>
    pqueue_remove demo_q h1 1 = Some (0, q2, h2) \<and> pq_ptrs q2 = {1}"
proof -
  have "q_size demo_q + 1 < 2 ^ 61" "1 \<in> pq_ptrs demo_q" by (simp add: demo_q_def) (simp add: demo_ptrs)
  from print_breaks_positions [OF demo_valid this] obtain xs h1 q2 h2 where
    r: "pqueue_print True True demo_q demo_h = Some (xs, h1)" "set xs = pq_ptrs demo_q" "distinct xs"
    "pqueue_remove demo_q h1 1 = Some (0, q2, h2)" "pq_ptrs q2 = pq_ptrs demo_q - {slot demo_q 1}" by blast
  then have "set xs = {0, 1}" "pq_ptrs q2 = {1}" by (auto simp: demo_ptrs demo_slot)
  with r show ?thesis by blast
qed

section \<open>The transmitter proxy\<close>

text \<open>C6: whatever the interleaving of the splitting thread with the connection threads, the
  packets handed out are the blocks in the order they were added, each once, numbered
  consecutively modulo 65536; nothing is handed out before it is added.\<close>

theorem interleaved_takes:
  assumes "pb_inv buff" and "\<forall>raw\<in>set (puts ops). length raw = BLOCKSIZE"
    and "length (pb_log buff) + length (puts ops) \<le> LOG_LIMIT"
  shows "\<exists>buff'. run_ops pb_put pb_take ops buff =
      Some (map (\<lambda>i. (of_nat i, pb_log buff' ! i)) [nat (pb_get_ind buff)..<nat (pb_get_ind buff')], buff') \<and>
    pb_inv buff' \<and> pb_log buff' = pb_log buff @ puts ops \<and> nat (pb_get_ind buff) \<le> nat (pb_get_ind buff')"
  by (rule pb.run_ops_numbered [OF assms])

theorem interleaved_takes_witness:
  "\<exists>split buff'. set_split_args 0 ''80'' = Some (Returned split) \<and>
    run_ops pb_put pb_take [Take, Put (demo_block 1), Put (demo_block 2), Take] (sa_buff split) =
      Some (map (\<lambda>i. (of_nat i, pb_log buff' ! i)) [0..<nat (pb_get_ind buff')], buff') \<and>
    pb_log buff' = [demo_block 1, demo_block 2]"
proof -
  obtain split where s: "set_split_args 0 ''80'' = Some (Returned split)" "pb_inv (sa_buff split)" "pb_log (sa_buff split) = []"
    "pb_get_ind (sa_buff split) = 0" using pb_inv_init by blast
  from interleaved_takes [OF s(2), of "[Take, Put (demo_block 1), Put (demo_block 2), Take]"] s show ?thesis
    by (auto simp: demo_block_def LOG_LIMIT_def simp del: run_ops.simps)
qed

text \<open>The sequence number is the block's index modulo 65536: block 65536 is sent with the number
  of block 0.\<close>

lemma tx_number_wraps:
  assumes "pb_inv buff" and "length (pb_log buff) \<le> LOG_LIMIT" and "pb_get_ind buff \<le> pb_set_ind buff"
  shows "\<exists>p buff'. tx_take buff = Some (TxPacket p, buff') \<and> ep_raw_packet p = pb_log buff ! nat (pb_get_ind buff) \<and>
    int (unat (ep_seq p)) = pb_get_ind buff mod 65536 \<and> pb_get_ind buff' = pb_get_ind buff + 1"
proof -
  have "pb_set_ind buff < 2147483" using assms(1,2) length_pb_log [of buff] by (simp add: LOG_LIMIT_def)
  from tx_take_packet(1) [OF assms(1) this assms(3)] show ?thesis by (simp add: uint_word_of_int)
qed

section \<open>From the file to the destination\<close>

text \<open>C24: the streamer, the splitting thread and the two proxies together (not the destination
  program, which C30 is about). The streamer has returned after writing a file of at most 65536
  blocks; the splitting thread runs its loop on what was written, however TCP cut it, but
  without receive errors, interleaved with all other threads of the proxies, and has ended;
  none of its mutex calls failed and \<open>poll\<close> never reported an error. Then, if the proxies have
  come to rest, with room for the log in the buffer of the forward queue (\<open>fill_room\<close>), the
  destination has been sent the file, followed by the zeros that fill its last block, and
  nothing else. The connections do not break and the writes to the destination accept whole
  blocks, as in every step of \<open>Proxy_Bytes\<close>.\<close>

theorem file_delivered:
  assumes streamed: "stream sockfd connect rs fp = Some (Returned (), map Some (ev_bytes es))" "length fp \<le> 65536 * BLOCKSIZE"
    and read: "RecvErr \<notin> set es" "ev_ends es" "calm_polls polls"
    and carried: "p_reach be fd polls es (b, None)" "fill_room (b_fq b) (length (pb_log (b_buff b)))"
      "\<not> (\<exists>b'. b_work be b b')"
  shows "b_out b = map Some (fp @ replicate ((BLOCKSIZE - length fp mod BLOCKSIZE) mod BLOCKSIZE) 0)"
proof -
  have "length fp + BLOCKSIZE \<le> 2 ^ 31 - 1" using streamed(2) by (simp add: BLOCKSIZE_def)
  from stream_returned [OF this streamed(1)] have es: "ev_bytes es = fp" by (simp add: inj_map_eq_map)
  then have cnt: "length (blocks (ev_bytes es)) \<le> 65536" using streamed(2) by (simp add: blocks_count)
  from p_reach_split [OF carried(1) read(3,1,2) cnt] have b: "b_reach be fd b" "pb_log (b_buff b) = blocks fp"
    by (simp_all add: split_at_def es)
  then have "b_out b = concat (blocks fp)" using quiet_delivers [OF b(1) _ carried(2,3)] cnt es by simp
  then show ?thesis by (simp add: blocks_bytes)
qed

section \<open>The properties of the component theories at concrete inputs\<close>

theorem sys_output_prefix_witness:
  "\<exists>s n. sys_reach False (sys_init 3) s \<and> pb_log (s_buff s) = [demo_block 7] \<and>
    s_out s = concat (take n (pb_log (s_buff s)))"
proof -
  obtain s where s: "sys_reach False (sys_init 3) s" "pb_log (s_buff s) = [demo_block 7]" using one_block_run by blast
  then obtain n where "s_out s = concat (take n (pb_log (s_buff s)))" using sys_output_prefix [OF s(1)] by auto
  with s show ?thesis by blast
qed

theorem sys_output_complete_witness:
  "\<exists>s wire pl' h' fq'. sys_reach False (sys_init 3) s \<and>
    forward_round True 0 [1000] (s_pl s) (s_h s) (s_fq s) = Some (Returned (), wire, pl', h', fq') \<and>
    s_out s @ wire = demo_block 7"
proof -
  obtain s where s: "sys_reach False (sys_init 3) s" "pb_log (s_buff s) = [demo_block 7]"
    "pb_get_ind (s_buff s) = pb_set_ind (s_buff s) + 1" "\<forall>ch\<in>set (s_chans s). ch = []" "s_fq s = wait2forward_fq 3"
    using one_block_run [of False] by blast
  have "fill_room (s_fq s) (length (pb_log (s_buff s)))" "whole_sends [1000]" "length (pb_log (s_buff s)) \<le> accepts [1000]"
    "length (pb_log (s_buff s)) \<le> 65536"
    using s by (simp_all add: fill_room_init whole_sends_def accepts_def BLOCKSIZE_def)
  from sys_output_complete [OF s(1) this(4) s(3,4) this(1-3), of True] s show ?thesis by auto
qed

theorem rx_chain_packets_witness:
  "\<exists>pl' q' h'. rx_chain False [1, 1] [RecvBytes (0 # replicate 500 7), RecvErr, RecvBytes (replicate 501 7), RecvFin] [(0, True)]
      (pool_init True True) (\<lambda>_. None) = Some (Returned (), pl', h') \<and> pl_pq pl' = Ref q' \<and>
    pool_items q' h' = {(1792, demo_block 7)}"
proof -
  let ?es = "[RecvBytes (0 # replicate 500 7), RecvErr, RecvBytes (replicate 501 7), RecvFin] :: recv_ev list"
  let ?p = "\<lparr>ep_seq = 1792, ep_raw_packet = demo_block 7\<rparr>"
  obtain q where q: "pl_pq (pool_init True True) = Ref q" "rx_queue q (\<lambda>_. None)" "pool_items q (\<lambda>_. None) = {}" "q_size q = 1" "q_step q = 11"
    by (rule pool_init_queue)
  have "ushort_bytes False 1792 = [0, 7]" by (simp add: ushort_bytes_def)
  moreover have "replicate 500 x @ replicate 501 x = x # replicate 1000 x" for x :: byte
    by (simp add: replicate_add [symmetric] replicate_Suc [symmetric] del: replicate_Suc)
  ultimately have bytes: "map Some (ev_bytes ?es) = concat (map (packet_bytes False) [?p])"
    by (simp add: packet_bytes_def demo_block_def BLOCKSIZE_def map_replicate flip: map_append)
  have "numbered_once [?p] q (\<lambda>_. None)" "nodes_for [?p] [(0, True)] q (\<lambda>_. None)" "counters_ok (pool_init True True)"
    using q by (simp_all add: numbered_once_def demo_block_def nodes_for_def counters_ok_def pool_init_def int_range_def)
  from rx_chain_packets [OF bytes _ q(1,2) this, of "[1, 1]"] q(3) show ?thesis by auto
qed

theorem split_polls_correct_witness:
  "\<exists>s buff'. set_split_args 0 ''80'' = Some (Returned s) \<and>
    split_polls [(1, 1, 0, 0), (1, 1, 0, 0)] [RecvBytes [1, 2], RecvBytes [3], RecvFin] (sa_buff s) = Some (Returned (), buff') \<and>
    pb_log buff' = [padded [1, 2, 3]] \<and> pb_fin_flag buff'"
proof -
  obtain s where s: "set_split_args 0 ''80'' = Some (Returned s)" "pb_inv (sa_buff s)" "pb_log (sa_buff s) = []"
    using pb_inv_init by blast
  have bl: "blocks [1, 2, 3] = [padded [1, 2, 3]]" by (simp add: blocks.simps [of "[1, 2, 3]"] BLOCKSIZE_def)
  have "good_polls [(1, 1, 0, 0), (1, 1, 0, 0)] 1" by (simp add: good_polls_def POLLIN_def POLLERR_def)
  then show ?thesis
    using split_polls_correct [OF s(2), of "[RecvBytes [1, 2], RecvBytes [3], RecvFin]" "[(1, 1, 0, 0), (1, 1, 0, 0)]"] s bl
    by (auto simp: LOG_LIMIT_def simp del: split_polls.simps)
qed

theorem fill_queue_overflow_witness:
  "\<exists>q h fq. rx_queue q h \<and> card (pool_items q h) = 1251 \<and> fq_ok fq 752 \<and> fill_queue True (Ref q) h fq = None"
proof -
  let ?fq = "(wait2forward_fq 3)\<lparr>fq_sent := 751, fq_byte_count := 6008, fq_byte_capacity := 32000\<rparr>"
  obtain q h where q: "rx_queue q h" "pool_items q h = (\<lambda>i. (i, [])) ` {752..<752 + 1251}"
    using pool_exists [of 752 1251 "[]"] by auto
  have "seqs_from 752 (pool_items q h)" by (auto simp: q seqs_from_def)
  moreover have "{752..752 + 1250} \<subseteq> fst ` pool_items q h" by (auto simp: q image_image)
  moreover have fq: "fq_ok ?fq 752" by (simp add: fq_ok_def)
  ultimately have "fill_queue True (Ref q) h ?fq = None" by (intro fill_queue_overflow [OF q(1), of 752]) simp_all
  moreover have "card (pool_items q h) = 1251" unfolding q by (subst card_image) (auto simp: inj_on_def)
  ultimately show ?thesis using q(1) fq by blast
qed

theorem send_block_short_witness:
  "send_block (demo_block 7) 0 [400, 600] = (Filled, take 400 (demo_block 7) @ take 600 (demo_block 7), [])"
  using send_block_short [of 400 "demo_block 7" "[]"] by (simp add: BLOCKSIZE_def)

theorem forward_loop_once_witness:
  "\<exists>raws q' pl' h' fq'. forward_loop 0 [(True, 0, [1000, 1000])] demo_pl demo_h demo_fq = Some (Waiting, concat raws, pl', h', fq') \<and>
    pl_pq pl' = Ref q' \<and> raws = [demo_block 10, demo_block 20] \<and> pool_items q' h' = {} \<and>
    forward_loop 0 [(True, 0, [1000, 1000]), (True, 0, [])] demo_pl demo_h demo_fq = None"
proof -
  have "seqs_from 1 (pool_items demo_q demo_h)" "\<forall>(j, raw)\<in>pool_items demo_q demo_h. length raw = BLOCKSIZE"
    "whole_sends [1000, 1000]" "card (pool_items demo_q demo_h) \<le> accepts [1000, 1000]"
    "0 \<le> pl_sent_min_seq demo_pl" "pl_sent_min_seq demo_pl \<le> int 1"
    by (simp_all add: seqs_from_def demo_items demo_block_def whole_sends_def accepts_def BLOCKSIZE_def demo_pl_def
      card_insert_if)
  from forward_loop_once [OF demo_pl(1) demo_rx this(1,2) demo_fq_ok _ this(3-6), of True]
  obtain raws q' pl' h' fq' where
    f: "forward_loop 0 [(True, 0, [1000, 1000])] demo_pl demo_h demo_fq = Some (Waiting, concat raws, pl', h', fq')"
      "pl_pq pl' = Ref q'" "pool_items q' h' = pool_items demo_q demo_h - numbered 1 raws"
      "\<forall>round2 rounds. forward_loop 0 ((True, 0, [1000, 1000]) # round2 # rounds) demo_pl demo_h demo_fq = None"
    and raws: "numbered 1 raws \<subseteq> pool_items demo_q demo_h" "1 + length raws \<notin> fst ` pool_items demo_q demo_h" by auto
  note two = demo_two_raws [OF raws]
  have "pool_items q' h' = {}" unfolding f(3) by (auto simp: demo_items two numbered_Cons)
  with f(1,2,4) two show ?thesis by blast
qed

theorem nothing_intercepted_witness:
  "\<exists>split e buff e' buff'. set_split_args 0 ''80'' = Some (Returned split) \<and>
    get_payload 0 True 4 0 0 0 5 (Some (Sockaddr_in 80 1)) [(1, 1, 0, 0)] [RecvBytes [1], RecvFin] split =
      Some (e, buff) \<and> e = Exited EXIT_FAILURE \<and> pb_log buff = [] \<and> tx_chain False [(id, 0, 0, link_ACTIVE, [])] buff = Some (e', [], buff')"
proof -
  obtain split where s: "set_split_args 0 ''80'' = Some (Returned split)" using pb_inv_init by blast
  have run: "get_payload 0 True 4 0 0 0 5 (Some (Sockaddr_in 80 1)) [(1, 1, 0, 0)] [RecvBytes [1], RecvFin] split =
    Some (Exited EXIT_FAILURE, sa_buff split)" by (simp add: get_payload_def split_loop_def LOG_ASSERT_def)
  have "poll_ignores 5 [(1, 1, 0, 0)]" "\<forall>x\<in>set [(id, 0, 0, link_ACTIVE, [])]. fst x = id" by (simp_all add: poll_ignores_def)
  from nothing_intercepted [OF s this(1) run this(2), of False] s run show ?thesis by blast
qed

theorem rx_chain_fragment_witness:
  "\<exists>pl' q' h'. rx_chain False [1] [RecvBytes (1 # 0 # replicate 600 7), RecvFin] [(0, True)] (pool_init True True) (\<lambda>_. None) =
      Some (Returned (), pl', h') \<and> pl_pq pl' = Ref q' \<and>
    pool_items q' h' = {(1, map Some (replicate 600 7) @ arr_new 400)}"
proof -
  let ?es = "[RecvBytes (1 # 0 # replicate 600 7), RecvFin] :: recv_ev list"
  let ?p = "\<lparr>ep_seq = 1, ep_raw_packet = map Some (replicate 600 7) @ arr_new 400\<rparr>"
  obtain q where q: "pl_pq (pool_init True True) = Ref q" "rx_queue q (\<lambda>_. None)" "pool_items q (\<lambda>_. None) = {}" "q_size q = 1" "q_step q = 11"
    by (rule pool_init_queue)
  have bytes: "map Some (ev_bytes ?es) @ arr_new 400 = packet_bytes False ?p"
    by (simp add: packet_bytes_def ushort_bytes_def)
  have "length (ep_raw_packet ?p) = BLOCKSIZE" "(0 :: nat) < 400" "400 \<le> BLOCKSIZE" by (simp_all add: BLOCKSIZE_def)
  moreover have "numbered_once [?p] q (\<lambda>_. None)" "nodes_for [?p] [(0, True)] q (\<lambda>_. None)" "counters_ok (pool_init True True)"
    using q by (simp_all add: numbered_once_def BLOCKSIZE_def nodes_for_def counters_ok_def pool_init_def int_range_def)
  ultimately show ?thesis using rx_chain_fragment [OF bytes _ _ _ _ q(1,2), of 0 True "[]" "[]"] q(3) by auto
qed

theorem stream_delivers_witness: "stream 4 0 [1, -1, 5, 0, 7] [1, 2, 3] = Some (Returned (), map Some [1, 2, 3])"
  by (rule stream_delivers) (simp_all add: BLOCKSIZE_def accepts_def)

theorem recv_loop_full_block_witness:
  "recv_loop [(1, POLLIN)] [RecvBytes (replicate 1000 5), RecvFin] 0 = None"
  by (rule recv_loop_full_block) (simp_all add: BLOCKSIZE_def)

theorem main_args_config_witness:
  "main_args True True False rx_options [''dest_ip'', ''recv_port''] 1 [] (CfgRead (Ref (\<lambda>k. Some (''v'' @ k)))) =
    Some (Returned (Inr [''vdest_ip'', ''vrecv_port'']))"
  using main_args_config [of rx_options "\<lambda>k. Some (''v'' @ k)" "[''dest_ip'', ''recv_port'']" True False "[]"]
  by (simp add: option_tables)

theorem main_args_command_line_witness:
  "main_args True False False tx_options [''local_port''] ARGV_NUM [(65, Ref ''80''), (-1, Null)] CfgError = None"
  by (rule main_args_command_line) (simp_all add: option_tables)

theorem config_roundtrip_witness:
  "\<exists>vs vs'. init_arg_vals 3 (map Some rx_options) = Some vs \<and> config_reader vs (Ref Some) 3 = Some (0, vs') \<and>
    get_argv ''dest_port'' vs' 3 = Some (Ref ''dest_port'')"
  using config_roundtrip [of rx_options Some "\<lparr>op_name = ''dest_port'', op_val = 66\<rparr>"] by (simp add: option_tables)

theorem bytes_refine_sections_witness:
  "\<exists>b s. b_reach False 3 b \<and> pb_log (b_buff b) = [demo_block 7] \<and> (sys_step False)\<^sup>*\<^sup>* (sys_init 3) s \<and>
    s_buff s = b_buff b \<and> prefix (b_out b) (demo_block 7)"
proof -
  obtain b where b: "b_reach False 3 b" "pb_log (b_buff b) = [demo_block 7]" by (rule one_block_bytes [OF length_demo_block])
  with bytes_refine_sections [OF b(1)] show ?thesis by auto
qed

theorem work_terminates_witness:
  "\<exists>b b'. b_reach False 3 b \<and> pb_log (b_buff b) = [demo_block 7] \<and> b_work False b b' \<and> 1 + b_rank b' \<le> b_rank b"
proof -
  obtain b b' where b: "b_reach False 3 b" "pb_log (b_buff b) = [demo_block 7]" "b_work False b b'" by (rule one_block_bytes [OF length_demo_block])
  then have "(b_work False ^^ 1) b b'" by auto
  from work_terminates [OF b(1) _ this] b show ?thesis by auto
qed

theorem quiet_complete_witness:
  "\<exists>b b'. b_reach False 3 b \<and> pb_log (b_buff b) = [demo_block 7] \<and> (b_work False)\<^sup>*\<^sup>* b b' \<and> b_out b' = demo_block 7"
proof -
  obtain b where b: "b_reach False 3 b" "pb_log (b_buff b) = [demo_block 7]" by (rule one_block_bytes [OF length_demo_block])
  then have "b_lim b" by (simp add: b_lim_def)
  from work_settles [OF b(1) this] b(2) obtain b' where b': "(b_work False)\<^sup>*\<^sup>* b b'" "b_reach False 3 b'"
    "pb_log (b_buff b') = [demo_block 7]" "\<not> (\<exists>b''. b_work False b' b'')" by auto
  then have "b_out b' = concat (pb_log (b_buff b'))" by (intro quiet_complete [OF b'(2)]) (auto simp: fill_room_def)
  with b b' show ?thesis by auto
qed

theorem file_delivered_witness:
  "\<exists>b. p_reach False 3 [(1, 1, 0, 0)] [RecvBytes [1, 2], RecvBytes [3], RecvFin] (b, None) \<and>
    b_out b = map Some ([1, 2, 3] @ replicate 997 0)"
proof -
  let ?fp = "[1, 2, 3] :: byte list" and ?es = "[RecvBytes [1, 2], RecvBytes [3], RecvFin]" and ?polls = "[(1, 1, 0, 0)]"
  have es: "ev_bytes ?es = ?fp" by simp
  have bl: "length (blocks ?fp) = 1" by (subst blocks.simps) (simp add: BLOCKSIZE_def blocks.simps)
  have "stream 4 0 [1, -1, 5, 0, 7] ?fp = Some (Returned (), map Some ?fp)"
    by (rule stream_sends) (simp_all add: BLOCKSIZE_def accepts_def)
  then have streamed: "stream 4 0 [1, -1, 5, 0, 7] ?fp = Some (Returned (), map Some (ev_bytes ?es))" by simp
  have calm: "calm_polls ?polls" by (simp add: calm_polls_def POLLERR_def)
  have init: "pb_inv (b_buff (b_init 3))" "pb_log (b_buff (b_init 3)) = []"
    using sys_init_facts [of 3] by (simp_all add: b_init_def Let_def)
  have "RecvErr \<notin> set ?es" "ev_ends ?es" "length (ev_bytes ?es) < BLOCKSIZE"
    "length (pb_log (b_buff (b_init 3))) + length (blocks (ev_bytes ?es)) \<le> LOG_LIMIT"
    using bl by (simp_all add: init(2) LOG_LIMIT_def BLOCKSIZE_def)
  note es_ok = this
  obtain buff where "split_round (1, POLLIN, 0, 0) ?es (b_buff (b_init 3)) = Some (Inl (Returned ()), buff)"
    using split_round_rest [OF es_ok(1-3) _ init(1) es_ok(4), of 1] by auto
  then have "p_step False (b_init 3, Some (?polls, ?es)) ((b_init 3)\<lparr>b_buff := buff\<rparr>, None)"
    using p_step.ended [where x = "(1, 1, 0, 0)"] by (simp add: POLLIN_def del: split_round.simps)
  then have start: "p_reach False 3 ?polls ?es ((b_init 3)\<lparr>b_buff := buff\<rparr>, None)" by blast
  from p_reach_split [OF start calm es_ok(1,2)]
  have b0: "b_reach False 3 ((b_init 3)\<lparr>b_buff := buff\<rparr>)" "pb_log buff = blocks ?fp"
    using bl unfolding es by (simp_all add: split_at_def)
  then have "b_lim ((b_init 3)\<lparr>b_buff := buff\<rparr>)" using bl by (simp add: b_lim_def)
  from work_settles [OF b0(1) this] obtain b where b: "(b_work False)\<^sup>*\<^sup>* ((b_init 3)\<lparr>b_buff := buff\<rparr>) b"
    "pb_log (b_buff b) = blocks ?fp" "\<not> (\<exists>b''. b_work False b b'')" using b0(2) by auto
  have run: "p_reach False 3 ?polls ?es (b, None)" using start p_work_run [OF b(1)] by (rule rtranclp_trans)
  have "b_out b = map Some (?fp @ replicate ((BLOCKSIZE - length ?fp mod BLOCKSIZE) mod BLOCKSIZE) 0)"
    using bl b by (intro file_delivered [OF streamed _ es_ok(1,2) calm run]) (simp_all add: BLOCKSIZE_def fill_room_def)
  with run show ?thesis by (intro exI [of _ b]) (simp add: BLOCKSIZE_def)
qed

theorem states_typed_witness:
  "\<exists>b. b_reach False 3 b \<and> pb_log (b_buff b) = [demo_block 7] \<and>
    (\<forall>p n. b_h b p = Some n \<longrightarrow> unat (n_pri n) < 65536 \<and> length (n_raw_packet n) = BLOCKSIZE)"
proof -
  obtain b where b: "b_reach False 3 b" "pb_log (b_buff b) = [demo_block 7]" by (rule one_block_bytes [OF length_demo_block])
  with states_typed [OF b(1)] show ?thesis by blast
qed

theorem output_bounded_witness:
  "\<exists>b. b_reach False 3 b \<and> pb_log (b_buff b) = [demo_block 7] \<and> length (b_out b) \<le> 65536 * BLOCKSIZE"
proof -
  obtain b where b: "b_reach False 3 b" "pb_log (b_buff b) = [demo_block 7]" by (rule one_block_bytes [OF length_demo_block])
  with output_bounded [OF b(1)] show ?thesis by blast
qed

theorem connection_roundtrip_witness:
  "\<exists>split buff wire buff' pl h pl' h' fq'. set_split_args 0 ''80'' = Some (Returned split) \<and>
    split_polls [(1, 1, 0, 0), (1, 1, 0, 0)] [RecvBytes [1, 2], RecvBytes [3], RecvFin] (sa_buff split) = Some (Returned (), buff) \<and>
    tx_chain False (replicate 2 (id, 0, 0, link_ACTIVE, replicate PACKET_SIZE 1)) buff = Some (Returned (), wire, buff') \<and>
    rx_chain False [1, 1] [RecvErr, RecvBytes (map the wire), RecvFin] [(7, True)] (pool_init True True) (\<lambda>_. None) =
      Some (Returned (), pl, h) \<and>
    forward_round True 0 [1000] pl h (wait2forward_fq 3) = Some (Returned (), map Some ([1, 2, 3] @ replicate 997 0), pl', h', fq')"
proof -
  let ?es = "[RecvBytes [1, 2], RecvBytes [3], RecvFin] :: recv_ev list"
  let ?rounds = "replicate 2 (id, 0, 0, link_ACTIVE, replicate PACKET_SIZE 1) :: ((proxy_buff \<Rightarrow> proxy_buff) \<times> int \<times> int \<times> int \<times> int list) list"
  obtain split where s: "set_split_args 0 ''80'' = Some (Returned split)" using pb_inv_init by blast
  have es: "ev_bytes ?es = [1, 2, 3]" by simp
  have k: "1 = length (blocks (ev_bytes ?es))" unfolding es by (subst blocks.simps) (simp add: BLOCKSIZE_def blocks.simps)
  have env: "good_polls [(1, 1, 0, 0), (1, 1, 0, 0)] 1" "good_rounds ?rounds 1" "good_receiver [1, 1] [(7, True)] 1"
    by (simp_all add: good_polls_def POLLIN_def POLLERR_def good_rounds_def link_ACTIVE_def link_PASSIVE_def accepts_def
      good_receiver_def PACKET_SIZE_def)
  have "RecvErr \<notin> set ?es" "ev_ends ?es" "length (ev_bytes ?es) \<le> 65536 * BLOCKSIZE" "whole_sends [1000]" "1 \<le> accepts [1000]"
    by (simp_all add: BLOCKSIZE_def whole_sends_def accepts_def)
  from connection_roundtrip [OF s this(1-3) k env this(4,5), of False True 3] obtain buff wire buff' where
    tx: "split_polls [(1, 1, 0, 0), (1, 1, 0, 0)] ?es (sa_buff split) = Some (Returned (), buff)"
      "tx_chain False ?rounds buff = Some (Returned (), wire, buff')"
    and rx: "ev_bytes es' = map the wire \<Longrightarrow> ev_ends es' \<Longrightarrow> \<exists>pl h pl' h' fq'.
      rx_chain False [1, 1] es' [(7, True)] (pool_init True True) (\<lambda>_. None) = Some (Returned (), pl, h) \<and>
      forward_round True 0 [1000] pl h (wait2forward_fq 3) = Some (Returned (),
        map Some ([1, 2, 3] @ replicate ((BLOCKSIZE - length [1, 2, 3 :: byte] mod BLOCKSIZE) mod BLOCKSIZE) 0), pl', h', fq')" for es'
    unfolding es by blast
  have "(BLOCKSIZE - length [1, 2, 3 :: byte] mod BLOCKSIZE) mod BLOCKSIZE = 997" by (simp add: BLOCKSIZE_def)
  with rx [of "[RecvErr, RecvBytes (map the wire), RecvFin]"] s tx show ?thesis by simp
qed

theorem losses_keep_prefix_witness:
  "\<exists>s n. (faulty_step False)\<^sup>*\<^sup>* (sys_init 3) s \<and> pb_get_ind (s_buff s) = 1 \<and> pb_log (s_buff s) = [demo_block 7] \<and>
    s_out s = concat (take n (pb_log (s_buff s)))"
proof -
  obtain s buff' where s: "(faulty_step False)\<^sup>*\<^sup>* (sys_init 3) s" "pb_log (s_buff s) = [demo_block 7]"
    "tx_round False 0 0 link_ACTIVE [0] (s_buff s) = Some (Returned False, [], buff')" "buff' = (s_buff s)\<lparr>pb_get_ind := 1\<rparr>"
    by (rule one_block_lost)
  let ?s = "s\<lparr>s_buff := buff'\<rparr>"
  have "faulty_step False s ?s" unfolding faulty_step_def using s(3) by (intro disjI2 fault.closed)
  with s(1) have run: "(faulty_step False)\<^sup>*\<^sup>* (sys_init 3) ?s" by (rule rtranclp.rtrancl_into_rtrancl)
  have log: "pb_log (s_buff ?s) = [demo_block 7]" using s(2,4) by (simp add: pb_log_def)
  from losses_keep_prefix [OF run] log run s(4) show ?thesis by (intro exI [of _ ?s]) auto
qed

theorem lost_packet_stops_witness:
  "\<exists>s buff'. (faulty_step False)\<^sup>*\<^sup>* (sys_init 3) s \<and> pb_log (s_buff s) = [demo_block 7] \<and>
    tx_round False 0 0 link_ACTIVE [0] (s_buff s) = Some (Returned False, [], buff') \<and> s_out (s\<lparr>s_buff := buff'\<rparr>) = []"
proof -
  obtain s buff' where s: "(faulty_step False)\<^sup>*\<^sup>* (sys_init 3) s" "pb_log (s_buff s) = [demo_block 7]"
    "tx_round False 0 0 link_ACTIVE [0] (s_buff s) = Some (Returned False, [], buff')" "buff' = (s_buff s)\<lparr>pb_get_ind := 1\<rparr>"
    "pb_get_ind (s_buff s) = 0" "pb_set_ind (s_buff s) = 0" by (rule one_block_lost)
  have "length (pb_log (s_buff (s\<lparr>s_buff := buff'\<rparr>))) \<le> 65536" using s(2,4) by (simp add: pb_log_def)
  from lost_packet_stops [OF s(1) _ s(3) rtranclp.rtrancl_refl this] s show ?thesis by auto
qed

theorem cuts_keep_bytes_witness:
  "\<exists>s n. (torn_step False)\<^sup>*\<^sup>* (sys_init 3) s \<and> pb_log (s_buff s) = [demo_block 7] \<and>
    s_out s = take 600 (demo_block 7) @ arr_new 400 \<and>
    list_all2 (\<lambda>x y. x = None \<or> x = y) (s_out s) (concat (take n (pb_log (s_buff s))))"
proof -
  obtain s where s: "(torn_step False)\<^sup>*\<^sup>* (sys_init 3) s" "pb_log (s_buff s) = [demo_block 7]"
    "s_out s = take 600 (demo_block 7) @ arr_new 400" by (rule one_block_cut)
  with cuts_keep_bytes [OF s(1)] obtain n where
    "list_all2 (\<lambda>x y. x = None \<or> x = y) (s_out s) (concat (take n (pb_log (s_buff s))))" by auto
  with s show ?thesis by blast
qed

end
